(* ===== verification/Prelude.thy ===== *)
theory Prelude
  imports Main "HOL-Library.Word" "HOL-Library.AList" "HOL-Library.Multiset"
begin

text \<open>
  Shared foundations of the development: the types by which the Go program's values are read
  (byte strings, instants, durations), Go maps as association lists, the unspecified iteration
  order of a Go range loop, buffered Go channels, and two generic locales (invariants of
  transition systems and replay of event streams) that the components interpret.

  Conventions. A Go panic is the value \<open>None\<close> of an option type. An error result is the left
  injection of a sum. A pointer is an index into an explicit store.
\<close>

named_theorems go_defs \<open>definitions of straight-line Go functions, unfolded by the component proofs\<close>
named_theorems inv_intros \<open>preservation of component invariants\<close>

section \<open>Values\<close>

type_synonym byte = "8 word"
type_synonym bytes = "byte list"
type_synonym uint64 = "64 word"

text \<open>
  An instant (\<^verbatim>\<open>time.Time\<close>) is the number of nanoseconds since the Unix epoch; the zero
  \<^verbatim>\<open>time.Time{}\<close> is 1 January of year 1. A \<^verbatim>\<open>time.Duration\<close> is a signed 64-bit count of
  nanoseconds. \<^verbatim>\<open>UnixNano\<close> reads an instant back as a signed 64-bit number and wraps around
  outside the years 1678 to 2262.
\<close>

type_synonym time = int
type_synonym duration = "64 word"

definition zero_time :: time where
  "zero_time = - 62135596800 * 1000000000"

definition time_Add :: "time \<Rightarrow> duration \<Rightarrow> time" where
  "time_Add t d = t + sint d"

definition UnixNano :: "time \<Rightarrow> 64 word" where
  "UnixNano t = word_of_int t"

definition unix_nano_range :: "time \<Rightarrow> bool" where
  "unix_nano_range t \<longleftrightarrow> - (2 ^ 63) \<le> t \<and> t < 2 ^ 63"

lemma sint_UnixNano [simp]:
  "unix_nano_range t \<Longrightarrow> sint (UnixNano t) = t"
  by (simp add: UnixNano_def unix_nano_range_def signed_of_int signed_take_bit_int_eq_self)

lemma time_Add_mono: "sint d \<le> sint e \<Longrightarrow> time_Add t d \<le> time_Add t e"
  by (simp add: time_Add_def)

lemma unat_word_of_nat_small: "n < 2 ^ 64 \<Longrightarrow> unat (word_of_nat n :: 64 word) = n"
  by (simp add: unat_of_nat)

lemma unat_byte: "unat (a :: byte) < 256"
  using unsigned_less [of a, where ?'a = nat] by simp

section \<open>Go maps\<close>

text \<open>
  A Go map is an association list with distinct keys: \<open>map_of m k\<close> is the lookup
  \<^verbatim>\<open>v, ok := m[k]\<close>, \<open>AList.update k v m\<close> the assignment, \<open>AList.delete k m\<close> the built-in
  \<^verbatim>\<open>delete\<close> and \<open>length m\<close> the built-in \<^verbatim>\<open>len\<close>. The interface below is what the components
  use of such a map.
\<close>

abbreviation keys :: "('k \<times> 'v) list \<Rightarrow> 'k list" where
  "keys m \<equiv> map fst m"

locale go_map =
  fixes get :: "'m \<Rightarrow> 'k \<Rightarrow> 'v option"
    and put :: "'k \<Rightarrow> 'v \<Rightarrow> 'm \<Rightarrow> 'm"
    and del :: "'k \<Rightarrow> 'm \<Rightarrow> 'm"
    and ks :: "'m \<Rightarrow> 'k list"
    and ok :: "'m \<Rightarrow> bool"
  assumes get_put: "get (put k v m) = (get m)(k \<mapsto> v)"
    and get_del: "get (del k m) = (get m)(k := None)"
    and ok_put: "ok m \<Longrightarrow> ok (put k v m)"
    and ok_del: "ok m \<Longrightarrow> ok (del k m)"
    and ks_dom: "set (ks m) = dom (get m)"
    and ks_distinct: "ok m \<Longrightarrow> distinct (ks m)"
begin

lemma len_card: "ok m \<Longrightarrow> length (ks m) = card (dom (get m))"
  by (metis distinct_card ks_distinct ks_dom)

lemma finite_dom: "finite (dom (get m))"
  by (metis List.finite_set ks_dom)

lemma len_put:
  "ok m \<Longrightarrow> length (ks (put k v m)) = (if get m k = None then Suc (length (ks m)) else length (ks m))"
  by (auto simp: len_card ok_put get_put finite_dom card_insert_if domIff)

lemma len_del:
  "ok m \<Longrightarrow> length (ks (del k m)) = (if get m k = None then length (ks m) else length (ks m) - 1)"
  by (auto simp: len_card ok_del get_del finite_dom domIff card_Diff_singleton_if)

lemma put_put_same: "get (put k v (put k w m)) = get (put k v m)"
  by (simp add: get_put)

lemma del_put_same: "get (del k (put k v m)) = get (del k m)"
  by (simp add: get_del get_put)

end

interpretation gm: go_map map_of AList.update AList.delete keys "\<lambda>m. distinct (keys m)"
proof unfold_locales
  fix k :: 'a and v :: 'b and m :: "('a \<times> 'b) list"
  show "map_of (AList.update k v m) = (map_of m)(k \<mapsto> v)" by (rule update_conv')
  show "map_of (AList.delete k m) = (map_of m)(k := None)" by (rule delete_conv')
  show "distinct (keys m) \<Longrightarrow> distinct (keys (AList.update k v m))" by (rule distinct_update)
  show "distinct (keys m) \<Longrightarrow> distinct (keys (AList.delete k m))" by (rule distinct_delete)
  show "set (keys m) = dom (map_of m)" by (simp add: dom_map_of_conv_image_fst)
qed simp

lemmas gm_get [simp] = gm.get_put gm.get_del
lemmas gm_ok [simp, intro] = gm.ok_put gm.ok_del

lemma gm_len_put [simp]:
  "distinct (keys m) \<Longrightarrow>
     length (AList.update k v m) = (if map_of m k = None then Suc (length m) else length m)"
  using gm.len_put [of m k v] by (simp only: length_map)

lemma gm_del_absent [simp]: "map_of m k = None \<Longrightarrow> AList.delete k m = m"
  by (simp add: map_of_eq_None_iff delete_idem)

lemma keys_delete: "keys (AList.delete k m) = filter (\<lambda>x. x \<noteq> k) (keys m)"
  by (induction m) auto

lemma set_delete: "set (AList.delete k m) = {p \<in> set m. fst p \<noteq> k}"
  by (auto simp: AList.delete_eq)

lemma map_of_in_set: "distinct (keys m) \<Longrightarrow> (k, v) \<in> set m \<longleftrightarrow> map_of m k = Some v"
  by (metis Some_eq_map_of_iff)

lemma map_of_filter_entries:
  "distinct (keys m) \<Longrightarrow> map_of (filter P m) k =
     (case map_of m k of None \<Rightarrow> None | Some v \<Rightarrow> if P (k, v) then Some v else None)"
  by (induction m) (auto simp: map_of_eq_None_iff split: option.splits)

lemma map_of_update_idem: "map_of m k = Some v \<Longrightarrow> AList.update k v m = m"
  by (induction m) auto

lemma all_update:
  assumes "distinct (keys m)" and "\<forall>p \<in> set m. P p" and "P (k, v)"
  shows "\<forall>p \<in> set (AList.update k v m). P p"
  using assms by (induction m) auto

subsection \<open>Iteration order\<close>

text \<open>
  The order of a range loop over a map is unspecified and may differ from one loop to the next.
  A model function that ranges over a map takes the order as an argument, a function on the key
  list, and the theorems assume only that it is a permutation.
\<close>

definition range_order :: "('k list \<Rightarrow> 'k list) \<Rightarrow> bool" where
  "range_order ord \<longleftrightarrow> (\<forall>ks. mset (ord ks) = mset ks)"

lemma range_order_id [simp]: "range_order (\<lambda>ks. ks)"
  by (simp add: range_order_def)

lemma range_order_rev [simp]: "range_order rev"
  by (simp add: range_order_def)

lemma range_order_set [simp]: "range_order ord \<Longrightarrow> set (ord ks) = set ks"
  by (metis range_order_def set_mset_mset)

lemma range_order_distinct [simp]: "range_order ord \<Longrightarrow> distinct (ord ks) = distinct ks"
  by (metis range_order_def mset_eq_imp_distinct_iff)

lemma range_order_length [simp]: "range_order ord \<Longrightarrow> length (ord ks) = length ks"
  by (metis range_order_def size_mset)


section \<open>Buffered channels\<close>

text \<open>
  A buffered Go channel: its capacity, the values in flight and whether it was closed. A
  non-blocking send (\<^verbatim>\<open>select\<close> with a \<^verbatim>\<open>default\<close> branch) reports whether the value was
  taken; a send on a closed channel and a second close are panics. A receive yields a value, or
  the closed mark once a closed channel is drained, or blocks.
\<close>

record 'a chan =
  ch_cap :: nat
  ch_buf :: "'a list"
  ch_closed :: bool

datatype 'a recv = Got 'a | Drained | Blocked

definition make_chan :: "nat \<Rightarrow> 'a chan" where
  "make_chan n = \<lparr>ch_cap = n, ch_buf = [], ch_closed = False\<rparr>"

definition try_send :: "'a chan \<Rightarrow> 'a \<Rightarrow> ('a chan \<times> bool) option" where
  "try_send c v =
     (if ch_closed c then None
      else if length (ch_buf c) < ch_cap c then Some (c\<lparr>ch_buf := ch_buf c @ [v]\<rparr>, True)
      else Some (c, False))"

definition close_chan :: "'a chan \<Rightarrow> 'a chan option" where
  "close_chan c = (if ch_closed c then None else Some (c\<lparr>ch_closed := True\<rparr>))"

definition recv_chan :: "'a chan \<Rightarrow> 'a recv \<times> 'a chan" where
  "recv_chan c =
     (case ch_buf c of
        v # vs \<Rightarrow> (Got v, c\<lparr>ch_buf := vs\<rparr>)
      | [] \<Rightarrow> (if ch_closed c then Drained else Blocked, c))"

definition chan_wf :: "'a chan \<Rightarrow> bool" where
  "chan_wf c \<longleftrightarrow> length (ch_buf c) \<le> ch_cap c"

text \<open>
  What a user of a buffered channel relies on: first-in first-out delivery, never more than the
  capacity in flight, and that a send is refused only when the buffer is full.
\<close>

locale bounded_channel =
  fixes send :: "'c \<Rightarrow> 'a \<Rightarrow> ('c \<times> bool) option"
    and recv :: "'c \<Rightarrow> 'a recv \<times> 'c"
    and buf :: "'c \<Rightarrow> 'a list"
    and cap :: "'c \<Rightarrow> nat"
    and closed :: "'c \<Rightarrow> bool"
  assumes send_closed: "send c v = None \<longleftrightarrow> closed c"
    and send_taken: "send c v = Some (c', True) \<Longrightarrow>
          length (buf c) < cap c \<and> buf c' = buf c @ [v] \<and> cap c' = cap c \<and> closed c' = closed c"
    and send_full: "send c v = Some (c', False) \<Longrightarrow> c' = c \<and> cap c \<le> length (buf c)"
    and recv_got: "buf c = v # vs \<Longrightarrow> \<exists>c'. recv c = (Got v, c') \<and> buf c' = vs \<and>
          cap c' = cap c \<and> closed c' = closed c"
    and recv_empty: "buf c = [] \<Longrightarrow> recv c = (if closed c then Drained else Blocked, c)"
begin

lemma send_accepts:
  assumes "\<not> closed c" and "length (buf c) < cap c"
  shows "\<exists>c'. send c v = Some (c', True) \<and> buf c' = buf c @ [v] \<and> cap c' = cap c \<and> \<not> closed c'"
proof -
  from assms(1) obtain c' b where s: "send c v = Some (c', b)"
    using send_closed by fastforce
  have "b" using send_full [of c v c'] s assms(2) by (cases b) auto
  with s send_taken [of c v c'] assms(1) show ?thesis by auto
qed

lemma send_refuses:
  assumes "\<not> closed c" and "cap c \<le> length (buf c)"
  shows "send c v = Some (c, False)"
proof -
  from assms(1) obtain c' b where s: "send c v = Some (c', b)"
    using send_closed by fastforce
  have "\<not> b" using send_taken [of c v c'] s assms(2) by (cases b) auto
  with s send_full [of c v c'] show ?thesis by auto
qed

text \<open>Receiving as often as there are values in flight yields exactly them, in order.\<close>

primrec drain :: "nat \<Rightarrow> 'c \<Rightarrow> 'a list \<times> 'c" where
  "drain 0 c = ([], c)"
| "drain (Suc n) c =
     (case recv c of
        (Got v, c') \<Rightarrow> (case drain n c' of (vs, c'') \<Rightarrow> (v # vs, c''))
      | (_, c') \<Rightarrow> ([], c'))"

lemma drain_all: "\<exists>c'. drain (length (buf c)) c = (buf c, c') \<and> buf c' = [] \<and> closed c' = closed c"
proof (induction "buf c" arbitrary: c)
  case Nil
  then show ?case by (metis drain.simps(1) list.size(3))
next
  case (Cons v vs)
  from Cons.hyps(2) [symmetric] obtain c1 where
    c1: "recv c = (Got v, c1)" "buf c1 = vs" "closed c1 = closed c"
    using recv_got by blast
  from Cons.hyps(1) [of c1] c1(2) obtain c2 where
    "drain (length vs) c1 = (vs, c2)" "buf c2 = []" "closed c2 = closed c1" by auto
  with c1 Cons.hyps(2) [symmetric] show ?case by simp
qed

end

interpretation bc: bounded_channel try_send recv_chan ch_buf ch_cap ch_closed
  by unfold_locales (auto simp: try_send_def recv_chan_def split: if_splits list.splits)

lemma make_chan_simps [simp]:
  "ch_cap (make_chan n) = n" "ch_buf (make_chan n) = []" "\<not> ch_closed (make_chan n)"
  by (simp_all add: make_chan_def)

section \<open>Transition systems\<close>

text \<open>
  States reachable from an initial state, runs of a partial step function (a run that meets a
  panic is \<open>None\<close>), and the two arguments the components share: an invariant that every step
  keeps holds in every reachable state, and a step function that neither panics nor leaves its
  invariant runs to completion.
\<close>

inductive reach :: "('s \<Rightarrow> bool) \<Rightarrow> ('s \<Rightarrow> 's \<Rightarrow> bool) \<Rightarrow> 's \<Rightarrow> bool" for I R where
  reach_init: "I s \<Longrightarrow> reach I R s"
| reach_step: "reach I R s \<Longrightarrow> R s s' \<Longrightarrow> reach I R s'"

locale invariant_system =
  fixes init :: "'s \<Rightarrow> bool"
    and step :: "'s \<Rightarrow> 's \<Rightarrow> bool"
    and inv :: "'s \<Rightarrow> bool"
  assumes inv_init: "init s \<Longrightarrow> inv s"
    and inv_step: "inv s \<Longrightarrow> step s s' \<Longrightarrow> inv s'"
begin

lemma reach_inv: "reach init step s \<Longrightarrow> inv s"
  by (induction rule: reach.induct) (auto intro: inv_init inv_step)

end

fun run :: "('s \<Rightarrow> 'o \<Rightarrow> 's option) \<Rightarrow> 's \<Rightarrow> 'o list \<Rightarrow> 's option" where
  "run f s [] = Some s"
| "run f s (x # xs) = (case f s x of None \<Rightarrow> None | Some s' \<Rightarrow> run f s' xs)"

lemma run_append: "run f s (xs @ ys) = (case run f s xs of None \<Rightarrow> None | Some s' \<Rightarrow> run f s' ys)"
  by (induction xs arbitrary: s) (auto split: option.splits)

lemma run_snoc: "run f s (xs @ [x]) = (case run f s xs of None \<Rightarrow> None | Some s' \<Rightarrow> f s' x)"
  by (auto simp: run_append split: option.splits)

locale total_machine =
  fixes exec :: "'s \<Rightarrow> 'o \<Rightarrow> 's option"
    and ok :: "'o \<Rightarrow> bool"
    and inv :: "nat \<Rightarrow> 's \<Rightarrow> bool"
  assumes exec_total: "inv (Suc n) s \<Longrightarrow> ok x \<Longrightarrow> \<exists>s'. exec s x = Some s' \<and> inv n s'"
begin

lemma run_total: "inv (n + length xs) s \<Longrightarrow> (\<forall>x \<in> set xs. ok x) \<Longrightarrow> \<exists>s'. run exec s xs = Some s' \<and> inv n s'"
proof (induction xs arbitrary: s)
  case Nil
  then show ?case by simp
next
  case (Cons x xs)
  then obtain s1 where "exec s x = Some s1" "inv (n + length xs) s1"
    using exec_total by fastforce
  with Cons.IH [of s1] Cons.prems(2) show ?case by simp
qed

end

subsection \<open>Replaying emitted events\<close>

text \<open>
  A component that emits an event stream promises that a listener who starts from a view of the
  state and applies the events it is sent ends with the view of the new state. A step for which
  the promise is not made is one that is not \<open>announced\<close>.
\<close>

fun emitted :: "('s \<Rightarrow> 'o \<Rightarrow> 's option) \<Rightarrow> ('s \<Rightarrow> 'o \<Rightarrow> 'e list) \<Rightarrow> 's \<Rightarrow> 'o list \<Rightarrow> 'e list" where
  "emitted f em s [] = []"
| "emitted f em s (x # xs) =
     em s x @ (case f s x of None \<Rightarrow> [] | Some s' \<Rightarrow> emitted f em s' xs)"

fun all_steps :: "('s \<Rightarrow> 'o \<Rightarrow> 's option) \<Rightarrow> ('s \<Rightarrow> 'o \<Rightarrow> bool) \<Rightarrow> 's \<Rightarrow> 'o list \<Rightarrow> bool" where
  "all_steps f P s [] \<longleftrightarrow> True"
| "all_steps f P s (x # xs) \<longleftrightarrow>
     P s x \<and> (case f s x of None \<Rightarrow> True | Some s' \<Rightarrow> all_steps f P s' xs)"

locale event_source = total_machine exec ok inv
  for exec :: "'s \<Rightarrow> 'o \<Rightarrow> 's option" and ok :: "'o \<Rightarrow> bool" and inv :: "nat \<Rightarrow> 's \<Rightarrow> bool" +
  fixes emits :: "'s \<Rightarrow> 'o \<Rightarrow> 'e list"
    and view :: "'s \<Rightarrow> 'v"
    and apply_ev :: "'e \<Rightarrow> 'v \<Rightarrow> 'v"
    and announced :: "'s \<Rightarrow> 'o \<Rightarrow> bool"
  assumes view_step: "inv (Suc n) s \<Longrightarrow> announced s x \<Longrightarrow> exec s x = Some s' \<Longrightarrow>
        view s' = fold apply_ev (emits s x) (view s)"
begin

lemma replay_run:
  "inv (n + length xs) s \<Longrightarrow> (\<forall>x \<in> set xs. ok x) \<Longrightarrow> all_steps exec announced s xs \<Longrightarrow> run exec s xs = Some s' \<Longrightarrow>
     view s' = fold apply_ev (emitted exec emits s xs) (view s)"
proof (induction xs arbitrary: s)
  case (Cons x xs)
  then obtain s1 where s1: "exec s x = Some s1" "run exec s1 xs = Some s'"
    by (auto split: option.splits)
  have "inv (n + length xs) s1"
    using exec_total [of "n + length xs" s x] Cons.prems(1,2) s1(1) by simp
  moreover have "view s1 = fold apply_ev (emits s x) (view s)"
    using Cons.prems(1,3) s1(1) by (auto intro: view_step)
  ultimately show ?case using Cons.IH [of s1] Cons.prems(2,3) s1 by simp
qed simp

end

end
