(* ===== verification/Affiliate.thy ===== *)
theory Affiliate
  imports Prelude
begin

text \<open>
  The affiliates of a cluster (\<^verbatim>\<open>internal/state/affiliate.go\<close>) and the limits of the service
  (\<^verbatim>\<open>internal/state/limits.go\<close>): the records, the copies handed to clients (\<open>ToInfo\<close>) and
  \<open>MergeEndpoints\<close>, the loop that merges announced endpoints into an affiliate. The loop is
  shown equal to the closed form \<open>merged_endpoints\<close>, with the exact condition for its error.

  Byte slices are values here. The code clones every slice it hands out or stores
  (\<^verbatim>\<open>cloneBytes\<close>) except the data of an update request, which it keeps without copying.
\<close>

section \<open>Limits\<close>

definition TTLMax :: duration where
  "TTLMax = 30 * 60 * 1000000000"

definition ClusterTTL :: duration where
  "ClusterTTL = TTLMax"

definition ClusterIDMax :: nat where
  "ClusterIDMax = 256"

definition AffiliateIDMax :: nat where
  "AffiliateIDMax = 256"

definition AffiliateDataMax :: nat where
  "AffiliateDataMax = 2048"

definition AffiliateEndpointMax :: nat where
  "AffiliateEndpointMax = 32"

definition AffiliatesMax :: nat where
  "AffiliatesMax = 1024"

definition AffiliateEndpointsMax :: nat where
  "AffiliateEndpointsMax = 64"

lemma sint_TTLMax [simp]: "sint TTLMax = 1800000000000"
  by (simp add: TTLMax_def)

lemma sint_ClusterTTL [simp]: "sint ClusterTTL = 1800000000000"
  by (simp add: ClusterTTL_def)

section \<open>Data\<close>

datatype state_error = ErrTooManyAffiliates | ErrTooManyEndpoints

record AffiliateUpdateRequest =
  req_ID :: string
  req_Data :: bytes
  req_Endpoints :: "bytes list"
  req_TTL :: duration

record Endpoint =
  ep_expiry :: time
  ep_data :: bytes

record Affiliate =
  aff_id :: string
  aff_expiry :: time
  aff_data :: bytes
  aff_endpoints :: "Endpoint list"

record AffiliateInfo =
  info_ID :: string
  info_Data :: bytes
  info_Endpoints :: "bytes list"

text \<open>The zero value that \<^verbatim>\<open>&Affiliate{id: id}\<close> allocates.\<close>

definition new_affiliate :: "string \<Rightarrow> Affiliate" where
  "new_affiliate i = \<lparr>aff_id = i, aff_expiry = zero_time, aff_data = [], aff_endpoints = []\<rparr>"

section \<open>Operations\<close>

definition cloneBytes :: "bytes \<Rightarrow> bytes" where
  "cloneBytes b = [] @ b"

fun Endpoints_ToInfo :: "Endpoint list \<Rightarrow> bytes list" where
  "Endpoints_ToInfo [] = []"
| "Endpoints_ToInfo (e # es) = cloneBytes (ep_data e) # Endpoints_ToInfo es"

definition ToInfo :: "Affiliate \<Rightarrow> AffiliateInfo" where
  "ToInfo a = \<lparr>info_ID = aff_id a, info_Data = cloneBytes (aff_data a),
     info_Endpoints = Endpoints_ToInfo (aff_endpoints a)\<rparr>"

fun find_from :: "nat \<Rightarrow> Endpoint list \<Rightarrow> bytes \<Rightarrow> int" where
  "find_from i [] d = -1"
| "find_from i (e # es) d = (if ep_data e = d then int i else find_from (Suc i) es d)"

definition findEndpointIndex :: "Affiliate \<Rightarrow> bytes \<Rightarrow> int" where
  "findEndpointIndex a d = find_from 0 (aff_endpoints a) d"

definition extend_endpoint :: "Affiliate \<Rightarrow> nat \<Rightarrow> time \<Rightarrow> Affiliate" where
  "extend_endpoint a i t =
     (if ep_expiry (aff_endpoints a ! i) < t
      then a\<lparr>aff_endpoints := (aff_endpoints a)[i := (aff_endpoints a ! i)\<lparr>ep_expiry := t\<rparr>]\<rparr>
      else a)"

definition append_endpoint :: "Affiliate \<Rightarrow> bytes \<Rightarrow> time \<Rightarrow> Affiliate" where
  "append_endpoint a d t =
     a\<lparr>aff_endpoints := aff_endpoints a @ [\<lparr>ep_expiry = t, ep_data = cloneBytes d\<rparr>]\<rparr>"

text \<open>
  The loop of \<^verbatim>\<open>MergeEndpoints\<close>. The affiliate is returned on every path, because the code
  mutates it in place and does not undo the endpoints it has already merged when it fails.
\<close>

fun merge_loop :: "Affiliate \<Rightarrow> bytes list \<Rightarrow> time \<Rightarrow> bool \<Rightarrow> Affiliate \<times> (state_error + bool)" where
  "merge_loop a [] t ch = (a, Inr ch)"
| "merge_loop a (ep # eps) t ch =
     (let idx = findEndpointIndex a ep in
      if 0 \<le> idx then merge_loop (extend_endpoint a (nat idx) t) eps t ch
      else if AffiliateEndpointsMax \<le> length (aff_endpoints a) then (a, Inl ErrTooManyEndpoints)
      else merge_loop (append_endpoint a ep t) eps t True)"

definition MergeEndpoints :: "Affiliate \<Rightarrow> bytes list \<Rightarrow> time \<Rightarrow> Affiliate \<times> (state_error + bool)" where
  "MergeEndpoints a eps t =
     (case merge_loop a eps t False of
        (a', Inl e) \<Rightarrow> (a', Inl e)
      | (a', Inr ch) \<Rightarrow> (if aff_expiry a' < t then a'\<lparr>aff_expiry := t\<rparr> else a', Inr ch))"

section \<open>Invariant\<close>

definition aff_inv :: "Affiliate \<Rightarrow> bool" where
  "aff_inv a \<longleftrightarrow> distinct (map ep_data (aff_endpoints a)) \<and>
     length (aff_endpoints a) \<le> AffiliateEndpointsMax"

lemma cloneBytes_id [simp]: "cloneBytes b = b"
  by (simp add: cloneBytes_def)

lemma Endpoints_ToInfo_map [simp]: "Endpoints_ToInfo es = map ep_data es"
  by (induction es) auto

lemma aff_inv_new [simp, intro]: "aff_inv (new_affiliate i)"
  by (simp add: aff_inv_def new_affiliate_def)

section \<open>The merge loop and its closed form\<close>

text \<open>The announced endpoints that are not among the known ones, first occurrences in order.\<close>

fun fresh :: "bytes set \<Rightarrow> bytes list \<Rightarrow> bytes list" where
  "fresh S [] = []"
| "fresh S (d # ds) = (if d \<in> S then fresh S ds else d # fresh (insert d S) ds)"

definition prolong :: "bytes set \<Rightarrow> time \<Rightarrow> Endpoint \<Rightarrow> Endpoint" where
  "prolong S t e = (if ep_data e \<in> S then e\<lparr>ep_expiry := max (ep_expiry e) t\<rparr> else e)"

definition merged_endpoints :: "Endpoint list \<Rightarrow> bytes list \<Rightarrow> time \<Rightarrow> Endpoint list" where
  "merged_endpoints es ds t =
     map (prolong (set ds) t) es @
     map (\<lambda>d. \<lparr>ep_expiry = t, ep_data = d\<rparr>) (fresh (ep_data ` set es) ds)"

lemma ep_data_prolong [simp]: "ep_data (prolong S t e) = ep_data e"
  by (simp add: prolong_def)

lemma prolong_empty [simp]: "prolong {} t = (\<lambda>e. e)"
  by (rule ext) (simp add: prolong_def)

lemma prolong_prolong: "prolong S t (prolong {d} t e) = prolong (insert d S) t e"
  by (auto simp: prolong_def)

lemma set_fresh: "set (fresh S ds) = set ds - S"
  by (induction S ds rule: fresh.induct) auto

lemma distinct_fresh: "distinct (fresh S ds)"
  by (induction S ds rule: fresh.induct) (auto simp: set_fresh)

lemma fresh_Nil_iff: "fresh S ds = [] \<longleftrightarrow> set ds \<subseteq> S"
  by (metis Diff_eq_empty_iff set_fresh set_empty)

lemma length_fresh: "length (fresh S ds) = card (set ds - S)"
  by (metis distinct_card distinct_fresh set_fresh)

lemma map_data_merged:
  "map ep_data (merged_endpoints es ds t) = map ep_data es @ fresh (ep_data ` set es) ds"
  by (simp add: merged_endpoints_def comp_def)

lemma set_data_merged: "ep_data ` set (merged_endpoints es ds t) = ep_data ` set es \<union> set ds"
proof -
  have "set (map ep_data (merged_endpoints es ds t)) = ep_data ` set es \<union> set ds"
    by (auto simp only: map_data_merged set_append set_fresh set_map)
  then show ?thesis by simp
qed

lemma length_merged:
  "length (merged_endpoints es ds t) = length es + card (set ds - ep_data ` set es)"
  by (simp add: merged_endpoints_def length_fresh)

lemma distinct_merged:
  "distinct (map ep_data es) \<Longrightarrow> distinct (map ep_data (merged_endpoints es ds t))"
  by (auto simp: map_data_merged distinct_fresh set_fresh)

lemma merged_Nil [simp]: "merged_endpoints es [] t = es"
  by (simp add: merged_endpoints_def)

lemma fresh_single: "fresh S [d] = (if d \<in> S then [] else [d])"
  by simp

lemma merged_known:
  "d \<in> ep_data ` set es \<Longrightarrow> merged_endpoints es [d] t = map (prolong {d} t) es"
  by (simp add: merged_endpoints_def)

lemma merged_unknown:
  assumes "d \<notin> ep_data ` set es"
  shows "merged_endpoints es [d] t = es @ [\<lparr>ep_expiry = t, ep_data = d\<rparr>]"
proof -
  have "map (prolong {d} t) es = es"
    using assms by (intro map_idI) (auto simp: prolong_def)
  with assms show ?thesis by (simp add: merged_endpoints_def)
qed

text \<open>Merging a list is merging its first element and then the rest.\<close>

lemma merged_Cons: "merged_endpoints es (d # ds) t = merged_endpoints (merged_endpoints es [d] t) ds t"
proof (cases "d \<in> ep_data ` set es")
  case True
  then have "insert d (ep_data ` set es) = ep_data ` set es" by auto
  with True show ?thesis
    by (simp add: merged_known) (simp add: merged_endpoints_def image_image prolong_prolong comp_def)
next
  case False
  have last: "prolong (set ds) t \<lparr>ep_expiry = t, ep_data = d\<rparr> = \<lparr>ep_expiry = t, ep_data = d\<rparr>"
    by (simp add: prolong_def)
  have "map (prolong (insert d (set ds)) t) es = map (prolong (set ds) t) es"
    using False by (auto simp: prolong_def)
  with False last show ?thesis
    by (simp add: merged_unknown) (simp add: merged_endpoints_def)
qed

lemma merged_append:
  "merged_endpoints es (xs @ ys) t = merged_endpoints (merged_endpoints es xs t) ys t"
proof (induction xs arbitrary: es)
  case (Cons x xs)
  then show ?case by (metis append_Cons merged_Cons)
qed simp

subsection \<open>One step of the loop\<close>

lemma find_from_unknown: "d \<notin> ep_data ` set es \<Longrightarrow> find_from i es d = -1"
  by (induction es arbitrary: i) auto

lemma find_from_known:
  "d \<in> ep_data ` set es \<Longrightarrow>
     \<exists>j < length es. find_from i es d = int (i + j) \<and> ep_data (es ! j) = d"
proof (induction es arbitrary: i)
  case (Cons e es)
  show ?case
  proof (cases "ep_data e = d")
    case False
    with Cons.prems have "d \<in> ep_data ` set es" by auto
    from Cons.IH [OF this, of "Suc i"] obtain j where
      "j < length es" "find_from (Suc i) es d = int (Suc i + j)" "ep_data (es ! j) = d" by blast
    with False show ?thesis by (intro exI [of _ "Suc j"]) auto
  qed auto
qed simp

lemma update_known:
  assumes "distinct (map ep_data es)" and "j < length es" and "ep_data (es ! j) = d"
  shows "es[j := (es ! j)\<lparr>ep_expiry := max (ep_expiry (es ! j)) t\<rparr>] = map (prolong {d} t) es"
proof (rule nth_equalityI)
  fix i assume i: "i < length (es[j := (es ! j)\<lparr>ep_expiry := max (ep_expiry (es ! j)) t\<rparr>])"
  have "i \<noteq> j \<Longrightarrow> ep_data (es ! i) \<noteq> d"
    using assms i nth_eq_iff_index_eq [OF assms(1), of i j] by auto
  with assms i show "es[j := (es ! j)\<lparr>ep_expiry := max (ep_expiry (es ! j)) t\<rparr>] ! i =
      map (prolong {d} t) es ! i"
    by (cases "i = j") (auto simp: prolong_def)
qed simp

lemma extend_known:
  assumes "distinct (map ep_data (aff_endpoints a))"
    and "j < length (aff_endpoints a)" and "ep_data (aff_endpoints a ! j) = d"
  shows "extend_endpoint a j t = a\<lparr>aff_endpoints := merged_endpoints (aff_endpoints a) [d] t\<rparr>"
proof -
  have known: "d \<in> ep_data ` set (aff_endpoints a)" using assms(2,3) by auto
  have same: "\<not> ep_expiry (aff_endpoints a ! j) < t \<Longrightarrow>
      map (prolong {d} t) (aff_endpoints a) = aff_endpoints a"
    using update_known [OF assms, of t] by (simp add: max_def)
  show ?thesis
    using update_known [OF assms, of t] same
    by (auto simp: extend_endpoint_def merged_known [OF known] max_def)
qed

text \<open>The loop body merges one endpoint, or fails with the affiliate as it stands.\<close>

lemma merge_step:
  assumes "distinct (map ep_data (aff_endpoints a))"
  shows "merge_loop a (d # ds) t ch =
    (if d \<notin> ep_data ` set (aff_endpoints a) \<and> AffiliateEndpointsMax \<le> length (aff_endpoints a)
     then (a, Inl ErrTooManyEndpoints)
     else merge_loop (a\<lparr>aff_endpoints := merged_endpoints (aff_endpoints a) [d] t\<rparr>) ds t
            (ch \<or> d \<notin> ep_data ` set (aff_endpoints a)))"
proof (cases "d \<in> ep_data ` set (aff_endpoints a)")
  case True
  then obtain j where j: "j < length (aff_endpoints a)"
    "findEndpointIndex a d = int j" "ep_data (aff_endpoints a ! j) = d"
    using find_from_known [of d "aff_endpoints a" 0] by (auto simp: findEndpointIndex_def)
  with True show ?thesis by (simp add: extend_known [OF assms])
next
  case False
  then have "findEndpointIndex a d = -1"
    by (simp add: findEndpointIndex_def find_from_unknown)
  with False show ?thesis by (simp add: append_endpoint_def merged_unknown)
qed

subsection \<open>The whole loop\<close>

lemma card_fresh_Cons:
  fixes S :: "bytes set"
  shows "card (set (d # ds) - S) = (if d \<in> S then card (set ds - S) else Suc (card (set ds - insert d S)))"
  using length_fresh [of S "d # ds"] length_fresh [of S ds] length_fresh [of "insert d S" ds]
  by (simp split: if_splits)

lemma length_merged_single:
  "length (merged_endpoints es [d] t) = (if d \<in> ep_data ` set es then length es else Suc (length es))"
  by (simp add: merged_endpoints_def)

declare merge_loop.simps(2) [simp del]

lemma merge_loop_ok:
  assumes "distinct (map ep_data (aff_endpoints a))"
    and "length (aff_endpoints a) + card (set ds - ep_data ` set (aff_endpoints a)) \<le> AffiliateEndpointsMax"
  shows "merge_loop a ds t ch =
    (a\<lparr>aff_endpoints := merged_endpoints (aff_endpoints a) ds t\<rparr>,
     Inr (ch \<or> \<not> set ds \<subseteq> ep_data ` set (aff_endpoints a)))"
  using assms
proof (induction ds arbitrary: a ch)
  case (Cons d ds)
  let ?es = "aff_endpoints a"
  let ?a = "a\<lparr>aff_endpoints := merged_endpoints ?es [d] t\<rparr>"
  have data: "ep_data ` set (aff_endpoints ?a) = insert d (ep_data ` set ?es)"
    by (simp add: set_data_merged)
  have room: "length (aff_endpoints ?a) + card (set ds - ep_data ` set (aff_endpoints ?a))
      \<le> AffiliateEndpointsMax"
    using Cons.prems(2) unfolding data
    by (simp only: card_fresh_Cons) (auto simp: length_merged_single insert_absorb split: if_splits)
  have "\<not> (d \<notin> ep_data ` set ?es \<and> AffiliateEndpointsMax \<le> length ?es)"
    using Cons.prems(2) by (auto simp only: card_fresh_Cons split: if_splits)
  moreover have "merge_loop ?a ds t (ch \<or> d \<notin> ep_data ` set ?es) =
      (a\<lparr>aff_endpoints := merged_endpoints ?es (d # ds) t\<rparr>,
       Inr ((ch \<or> d \<notin> ep_data ` set ?es) \<or> \<not> set ds \<subseteq> insert d (ep_data ` set ?es)))"
    using Cons.IH [OF _ room] Cons.prems(1) data
    by (simp add: distinct_merged merged_Cons [of ?es d ds])
  ultimately show ?case
    by (auto simp: merge_step [OF Cons.prems(1)])
qed simp

lemma merge_loop_full:
  assumes "distinct (map ep_data (aff_endpoints a))"
    and "length (aff_endpoints a) \<le> AffiliateEndpointsMax"
    and "AffiliateEndpointsMax < length (aff_endpoints a) + card (set ds - ep_data ` set (aff_endpoints a))"
  shows "\<exists>xs d ys. ds = xs @ d # ys \<and>
    length (merged_endpoints (aff_endpoints a) xs t) = AffiliateEndpointsMax \<and>
    merge_loop a ds t ch =
      (a\<lparr>aff_endpoints := merged_endpoints (aff_endpoints a) xs t\<rparr>, Inl ErrTooManyEndpoints)"
  using assms
proof (induction ds arbitrary: a ch)
  case (Cons d ds)
  let ?es = "aff_endpoints a"
  let ?a = "a\<lparr>aff_endpoints := merged_endpoints ?es [d] t\<rparr>"
  show ?case
  proof (cases "d \<notin> ep_data ` set ?es \<and> AffiliateEndpointsMax \<le> length ?es")
    case True
    with Cons.prems show ?thesis
      by (intro exI [of _ "[]"] exI [of _ d] exI [of _ ds]) (simp add: merge_step [OF Cons.prems(1)])
  next
    case False
    have data: "ep_data ` set (aff_endpoints ?a) = insert d (ep_data ` set ?es)"
      by (simp add: set_data_merged)
    have "length (aff_endpoints ?a) \<le> AffiliateEndpointsMax"
      using False Cons.prems(2) by (auto simp: length_merged_single)
    moreover have "AffiliateEndpointsMax <
        length (aff_endpoints ?a) + card (set ds - ep_data ` set (aff_endpoints ?a))"
      using Cons.prems(3) unfolding data
      by (simp only: card_fresh_Cons) (auto simp: length_merged_single insert_absorb split: if_splits)
    ultimately obtain xs e ys where "ds = xs @ e # ys"
      "length (merged_endpoints (aff_endpoints ?a) xs t) = AffiliateEndpointsMax"
      "merge_loop ?a ds t (ch \<or> d \<notin> ep_data ` set ?es) =
        (?a\<lparr>aff_endpoints := merged_endpoints (aff_endpoints ?a) xs t\<rparr>, Inl ErrTooManyEndpoints)"
      using Cons.IH [of ?a] Cons.prems(1) by (fastforce simp: distinct_merged)
    with False show ?thesis
      by (intro exI [of _ "d # xs"] exI [of _ e] exI [of _ ys])
        (auto simp: merge_step [OF Cons.prems(1)] merged_Cons [of ?es d xs])
  qed
qed simp

section \<open>What MergeEndpoints does\<close>

definition has_room :: "Affiliate \<Rightarrow> bytes list \<Rightarrow> bool" where
  "has_room a ds \<longleftrightarrow>
     length (aff_endpoints a) + card (set ds - ep_data ` set (aff_endpoints a)) \<le> AffiliateEndpointsMax"

lemma MergeEndpoints_ok:
  assumes "aff_inv a" and "has_room a ds"
  shows "MergeEndpoints a ds t =
    (a\<lparr>aff_endpoints := merged_endpoints (aff_endpoints a) ds t, aff_expiry := max (aff_expiry a) t\<rparr>,
     Inr (\<not> set ds \<subseteq> ep_data ` set (aff_endpoints a)))"
  using assms by (auto simp: MergeEndpoints_def merge_loop_ok aff_inv_def has_room_def max_def)

lemma MergeEndpoints_full:
  assumes "aff_inv a" and "\<not> has_room a ds"
  shows "\<exists>xs d ys. ds = xs @ d # ys \<and>
    length (merged_endpoints (aff_endpoints a) xs t) = AffiliateEndpointsMax \<and>
    MergeEndpoints a ds t =
      (a\<lparr>aff_endpoints := merged_endpoints (aff_endpoints a) xs t\<rparr>, Inl ErrTooManyEndpoints)"
proof -
  from assms obtain xs d ys where "ds = xs @ d # ys"
    "length (merged_endpoints (aff_endpoints a) xs t) = AffiliateEndpointsMax"
    "merge_loop a ds t False =
       (a\<lparr>aff_endpoints := merged_endpoints (aff_endpoints a) xs t\<rparr>, Inl ErrTooManyEndpoints)"
    using merge_loop_full [of a ds t False] by (auto simp: aff_inv_def has_room_def)
  then show ?thesis
    by (intro exI [of _ xs] exI [of _ d] exI [of _ ys]) (simp add: MergeEndpoints_def)
qed

text \<open>The two outcomes as one case rule, the way the cluster uses the operation.\<close>

lemma MergeEndpoints_cases [consumes 1, case_names ok full]:
  assumes "aff_inv a"
  obtains (ok) "has_room a ds"
      "MergeEndpoints a ds t = (a\<lparr>aff_endpoints := merged_endpoints (aff_endpoints a) ds t,
         aff_expiry := max (aff_expiry a) t\<rparr>, Inr (\<not> set ds \<subseteq> ep_data ` set (aff_endpoints a)))"
    | (full) xs d ys where "\<not> has_room a ds" "ds = xs @ d # ys"
      "length (merged_endpoints (aff_endpoints a) xs t) = AffiliateEndpointsMax"
      "MergeEndpoints a ds t = (a\<lparr>aff_endpoints := merged_endpoints (aff_endpoints a) xs t\<rparr>,
         Inl ErrTooManyEndpoints)"
  using MergeEndpoints_ok [OF assms] MergeEndpoints_full [OF assms] by metis

lemma aff_inv_merged [inv_intros]:
  "aff_inv a \<Longrightarrow> length (merged_endpoints (aff_endpoints a) ds t) \<le> AffiliateEndpointsMax \<Longrightarrow>
     aff_inv (a\<lparr>aff_endpoints := merged_endpoints (aff_endpoints a) ds t\<rparr>)"
  by (simp add: aff_inv_def distinct_merged)

lemma aff_inv_more [simp]:
  "aff_inv (a\<lparr>aff_expiry := x\<rparr>) = aff_inv a" "aff_inv (a\<lparr>aff_data := d\<rparr>) = aff_inv a"
  by (simp_all add: aff_inv_def)

lemma aff_inv_Merge: "aff_inv a \<Longrightarrow> aff_inv (fst (MergeEndpoints a ds t))"
proof -
  assume inv: "aff_inv a"
  then show ?thesis
  proof (cases rule: MergeEndpoints_cases [where ds = ds and t = t])
    case ok
    then have "length (merged_endpoints (aff_endpoints a) ds t) \<le> AffiliateEndpointsMax"
      by (simp add: has_room_def length_merged)
    with inv have "aff_inv (a\<lparr>aff_endpoints := merged_endpoints (aff_endpoints a) ds t\<rparr>)"
      by (rule aff_inv_merged)
    with ok show ?thesis by (simp add: aff_inv_def)
  next
    case (full xs d ys)
    with inv show ?thesis by (simp add: aff_inv_merged)
  qed
qed

lemma Merge_frame:
  assumes "aff_inv a"
  shows "aff_id (fst (MergeEndpoints a ds t)) = aff_id a"
    and "aff_data (fst (MergeEndpoints a ds t)) = aff_data a"
  using assms by (cases rule: MergeEndpoints_cases [where ds = ds and t = t]; simp)+

lemma merged_idem:
  assumes "distinct (map ep_data es)"
  shows "merged_endpoints (merged_endpoints es ds t) ds t = merged_endpoints es ds t"
proof -
  let ?m = "merged_endpoints es ds t"
  have "fresh (ep_data ` set ?m) ds = []"
    by (simp add: fresh_Nil_iff set_data_merged)
  moreover have "map (prolong (set ds) t) ?m = ?m"
    by (simp add: merged_endpoints_def comp_def) (auto simp: prolong_def)
  ultimately show ?thesis by (simp add: merged_endpoints_def [of ?m])
qed

text \<open>
  C8: \<open>MergeEndpoints\<close> computes the closed form. It succeeds exactly when the known endpoints
  and the announced unknown ones together fit the limit of 64; then every announced known
  endpoint has its expiry raised to the new one if that is later, the unknown ones are appended
  once each in the order of their first announcement with the new expiry, the affiliate's own
  expiry is raised likewise, and the result says whether the endpoint set grew.
\<close>

theorem MergeEndpoints_closed_form:
  assumes "aff_inv a"
  shows "length (aff_endpoints a) + card (set eps - ep_data ` set (aff_endpoints a)) \<le> AffiliateEndpointsMax
    \<longleftrightarrow> MergeEndpoints a eps t =
      (a\<lparr>aff_endpoints :=
           map (\<lambda>e. if ep_data e \<in> set eps then e\<lparr>ep_expiry := max (ep_expiry e) t\<rparr> else e) (aff_endpoints a)
           @ map (\<lambda>d. \<lparr>ep_expiry = t, ep_data = d\<rparr>) (fresh (ep_data ` set (aff_endpoints a)) eps),
         aff_expiry := max (aff_expiry a) t\<rparr>,
       Inr (\<not> set eps \<subseteq> ep_data ` set (aff_endpoints a)))"
proof -
  have form: "merged_endpoints (aff_endpoints a) eps t =
      map (\<lambda>e. if ep_data e \<in> set eps then e\<lparr>ep_expiry := max (ep_expiry e) t\<rparr> else e) (aff_endpoints a)
      @ map (\<lambda>d. \<lparr>ep_expiry = t, ep_data = d\<rparr>) (fresh (ep_data ` set (aff_endpoints a)) eps)"
    by (simp add: merged_endpoints_def prolong_def [abs_def])
  from assms show ?thesis
    by (cases rule: MergeEndpoints_cases [where ds = eps and t = t])
      (simp_all add: form has_room_def)
qed

theorem MergeEndpoints_closed_form_witness:
  "MergeEndpoints \<lparr>aff_id = ''n'', aff_expiry = 5, aff_data = [],
       aff_endpoints = [\<lparr>ep_expiry = 5, ep_data = [1]\<rparr>]\<rparr> [[2], [1], [2]] 9 =
     (\<lparr>aff_id = ''n'', aff_expiry = 9, aff_data = [],
       aff_endpoints = [\<lparr>ep_expiry = 9, ep_data = [1]\<rparr>, \<lparr>ep_expiry = 9, ep_data = [2]\<rparr>]\<rparr>, Inr True)"
proof -
  let ?a = "\<lparr>aff_id = ''n'', aff_expiry = 5, aff_data = [],
       aff_endpoints = [\<lparr>ep_expiry = 5, ep_data = [1]\<rparr>]\<rparr>"
  have "aff_inv ?a" by (simp add: aff_inv_def AffiliateEndpointsMax_def)
  from MergeEndpoints_closed_form [OF this, of "[[2], [1], [2]]" 9] show ?thesis
    by (simp add: AffiliateEndpointsMax_def insert_Diff_if)
qed

text \<open>
  C9: when the endpoints do not fit, \<open>MergeEndpoints\<close> fails with \<open>ErrTooManyEndpoints\<close> and the
  affiliate is left half merged: a prefix of the announced endpoints has been merged, exactly
  filling the limit of 64, and neither those endpoints nor the prolonged expiries are undone; the
  affiliate's own expiry is not prolonged.
\<close>

theorem MergeEndpoints_error_state:
  assumes "aff_inv a"
    and "AffiliateEndpointsMax < length (aff_endpoints a) + card (set eps - ep_data ` set (aff_endpoints a))"
  shows "\<exists>done d rest. eps = done @ d # rest \<and>
    length (merged_endpoints (aff_endpoints a) done t) = AffiliateEndpointsMax \<and>
    MergeEndpoints a eps t =
      (a\<lparr>aff_endpoints := merged_endpoints (aff_endpoints a) done t\<rparr>, Inl ErrTooManyEndpoints)"
  using assms by (intro MergeEndpoints_full) (simp_all add: has_room_def)


text \<open>An affiliate whose endpoint list is full, for the witnesses.\<close>

definition full_affiliate :: "string \<Rightarrow> time \<Rightarrow> Affiliate" where
  "full_affiliate i t = (new_affiliate i)\<lparr>aff_expiry := t,
     aff_endpoints := map (\<lambda>n. \<lparr>ep_expiry = t, ep_data = replicate n 0\<rparr>) [0..<64]\<rparr>"

lemma full_affiliate_simps [simp]:
  "aff_id (full_affiliate i t) = i" "aff_expiry (full_affiliate i t) = t"
  "length (aff_endpoints (full_affiliate i t)) = 64"
  by (simp_all add: full_affiliate_def new_affiliate_def)

lemma full_affiliate_inv [simp]: "aff_inv (full_affiliate i t)"
  by (simp add: aff_inv_def full_affiliate_def comp_def distinct_map inj_on_def AffiliateEndpointsMax_def)

lemma full_affiliate_data: "[1] \<notin> ep_data ` set (aff_endpoints (full_affiliate i t))"
proof
  assume "[1] \<in> ep_data ` set (aff_endpoints (full_affiliate i t))"
  then obtain n where "[1 :: byte] = replicate n 0" by (auto simp: full_affiliate_def)
  then show False by (cases n) auto
qed

lemma full_affiliate_no_room: "\<not> has_room (full_affiliate i t) [[1]]"
  using full_affiliate_data [of i t] by (simp add: has_room_def AffiliateEndpointsMax_def)

theorem MergeEndpoints_error_state_witness:
  "\<exists>done d rest. [[1]] = done @ d # rest \<and>
    length (merged_endpoints (aff_endpoints (full_affiliate ''n'' 5)) done 9) = AffiliateEndpointsMax \<and>
    MergeEndpoints (full_affiliate ''n'' 5) [[1]] 9 =
      ((full_affiliate ''n'' 5)\<lparr>aff_endpoints :=
          merged_endpoints (aff_endpoints (full_affiliate ''n'' 5)) done 9\<rparr>, Inl ErrTooManyEndpoints)"
proof (rule MergeEndpoints_error_state)
  show "aff_inv (full_affiliate ''n'' 5)" by simp
  show "AffiliateEndpointsMax < length (aff_endpoints (full_affiliate ''n'' 5)) +
      card (set [[1]] - ep_data ` set (aff_endpoints (full_affiliate ''n'' 5)))"
    using full_affiliate_no_room [of "''n''" 5] by (simp add: has_room_def)
qed

text \<open>
  The endpoints an affiliate holds are distinct and at most 64, and \<open>MergeEndpoints\<close> keeps
  it so on every path, the error path included; it never touches the affiliate's identity or data.
\<close>

lemma MergeEndpoints_preserves:
  assumes "aff_inv a" and "MergeEndpoints a eps t = (a', r)"
  shows "aff_inv a' \<and> aff_id a' = aff_id a \<and> aff_data a' = aff_data a \<and>
    ep_data ` set (aff_endpoints a) \<subseteq> ep_data ` set (aff_endpoints a')"
proof -
  have "ep_data ` set (aff_endpoints a) \<subseteq> ep_data ` set (aff_endpoints (fst (MergeEndpoints a eps t)))"
    using assms(1)
    by (cases rule: MergeEndpoints_cases [where ds = eps and t = t]) (simp_all add: set_data_merged)
  then show ?thesis
    using aff_inv_Merge [OF assms(1), of eps t] Merge_frame [OF assms(1), of eps t] assms(2) by simp
qed

text \<open>
  Announcing the same endpoints again with the same expiry changes nothing and reports no
  change, so a client that repeats its announcement causes no notification.
\<close>

lemma MergeEndpoints_idempotent:
  assumes "aff_inv a" and "MergeEndpoints a eps t = (a', Inr ch)"
  shows "MergeEndpoints a' eps t = (a', Inr False)"
  using assms(1)
proof (cases rule: MergeEndpoints_cases [where ds = eps and t = t])
  case ok
  with assms(2) have a': "a' = a\<lparr>aff_endpoints := merged_endpoints (aff_endpoints a) eps t,
      aff_expiry := max (aff_expiry a) t\<rparr>" by simp
  have inv: "aff_inv a'" using aff_inv_Merge [OF assms(1), of eps t] assms(2) by simp
  have known: "set eps \<subseteq> ep_data ` set (aff_endpoints a')"
    by (simp add: a' set_data_merged)
  then have "has_room a' eps"
    using inv by (simp add: has_room_def aff_inv_def Diff_eq_empty_iff [THEN iffD2])
  with MergeEndpoints_ok [OF inv this, of t] known assms(1) show ?thesis
    by (simp add: a' merged_idem aff_inv_def)
qed (use assms(2) in simp)

end
