(* ===== verification/Cluster.thy ===== *)
theory Cluster
  imports Affiliate
begin

text \<open>
  One cluster of the discovery state (\<^verbatim>\<open>internal/state/cluster.go\<close> and
  \<^verbatim>\<open>internal/state/cluster_subscribe.go\<close>): its affiliates, its subscriptions and the operations
  on them, each as it runs between acquiring and releasing its locks. Interleavings inside an
  operation are the subject of the theory \<open>Interleaving\<close>.

  A \<^verbatim>\<open>*Subscription\<close> is an index into \<open>subs\<close>, the store of all subscriptions the cluster has
  handed out: a watcher keeps its pointer after the subscription has left the map
  \<open>subscribers\<close>. An operation that can panic (a send on or a close of a closed channel) returns
  an option. The clock readings of an operation are arguments: \<open>now\<close> for the reading a function
  takes itself, \<open>t\<close> for the reading with which a closing subscription prolongs the cluster (the
  last reading wins, so one instant stands for all of them). Range loops take their order:
  \<open>so\<close> over subscription numbers, \<open>ao\<close> over affiliate names.
\<close>

section \<open>Data\<close>

datatype AffiliateEventType = AffiliateEventUpsert | AffiliateEventDelete

record AffiliateEvent =
  ev_Type :: AffiliateEventType
  ev_Info :: AffiliateInfo

datatype sub_error = LostUpdate

definition affiliateSubBuffer :: nat where
  "affiliateSubBuffer = 64"

record Subscription =
  sub_id :: uint64
  sub_ch :: "AffiliateEvent chan"
  sub_errCh :: "sub_error chan"
  sub_closed :: bool
  sub_once :: bool
  sub_closeFn :: "uint64 option"

record Cluster =
  cl_id :: string
  cl_expiry :: "64 word"
  affiliates :: "(string \<times> Affiliate) list"
  nextSubID :: uint64
  subscribers :: "(uint64 \<times> nat) list"
  subs :: "Subscription list"

section \<open>Lifetime of a cluster\<close>

definition NewCluster :: "time \<Rightarrow> string \<Rightarrow> Cluster" where
  "NewCluster now i =
     \<lparr>cl_id = i, cl_expiry = UnixNano (time_Add now ClusterTTL), affiliates = [],
      nextSubID = 0, subscribers = [], subs = []\<rparr>"

definition prolongExpiry :: "time \<Rightarrow> Cluster \<Rightarrow> Cluster" where
  "prolongExpiry now c = c\<lparr>cl_expiry := UnixNano (time_Add now ClusterTTL)\<rparr>"

definition IsExpired :: "time \<Rightarrow> Cluster \<Rightarrow> bool" where
  "IsExpired now c \<longleftrightarrow> sint (UnixNano now) > sint (cl_expiry c)"

definition IsEmpty :: "Cluster \<Rightarrow> bool" where
  "IsEmpty c =
     (let noAffiliates = length (affiliates c) = 0; noSubscribers = length (subscribers c) = 0
      in noAffiliates \<and> noSubscribers)"

section \<open>Subscriptions\<close>

abbreviation upd_sub :: "nat \<Rightarrow> Subscription \<Rightarrow> Cluster \<Rightarrow> Cluster" where
  "upd_sub p s c \<equiv> c\<lparr>subs := (subs c)[p := s]\<rparr>"

text \<open>The closure \<^verbatim>\<open>sub.closeFn\<close> that \<open>SubscribeWithSnapshot\<close> installs.\<close>

definition closeFn :: "time \<Rightarrow> uint64 \<Rightarrow> nat \<Rightarrow> Cluster \<Rightarrow> Cluster option" where
  "closeFn t subID p c =
     (case map_of (subscribers c) subID of
        None \<Rightarrow> Some c
      | Some _ \<Rightarrow>
          (let c1 = c\<lparr>subscribers := AList.delete subID (subscribers c)\<rparr>; s = subs c1 ! p in
           case close_chan (sub_ch s) of None \<Rightarrow> None
           | Some ch \<Rightarrow>
               (case close_chan (sub_errCh s) of None \<Rightarrow> None
                | Some ech \<Rightarrow>
                    Some (prolongExpiry t (upd_sub p (s\<lparr>sub_ch := ch, sub_errCh := ech\<rparr>) c1)))))"

definition Close :: "time \<Rightarrow> nat \<Rightarrow> Cluster \<Rightarrow> Cluster option" where
  "Close t p c =
     (let s = subs c ! p in
      if sub_once s then Some c
      else (let c1 = upd_sub p (s\<lparr>sub_once := True, sub_closed := True\<rparr>) c in
            case sub_closeFn s of None \<Rightarrow> Some c1 | Some subID \<Rightarrow> closeFn t subID p c1))"

definition Subscription_notify :: "time \<Rightarrow> AffiliateEvent \<Rightarrow> nat \<Rightarrow> Cluster \<Rightarrow> Cluster option" where
  "Subscription_notify t ev p c =
     (let s = subs c ! p in
      if sub_closed s then Some c
      else (case try_send (sub_ch s) ev of
              None \<Rightarrow> None
            | Some (ch, True) \<Rightarrow> Some (upd_sub p (s\<lparr>sub_ch := ch\<rparr>) c)
            | Some (_, False) \<Rightarrow>
                (case try_send (sub_errCh s) LostUpdate of
                   None \<Rightarrow> None
                 | Some (ech, _) \<Rightarrow> Close t p (upd_sub p (s\<lparr>sub_errCh := ech\<rparr>) c))))"

fun notify_loop :: "time \<Rightarrow> AffiliateEvent \<Rightarrow> nat list \<Rightarrow> Cluster \<Rightarrow> Cluster option" where
  "notify_loop t ev [] c = Some c"
| "notify_loop t ev (p # ps) c =
     (case Subscription_notify t ev p c of None \<Rightarrow> None | Some c' \<Rightarrow> notify_loop t ev ps c')"

definition notify :: "(uint64 list \<Rightarrow> uint64 list) \<Rightarrow> time \<Rightarrow> AffiliateEvent \<Rightarrow> Cluster \<Rightarrow> Cluster option" where
  "notify so t ev c =
     notify_loop t ev (map (\<lambda>k. the (map_of (subscribers c) k)) (so (keys (subscribers c)))) c"

section \<open>Affiliates\<close>

text \<open>
  The part of \<^verbatim>\<open>updateAffiliateLocked\<close> after the affiliate has been found or created. The
  affiliate is written back whatever the outcome, because the code works on the stored one.
\<close>

definition update_found ::
  "time \<Rightarrow> AffiliateUpdateRequest \<Rightarrow> Affiliate \<Rightarrow> Cluster \<Rightarrow> Cluster \<times> (state_error + AffiliateEvent option)" where
  "update_found expiry req a c =
     (let dataChanged = 0 < length (req_Data req);
          a1 = (if dataChanged then a\<lparr>aff_expiry := expiry, aff_data := req_Data req\<rparr> else a);
          (a2, r) = MergeEndpoints a1 (req_Endpoints req) expiry;
          c' = c\<lparr>affiliates := AList.update (req_ID req) a2 (affiliates c)\<rparr>
      in case r of
           Inl err \<Rightarrow> (c', Inl err)
         | Inr endpointsChanged \<Rightarrow>
             if \<not> dataChanged \<and> \<not> endpointsChanged then (c', Inr None)
             else (c', Inr (Some \<lparr>ev_Type = AffiliateEventUpsert, ev_Info = ToInfo a2\<rparr>)))"

definition updateAffiliateLocked ::
  "time \<Rightarrow> AffiliateUpdateRequest \<Rightarrow> Cluster \<Rightarrow> Cluster \<times> (state_error + AffiliateEvent option)" where
  "updateAffiliateLocked now req c =
     (let expiry = time_Add now (req_TTL req) in
      case map_of (affiliates c) (req_ID req) of
        Some a \<Rightarrow> update_found expiry req a c
      | None \<Rightarrow>
          if AffiliatesMax \<le> length (affiliates c) then (c, Inl ErrTooManyAffiliates)
          else update_found expiry req (new_affiliate (req_ID req)) c)"

definition UpdateAffiliate ::
  "(uint64 list \<Rightarrow> uint64 list) \<Rightarrow> time \<Rightarrow> time \<Rightarrow> AffiliateUpdateRequest \<Rightarrow> Cluster \<Rightarrow>
   (Cluster \<times> state_error option) option" where
  "UpdateAffiliate so now t req c =
     (case updateAffiliateLocked now req c of
        (c1, Inl err) \<Rightarrow> Some (c1, Some err)
      | (c1, Inr None) \<Rightarrow> Some (c1, None)
      | (c1, Inr (Some ev)) \<Rightarrow>
          (case notify so t ev c1 of None \<Rightarrow> None | Some c2 \<Rightarrow> Some (c2, None)))"

definition tombstone :: "string \<Rightarrow> AffiliateEvent" where
  "tombstone i = \<lparr>ev_Type = AffiliateEventDelete,
     ev_Info = \<lparr>info_ID = i, info_Data = [], info_Endpoints = []\<rparr>\<rparr>"

definition deleteAffiliateLocked :: "string \<Rightarrow> Cluster \<Rightarrow> Cluster \<times> AffiliateEvent option" where
  "deleteAffiliateLocked i c =
     (case map_of (affiliates c) i of
        None \<Rightarrow> (c, None)
      | Some _ \<Rightarrow> (c\<lparr>affiliates := AList.delete i (affiliates c)\<rparr>, Some (tombstone i)))"

definition DeleteAffiliate ::
  "(uint64 list \<Rightarrow> uint64 list) \<Rightarrow> time \<Rightarrow> time \<Rightarrow> string \<Rightarrow> Cluster \<Rightarrow> Cluster option" where
  "DeleteAffiliate so now t i c =
     (case deleteAffiliateLocked i c of
        (c1, None) \<Rightarrow> Some c1
      | (c1, Some ev) \<Rightarrow> notify so t ev (prolongExpiry now c1))"

definition listAffiliatesLocked :: "(string list \<Rightarrow> string list) \<Rightarrow> Cluster \<Rightarrow> AffiliateInfo list" where
  "listAffiliatesLocked ao c =
     map (\<lambda>k. ToInfo (the (map_of (affiliates c) k))) (ao (keys (affiliates c)))"

definition ListAffiliates :: "(string list \<Rightarrow> string list) \<Rightarrow> Cluster \<Rightarrow> AffiliateInfo list" where
  "ListAffiliates ao c = listAffiliatesLocked ao c"

section \<open>Pruning\<close>

fun live_endpoints :: "time \<Rightarrow> Endpoint list \<Rightarrow> Endpoint list \<times> bool" where
  "live_endpoints now [] = ([], False)"
| "live_endpoints now (e # es) =
     (case live_endpoints now es of
        (es', changed) \<Rightarrow> if now < ep_expiry e then (e # es', changed) else (es', True))"

fun prune_loop ::
  "time \<Rightarrow> string list \<Rightarrow> (string \<times> Affiliate) list \<Rightarrow> AffiliateEvent list \<Rightarrow>
   (string \<times> Affiliate) list \<times> AffiliateEvent list" where
  "prune_loop now [] m evs = (m, evs)"
| "prune_loop now (k # ks) m evs =
     (case map_of m k of
        None \<Rightarrow> prune_loop now ks m evs
      | Some a \<Rightarrow>
          if \<not> now < aff_expiry a then prune_loop now ks (AList.delete k m) (evs @ [tombstone k])
          else (case live_endpoints now (aff_endpoints a) of
                  (newEndpoints, changed) \<Rightarrow>
                    if changed
                    then (let a' = a\<lparr>aff_endpoints := newEndpoints\<rparr> in
                          prune_loop now ks (AList.update k a' m)
                            (evs @ [\<lparr>ev_Type = AffiliateEventUpsert, ev_Info = ToInfo a'\<rparr>]))
                    else prune_loop now ks m evs))"

definition pruneAffiliates ::
  "(string list \<Rightarrow> string list) \<Rightarrow> time \<Rightarrow> Cluster \<Rightarrow> Cluster \<times> AffiliateEvent list" where
  "pruneAffiliates ao now c =
     (case prune_loop now (ao (keys (affiliates c))) (affiliates c) [] of
        (m, evs) \<Rightarrow> (c\<lparr>affiliates := m\<rparr>, evs))"

fun notify_events ::
  "(uint64 list \<Rightarrow> uint64 list) \<Rightarrow> time \<Rightarrow> AffiliateEvent list \<Rightarrow> Cluster \<Rightarrow> Cluster option" where
  "notify_events so t [] c = Some c"
| "notify_events so t (ev # evs) c =
     (case notify so t ev c of None \<Rightarrow> None | Some c' \<Rightarrow> notify_events so t evs c')"

definition Prune ::
  "(uint64 list \<Rightarrow> uint64 list) \<Rightarrow> (string list \<Rightarrow> string list) \<Rightarrow> time \<Rightarrow> time \<Rightarrow> Cluster \<Rightarrow> Cluster option" where
  "Prune so ao now t c =
     (case pruneAffiliates ao now c of (c1, events) \<Rightarrow> notify_events so t events c1)"

section \<open>Subscribing\<close>

text \<open>
  The goroutine that \<^verbatim>\<open>SubscribeWithSnapshot\<close> starts runs \<open>Close\<close> on the new subscription once
  the caller's context ends. The operation has no error path: \<^verbatim>\<open>listAffiliatesLocked\<close> always
  returns a nil error.
\<close>

definition SubscribeWithSnapshot ::
  "(string list \<Rightarrow> string list) \<Rightarrow> Cluster \<Rightarrow> AffiliateInfo list \<times> nat \<times> Cluster" where
  "SubscribeWithSnapshot ao c =
     (let subID = nextSubID c + 1;
          sub = \<lparr>sub_id = subID, sub_ch = make_chan affiliateSubBuffer, sub_errCh = make_chan 1,
                 sub_closed = False, sub_once = False, sub_closeFn = Some subID\<rparr>;
          p = length (subs c)
      in (listAffiliatesLocked ao c, p,
          c\<lparr>nextSubID := subID, subs := subs c @ [sub],
            subscribers := AList.update subID p (subscribers c)\<rparr>))"

text \<open>The watcher's receives on \<^verbatim>\<open>sub.Events()\<close> and \<^verbatim>\<open>sub.Errors()\<close>.\<close>

definition recv_event :: "nat \<Rightarrow> Cluster \<Rightarrow> AffiliateEvent recv \<times> Cluster" where
  "recv_event p c =
     (let s = subs c ! p; (r, ch) = recv_chan (sub_ch s) in (r, upd_sub p (s\<lparr>sub_ch := ch\<rparr>) c))"

definition recv_error :: "nat \<Rightarrow> Cluster \<Rightarrow> sub_error recv \<times> Cluster" where
  "recv_error p c =
     (let s = subs c ! p; (r, ch) = recv_chan (sub_errCh s) in (r, upd_sub p (s\<lparr>sub_errCh := ch\<rparr>) c))"

end
