(* ===== verification/Subscriptions.thy ===== *)
theory Subscriptions
  imports Cluster
begin

text \<open>
  The subscriptions of a cluster: the invariant that ties the map \<open>subscribers\<close> to the store
  \<open>subs\<close>, and the effect of closing a subscription and of fanning an event out. Under the
  invariant no operation panics, and the fan-out has a closed form that does not depend on the
  order in which the subscribers are visited.
\<close>

section \<open>Invariant\<close>

text \<open>
  A registered subscription is open and has room for its error; every other subscription of the
  store has been shut, with both channels closed.
\<close>

definition sub_open :: "uint64 \<Rightarrow> Subscription \<Rightarrow> bool" where
  "sub_open k s \<longleftrightarrow> sub_id s = k \<and> sub_closeFn s = Some k \<and> \<not> sub_closed s \<and> \<not> sub_once s \<and>
     ch_cap (sub_ch s) = affiliateSubBuffer \<and> length (ch_buf (sub_ch s)) \<le> affiliateSubBuffer \<and>
     \<not> ch_closed (sub_ch s) \<and>
     ch_cap (sub_errCh s) = 1 \<and> ch_buf (sub_errCh s) = [] \<and> \<not> ch_closed (sub_errCh s)"

definition sub_shut :: "uint64 \<Rightarrow> Subscription \<Rightarrow> bool" where
  "sub_shut k s \<longleftrightarrow> sub_id s = k \<and> sub_closed s \<and> sub_once s \<and>
     ch_closed (sub_ch s) \<and> ch_closed (sub_errCh s) \<and>
     length (ch_buf (sub_ch s)) \<le> affiliateSubBuffer \<and> length (ch_buf (sub_errCh s)) \<le> 1"

definition sub_key :: "nat \<Rightarrow> uint64" where
  "sub_key p = word_of_nat (Suc p)"

definition registered :: "Cluster \<Rightarrow> nat \<Rightarrow> bool" where
  "registered c p \<longleftrightarrow> map_of (subscribers c) (sub_key p) = Some p"

definition subs_inv :: "Cluster \<Rightarrow> bool" where
  "subs_inv c \<longleftrightarrow>
     nextSubID c = word_of_nat (length (subs c)) \<and> length (subs c) < 2 ^ 64 \<and>
     distinct (keys (subscribers c)) \<and>
     (\<forall>(k, p) \<in> set (subscribers c). p < length (subs c) \<and> k = sub_key p) \<and>
     (\<forall>p < length (subs c).
        if registered c p then sub_open (sub_key p) (subs c ! p) else sub_shut (sub_key p) (subs c ! p))"

lemma sub_key_inj:
  assumes "Suc p < 2 ^ 64" and "Suc q < 2 ^ 64"
  shows "sub_key p = sub_key q \<longleftrightarrow> p = q"
  by (metis assms old.nat.inject sub_key_def unat_word_of_nat_small)

lemma subs_invD:
  assumes "subs_inv c"
  shows "nextSubID c = word_of_nat (length (subs c))" and "length (subs c) < 2 ^ 64"
    and "distinct (keys (subscribers c))"
    and "(k, p) \<in> set (subscribers c) \<Longrightarrow> p < length (subs c) \<and> k = sub_key p \<and> registered c p"
    and "registered c p \<Longrightarrow> p < length (subs c) \<and> sub_open (sub_key p) (subs c ! p)"
    and "p < length (subs c) \<Longrightarrow> \<not> registered c p \<Longrightarrow> sub_shut (sub_key p) (subs c ! p)"
proof -
  show r: "(k, p) \<in> set (subscribers c) \<Longrightarrow> p < length (subs c) \<and> k = sub_key p \<and> registered c p" for k p
  proof -
    assume m: "(k, p) \<in> set (subscribers c)"
    with assms have "p < length (subs c) \<and> k = sub_key p" by (auto simp: subs_inv_def)
    moreover have "map_of (subscribers c) k = Some p"
      using assms m by (intro map_of_is_SomeI) (auto simp: subs_inv_def)
    ultimately show ?thesis by (simp add: registered_def)
  qed
  show "registered c p \<Longrightarrow> p < length (subs c) \<and> sub_open (sub_key p) (subs c ! p)"
    using assms r [of "sub_key p" p] by (auto simp: subs_inv_def registered_def dest: map_of_SomeD)
qed (use assms in \<open>auto simp: subs_inv_def\<close>)

lemma registered_key_inj:
  assumes "subs_inv c" and "p < length (subs c)" and "q < length (subs c)"
  shows "sub_key p = sub_key q \<longleftrightarrow> p = q"
  using assms subs_invD(2) [OF assms(1)] by (intro sub_key_inj) auto

section \<open>Closing\<close>

definition shut :: "Subscription \<Rightarrow> Subscription" where
  "shut s = s\<lparr>sub_once := True, sub_closed := True,
     sub_ch := (sub_ch s)\<lparr>ch_closed := True\<rparr>, sub_errCh := (sub_errCh s)\<lparr>ch_closed := True\<rparr>\<rparr>"

definition unregister :: "time \<Rightarrow> nat \<Rightarrow> Cluster \<Rightarrow> Cluster" where
  "unregister t p c = prolongExpiry t (c\<lparr>subscribers := AList.delete (sub_key p) (subscribers c)\<rparr>)"

lemma Close_eq:
  assumes "p < length (subs c)" and "\<not> sub_once (subs c ! p)"
    and "sub_closeFn (subs c ! p) = Some (sub_key p)"
    and "map_of (subscribers c) (sub_key p) \<noteq> None"
    and "\<not> ch_closed (sub_ch (subs c ! p))" and "\<not> ch_closed (sub_errCh (subs c ! p))"
  shows "Close t p c = Some (unregister t p (upd_sub p (shut (subs c ! p)) c))"
  using assms
  by (auto simp: Close_def closeFn_def close_chan_def unregister_def shut_def prolongExpiry_def Let_def)

lemma Close_registered:
  assumes "subs_inv c" and "registered c p"
  shows "Close t p c = Some (unregister t p (upd_sub p (shut (subs c ! p)) c))"
  using assms subs_invD(5) [OF assms]
  by (intro Close_eq) (auto simp: sub_open_def registered_def)

lemma Close_shut: "subs_inv c \<Longrightarrow> p < length (subs c) \<Longrightarrow> \<not> registered c p \<Longrightarrow> Close t p c = Some c"
  using subs_invD(6) [of c p] by (simp add: Close_def sub_shut_def)

text \<open>
  An update of one store entry together with the registration of that entry keeps the invariant.
\<close>

lemma subs_inv_upd:
  assumes "subs_inv c" and "registered c p"
    and "nextSubID c' = nextSubID c" and "subs c' = (subs c)[p := s]"
    and "subscribers c' = subscribers c \<and> sub_open (sub_key p) s \<or>
         subscribers c' = AList.delete (sub_key p) (subscribers c) \<and> sub_shut (sub_key p) s"
  shows "subs_inv c'"
proof -
  note D = subs_invD [OF assms(1)]
  have p: "p < length (subs c)" using D(5) assms(2) by blast
  have other: "registered c' q = registered c q" if "q \<noteq> p" "q < length (subs c)" for q
    using assms(5) that registered_key_inj [OF assms(1) p that(2)] by (auto simp: registered_def)
  have self: "if registered c' p then sub_open (sub_key p) s else sub_shut (sub_key p) s"
    using assms(2,5) by (auto simp: registered_def)
  have "distinct (keys (subscribers c'))" using assms(5) D(3) by auto
  moreover have "\<forall>(k, q) \<in> set (subscribers c'). q < length (subs c) \<and> k = sub_key q"
    using assms(5) D(4) by (auto simp: set_delete)
  ultimately show ?thesis
    using assms(3,4) D(1,2,5,6) other self p
    by (auto simp: subs_inv_def nth_list_update)
qed

lemma sub_shut_shut:
  "sub_open k s \<Longrightarrow> sub_shut k (shut s)"
  "sub_open k s \<Longrightarrow> sub_shut k (shut (s\<lparr>sub_errCh := (sub_errCh s)\<lparr>ch_buf := [e]\<rparr>\<rparr>))"
  by (simp_all add: sub_open_def sub_shut_def shut_def)

lemma subs_inv_Close:
  assumes "subs_inv c" and "p < length (subs c)"
  shows "\<exists>c'. Close t p c = Some c' \<and> subs_inv c' \<and> affiliates c' = affiliates c"
proof (cases "registered c p")
  case True
  with assms have "sub_open (sub_key p) (subs c ! p)" using subs_invD(5) by blast
  then have "subs_inv (unregister t p (upd_sub p (shut (subs c ! p)) c))"
    using assms(1) True
    by (intro subs_inv_upd [OF assms(1) True, where s = "shut (subs c ! p)"])
      (auto simp: unregister_def prolongExpiry_def sub_shut_shut)
  with True assms(1) show ?thesis
    by (auto simp: Close_registered unregister_def prolongExpiry_def)
next
  case False
  with assms show ?thesis by (auto simp: Close_shut)
qed

section \<open>Notifying one subscription\<close>

definition sub_full :: "Subscription \<Rightarrow> bool" where
  "sub_full s \<longleftrightarrow> \<not> sub_closed s \<and> affiliateSubBuffer \<le> length (ch_buf (sub_ch s))"

definition deliver :: "AffiliateEvent \<Rightarrow> Subscription \<Rightarrow> Subscription" where
  "deliver ev s =
     (if sub_closed s then s
      else if sub_full s
      then shut (s\<lparr>sub_errCh := (sub_errCh s)\<lparr>ch_buf := [LostUpdate]\<rparr>\<rparr>)
      else s\<lparr>sub_ch := (sub_ch s)\<lparr>ch_buf := ch_buf (sub_ch s) @ [ev]\<rparr>\<rparr>)"

definition deliver_at :: "time \<Rightarrow> AffiliateEvent \<Rightarrow> nat \<Rightarrow> Cluster \<Rightarrow> Cluster" where
  "deliver_at t ev p c =
     (let c' = upd_sub p (deliver ev (subs c ! p)) c in
      if sub_full (subs c ! p) then unregister t p c' else c')"

lemma Subscription_notify_eq:
  assumes "subs_inv c" and "registered c p"
  shows "Subscription_notify t ev p c = Some (deliver_at t ev p c)"
proof -
  let ?s = "subs c ! p"
  have p: "p < length (subs c)" and o: "sub_open (sub_key p) ?s"
    using subs_invD(5) [OF assms] by auto
  show ?thesis
  proof (cases "sub_full ?s")
    case True
    let ?c = "upd_sub p (?s\<lparr>sub_errCh := (sub_errCh ?s)\<lparr>ch_buf := [LostUpdate]\<rparr>\<rparr>) c"
    have "Close t p ?c = Some (unregister t p (upd_sub p (shut (subs ?c ! p)) ?c))"
      using o p assms(2) by (intro Close_eq) (auto simp: sub_open_def registered_def)
    with True o p show ?thesis
      by (auto simp: Subscription_notify_def try_send_def sub_open_def deliver_at_def deliver_def
          sub_full_def Let_def)
  next
    case False
    with o show ?thesis
      by (auto simp: Subscription_notify_def try_send_def sub_open_def deliver_at_def deliver_def
          sub_full_def Let_def)
  qed
qed

lemma sub_open_deliver:
  "sub_open k s \<Longrightarrow> (if sub_full s then sub_shut k (deliver ev s) else sub_open k (deliver ev s))"
  by (auto simp: deliver_def sub_open_def sub_shut_def sub_full_def shut_def)

lemma subs_inv_deliver_at:
  assumes "subs_inv c" and "registered c p"
  shows "subs_inv (deliver_at t ev p c)"
  using subs_invD(5) [OF assms] sub_open_deliver [of "sub_key p" "subs c ! p" ev]
  by (intro subs_inv_upd [OF assms, where s = "deliver ev (subs c ! p)"])
    (auto simp: deliver_at_def unregister_def prolongExpiry_def Let_def split: if_splits)

section \<open>Fanning an event out\<close>

definition fanout :: "time \<Rightarrow> AffiliateEvent \<Rightarrow> Cluster \<Rightarrow> Cluster" where
  "fanout t ev c =
     c\<lparr>subs := map (deliver ev) (subs c),
       subscribers := filter (\<lambda>(k, p). \<not> sub_full (subs c ! p)) (subscribers c),
       cl_expiry := (if list_ex sub_full (subs c) then UnixNano (time_Add t ClusterTTL) else cl_expiry c)\<rparr>"

lemma deliver_at_frame [simp]:
  "affiliates (deliver_at t ev p c) = affiliates c" "cl_id (deliver_at t ev p c) = cl_id c"
  "nextSubID (deliver_at t ev p c) = nextSubID c" "length (subs (deliver_at t ev p c)) = length (subs c)"
  by (simp_all add: deliver_at_def unregister_def prolongExpiry_def Let_def)

lemma deliver_at_subs: "subs (deliver_at t ev p c) = (subs c)[p := deliver ev (subs c ! p)]"
  by (simp add: deliver_at_def unregister_def prolongExpiry_def Let_def)

lemma deliver_at_nth: "q \<noteq> p \<Longrightarrow> subs (deliver_at t ev p c) ! q = subs c ! q"
  by (simp add: deliver_at_subs)

lemma registered_deliver_at:
  assumes "subs_inv c" and "registered c p" and "registered c q" and "q \<noteq> p"
  shows "registered (deliver_at t ev p c) q"
proof -
  have "p < length (subs c)" "q < length (subs c)" using subs_invD(5) [OF assms(1)] assms(2,3) by auto
  with assms registered_key_inj [OF assms(1)] show ?thesis
    by (auto simp: registered_def deliver_at_def unregister_def prolongExpiry_def Let_def)
qed

lemma notify_loop_eq:
  "subs_inv c \<Longrightarrow> distinct ps \<Longrightarrow> \<forall>p \<in> set ps. registered c p \<Longrightarrow>
     notify_loop t ev ps c = Some (fold (deliver_at t ev) ps c) \<and> subs_inv (fold (deliver_at t ev) ps c)"
proof (induction ps arbitrary: c)
  case (Cons p ps)
  have "\<forall>q \<in> set ps. registered (deliver_at t ev p c) q"
    using Cons.prems by (auto intro!: registered_deliver_at)
  with Cons show ?case by (simp add: Subscription_notify_eq subs_inv_deliver_at)
qed simp

text \<open>What the visits leave of each part of the cluster.\<close>

lemma fold_deliver_at_frame:
  "affiliates (fold (deliver_at t ev) ps c) = affiliates c"
  "cl_id (fold (deliver_at t ev) ps c) = cl_id c"
  "nextSubID (fold (deliver_at t ev) ps c) = nextSubID c"
  "length (subs (fold (deliver_at t ev) ps c)) = length (subs c)"
  by (induction ps arbitrary: c) simp_all

lemma fold_deliver_at_subs:
  "distinct ps \<Longrightarrow> q < length (subs c) \<Longrightarrow>
     subs (fold (deliver_at t ev) ps c) ! q = (if q \<in> set ps then deliver ev (subs c ! q) else subs c ! q)"
proof (induction ps arbitrary: c)
  case (Cons p ps)
  have "q \<noteq> p \<Longrightarrow> subs (deliver_at t ev p c) ! q = subs c ! q" by (rule deliver_at_nth)
  with Cons.IH [of "deliver_at t ev p c"] Cons.prems show ?case
    by (cases "q = p") (auto simp: deliver_at_subs)
qed simp

lemma fold_deliver_at_subscribers:
  "distinct ps \<Longrightarrow>
     subscribers (fold (deliver_at t ev) ps c) =
       filter (\<lambda>(k, _). \<forall>p \<in> set ps. sub_full (subs c ! p) \<longrightarrow> k \<noteq> sub_key p) (subscribers c)"
proof (induction ps arbitrary: c)
  case (Cons p ps)
  have "\<forall>q \<in> set ps. subs (deliver_at t ev p c) ! q = subs c ! q"
    using Cons.prems by (metis deliver_at_nth distinct.simps(2))
  with Cons.IH [of "deliver_at t ev p c"] Cons.prems show ?case
    by (auto simp: deliver_at_def unregister_def prolongExpiry_def Let_def AList.delete_eq
        intro!: filter_cong)
qed simp

lemma fold_deliver_at_expiry:
  "distinct ps \<Longrightarrow>
     cl_expiry (fold (deliver_at t ev) ps c) =
       (if \<exists>p \<in> set ps. sub_full (subs c ! p) then UnixNano (time_Add t ClusterTTL) else cl_expiry c)"
proof (induction ps arbitrary: c)
  case (Cons p ps)
  have "\<forall>q \<in> set ps. subs (deliver_at t ev p c) ! q = subs c ! q"
    using Cons.prems by (metis deliver_at_nth distinct.simps(2))
  with Cons.IH [of "deliver_at t ev p c"] Cons.prems show ?case
    by (auto simp: deliver_at_def unregister_def prolongExpiry_def Let_def)
qed simp

lemma deliver_shut: "sub_shut k s \<Longrightarrow> deliver ev s = s \<and> \<not> sub_full s"
  by (simp add: sub_shut_def deliver_def sub_full_def)

text \<open>The pointers that the fan-out copies out of the map are exactly the registered ones.\<close>

lemma fanout_pointers:
  assumes "subs_inv c" and "range_order so"
  defines "ps \<equiv> map (\<lambda>k. the (map_of (subscribers c) k)) (so (keys (subscribers c)))"
  shows "distinct ps" and "set ps = {p. registered c p}"
proof -
  note D = subs_invD [OF assms(1)]
  have val: "k \<in> set (keys (subscribers c)) \<Longrightarrow>
      k = sub_key (the (map_of (subscribers c) k)) \<and> registered c (the (map_of (subscribers c) k))" for k
  proof -
    assume "k \<in> set (keys (subscribers c))"
    then obtain p where "(k, p) \<in> set (subscribers c)" by auto
    with D(4) [OF this] show ?thesis by (simp add: registered_def)
  qed
  have "inj_on (\<lambda>k. the (map_of (subscribers c) k)) (set (keys (subscribers c)))"
    by (rule inj_on_inverseI [where g = sub_key]) (metis val)
  then show "distinct ps" using assms(2) D(3) by (simp add: ps_def distinct_map)
  show "set ps = {p. registered c p}"
  proof
    show "set ps \<subseteq> {p. registered c p}" using val assms(2) by (auto simp: ps_def)
    show "{p. registered c p} \<subseteq> set ps"
    proof
      fix p assume "p \<in> {p. registered c p}"
      then have m: "map_of (subscribers c) (sub_key p) = Some p" by (simp add: registered_def)
      then have "sub_key p \<in> set (so (keys (subscribers c)))"
        using assms(2) by (simp add: gm.ks_dom [of "subscribers c", simplified] domI)
      with m show "p \<in> set ps" by (force simp: ps_def)
    qed
  qed
qed

lemma notify_fanout:
  assumes "subs_inv c" and "range_order so"
  shows "notify so t ev c = Some (fanout t ev c)" and "subs_inv (fanout t ev c)"
proof -
  let ?ps = "map (\<lambda>k. the (map_of (subscribers c) k)) (so (keys (subscribers c)))"
  let ?c = "fold (deliver_at t ev) ?ps c"
  note D = subs_invD [OF assms(1)]
  note ps = fanout_pointers [OF assms]
  have loop: "notify_loop t ev ?ps c = Some ?c" "subs_inv ?c"
    using notify_loop_eq [OF assms(1) ps(1)] ps(2) by auto
  have full: "p < length (subs c) \<Longrightarrow> sub_full (subs c ! p) \<Longrightarrow> registered c p" for p
    using D(6) deliver_shut by blast
  have "subs ?c = map (deliver ev) (subs c)"
  proof (rule nth_equalityI)
    fix q assume "q < length (subs ?c)"
    then have "q < length (subs c)" by (simp add: fold_deliver_at_frame)
    then show "subs ?c ! q = map (deliver ev) (subs c) ! q"
      using fold_deliver_at_subs [OF ps(1), of q c t ev] ps(2) D(6) deliver_shut by fastforce
  qed (simp add: fold_deliver_at_frame)
  moreover have "subscribers ?c = filter (\<lambda>(k, p). \<not> sub_full (subs c ! p)) (subscribers c)"
    unfolding fold_deliver_at_subscribers [OF ps(1)] ps(2)
  proof (rule filter_cong [OF refl])
    fix x assume x: "x \<in> set (subscribers c)"
    obtain k q where kq: "x = (k, q)" by force
    with x D(4) have q: "q < length (subs c)" "k = sub_key q" "registered c q" by auto
    have "registered c p \<Longrightarrow> k = sub_key p \<Longrightarrow> p = q" for p
      using q D(5) registered_key_inj [OF assms(1)] by metis
    with q show "(case x of (k, _) \<Rightarrow> \<forall>p \<in> {p. registered c p}. sub_full (subs c ! p) \<longrightarrow> k \<noteq> sub_key p) =
        (case x of (k, p) \<Rightarrow> \<not> sub_full (subs c ! p))"
      unfolding kq prod.case by blast
  qed
  moreover have "(\<exists>p \<in> set ?ps. sub_full (subs c ! p)) = list_ex sub_full (subs c)"
    unfolding ps(2) list_ex_iff using full D(5) by (metis in_set_conv_nth mem_Collect_eq)
  ultimately have "?c = fanout t ev c"
    by (simp add: fanout_def fold_deliver_at_frame fold_deliver_at_expiry [OF ps(1)])
  with loop show "notify so t ev c = Some (fanout t ev c)" "subs_inv (fanout t ev c)"
    by (simp_all add: notify_def)
qed

lemma fanout_frame [simp]:
  "affiliates (fanout t ev c) = affiliates c" "cl_id (fanout t ev c) = cl_id c"
  "nextSubID (fanout t ev c) = nextSubID c" "length (subs (fanout t ev c)) = length (subs c)"
  by (simp_all add: fanout_def)

lemma notify_events_fanout:
  "subs_inv c \<Longrightarrow> range_order so \<Longrightarrow>
     notify_events so t evs c = Some (fold (fanout t) evs c) \<and> subs_inv (fold (fanout t) evs c)"
  by (induction evs arbitrary: c) (simp_all add: notify_fanout)

lemma fold_fanout_frame [simp]:
  "affiliates (fold (fanout t) evs c) = affiliates c" "length (subs (fold (fanout t) evs c)) = length (subs c)"
  by (induction evs arbitrary: c) simp_all


text \<open>
  C7: fanning an event out. The fan-out always completes, and its outcome does not depend on the
  order in which the subscribers are visited. A subscription with room gets the event at the end
  of its queue and stays registered; a subscription whose 64 slots are taken keeps what is queued,
  is told that an update was lost, has both its channels closed and leaves the cluster; a closed
  subscription is left alone. So a slow consumer never costs another one an event.
\<close>

theorem notify_slow_consumer:
  assumes "subs_inv c" and "range_order so"
  shows "\<exists>c'. notify so t ev c = Some c' \<and> notify (\<lambda>ks. ks) t ev c = Some c' \<and>
    affiliates c' = affiliates c \<and>
    (\<forall>p < length (subs c). let s = subs c ! p; s' = subs c' ! p in
       if sub_closed s then s' = s
       else if length (ch_buf (sub_ch s)) < affiliateSubBuffer
       then s' = s\<lparr>sub_ch := (sub_ch s)\<lparr>ch_buf := ch_buf (sub_ch s) @ [ev]\<rparr>\<rparr> \<and>
            map_of (subscribers c') (sub_id s) = Some p
       else sub_closed s' \<and> ch_closed (sub_ch s') \<and> ch_closed (sub_errCh s') \<and>
            ch_buf (sub_ch s') = ch_buf (sub_ch s) \<and> ch_buf (sub_errCh s') = [LostUpdate] \<and>
            map_of (subscribers c') (sub_id s) = None)"
proof (intro exI [of _ "fanout t ev c"] conjI allI impI)
  show "notify so t ev c = Some (fanout t ev c)" by (rule notify_fanout(1) [OF assms])
  show "notify (\<lambda>ks. ks) t ev c = Some (fanout t ev c)" by (rule notify_fanout(1) [OF assms(1) range_order_id])
  show "affiliates (fanout t ev c) = affiliates c" by simp
  fix p assume p: "p < length (subs c)"
  let ?s = "subs c ! p" and ?s' = "subs (fanout t ev c) ! p"
  have s': "?s' = deliver ev ?s" using p by (simp add: fanout_def)
  have look: "map_of (subscribers (fanout t ev c)) k =
      (case map_of (subscribers c) k of None \<Rightarrow> None
       | Some q \<Rightarrow> if \<not> sub_full (subs c ! q) then Some q else None)" for k
    using map_of_filter_entries [OF subs_invD(3) [OF assms(1)]]
    by (simp add: fanout_def split: option.split)
  have "\<not> sub_closed ?s \<Longrightarrow> registered c p \<and> sub_id ?s = sub_key p"
    using subs_invD(5,6) [OF assms(1), of p] p by (auto simp: sub_open_def sub_shut_def)
  then have reg: "\<not> sub_closed ?s \<Longrightarrow> map_of (subscribers c) (sub_id ?s) = Some p"
    by (auto simp: registered_def)
  show "let s = ?s; s' = ?s' in
      if sub_closed s then s' = s
      else if length (ch_buf (sub_ch s)) < affiliateSubBuffer
      then s' = s\<lparr>sub_ch := (sub_ch s)\<lparr>ch_buf := ch_buf (sub_ch s) @ [ev]\<rparr>\<rparr> \<and>
           map_of (subscribers (fanout t ev c)) (sub_id s) = Some p
      else sub_closed s' \<and> ch_closed (sub_ch s') \<and> ch_closed (sub_errCh s') \<and>
           ch_buf (sub_ch s') = ch_buf (sub_ch s) \<and> ch_buf (sub_errCh s') = [LostUpdate] \<and>
           map_of (subscribers (fanout t ev c)) (sub_id s) = None"
    unfolding Let_def s'
    using reg by (auto simp: look deliver_def shut_def sub_full_def)
qed


end
