(* ===== verification/Cluster_Inv.thy ===== *)
theory Cluster_Inv
  imports Subscriptions
begin

text \<open>
  The invariant of a cluster (limits, distinct names, consistent subscriptions), what each
  operation on affiliates does under it, and that every sequence of operations runs without a
  panic and keeps it.
\<close>

section \<open>Invariant\<close>

definition affs_inv :: "(string \<times> Affiliate) list \<Rightarrow> bool" where
  "affs_inv m \<longleftrightarrow> distinct (keys m) \<and> length m \<le> AffiliatesMax \<and>
     (\<forall>(k, a) \<in> set m. aff_id a = k \<and> aff_inv a)"

definition cluster_inv :: "Cluster \<Rightarrow> bool" where
  "cluster_inv c \<longleftrightarrow> affs_inv (affiliates c) \<and> subs_inv c"

lemma affs_invD:
  assumes "affs_inv m"
  shows "distinct (keys m)" and "map_of m k = Some a \<Longrightarrow> aff_id a = k \<and> aff_inv a"
    and "length m \<le> AffiliatesMax"
  using assms by (auto simp: affs_inv_def dest!: map_of_SomeD)

lemma affs_inv_update:
  assumes "affs_inv m" and "aff_id a = k" and "aff_inv a"
    and "map_of m k = None \<Longrightarrow> length m < AffiliatesMax"
  shows "affs_inv (AList.update k a m)"
proof -
  have "\<forall>p \<in> set (AList.update k a m). case p of (k, a) \<Rightarrow> aff_id a = k \<and> aff_inv a"
    using assms by (intro all_update) (auto simp: affs_inv_def)
  moreover have "length (AList.update k a m) \<le> AffiliatesMax"
    using assms(1,4) by (auto simp: affs_inv_def)
  ultimately show ?thesis using assms(1) by (auto simp: affs_inv_def)
qed

lemma affs_inv_delete:
  assumes "affs_inv m"
  shows "affs_inv (AList.delete k m)"
proof -
  have "length (AList.delete k m) \<le> length m" by (simp add: AList.delete_eq)
  with assms show ?thesis
    by (auto simp: affs_inv_def set_delete)
qed

lemma subs_inv_cong:
  "nextSubID c' = nextSubID c \<Longrightarrow> subs c' = subs c \<Longrightarrow> subscribers c' = subscribers c \<Longrightarrow>
     subs_inv c' = subs_inv c"
  by (simp add: subs_inv_def registered_def)

lemma subs_inv_affiliates [simp]: "subs_inv (c\<lparr>affiliates := m\<rparr>) = subs_inv c"
  by (rule subs_inv_cong) simp_all

lemma subs_inv_prolong [simp]: "subs_inv (prolongExpiry t c) = subs_inv c"
  by (rule subs_inv_cong) (simp_all add: prolongExpiry_def)

lemma prolong_frame [simp]:
  "affiliates (prolongExpiry t c) = affiliates c" "subs (prolongExpiry t c) = subs c"
  "subscribers (prolongExpiry t c) = subscribers c" "cl_id (prolongExpiry t c) = cl_id c"
  by (simp_all add: prolongExpiry_def)

lemma NewCluster_simps [simp]:
  "affiliates (NewCluster t i) = []" "subs (NewCluster t i) = []" "subscribers (NewCluster t i) = []"
  "cl_id (NewCluster t i) = i"
  by (simp_all add: NewCluster_def)

lemma cluster_inv_New: "cluster_inv (NewCluster t i)"
  by (simp add: cluster_inv_def NewCluster_def affs_inv_def subs_inv_def)

section \<open>Updating an affiliate\<close>

text \<open>The affiliate that an update works on: the stored one, or a new one.\<close>

definition base_affiliate :: "string \<Rightarrow> Cluster \<Rightarrow> Affiliate" where
  "base_affiliate i c = (case map_of (affiliates c) i of Some a \<Rightarrow> a | None \<Rightarrow> new_affiliate i)"

definition with_data :: "time \<Rightarrow> AffiliateUpdateRequest \<Rightarrow> Affiliate \<Rightarrow> Affiliate" where
  "with_data expiry req a =
     (if req_Data req = [] then a else a\<lparr>aff_expiry := expiry, aff_data := req_Data req\<rparr>)"

definition rejected :: "AffiliateUpdateRequest \<Rightarrow> Cluster \<Rightarrow> bool" where
  "rejected req c \<longleftrightarrow> map_of (affiliates c) (req_ID req) = None \<and> AffiliatesMax \<le> length (affiliates c)"

abbreviation put_affiliate :: "Affiliate \<Rightarrow> Cluster \<Rightarrow> Cluster" where
  "put_affiliate a c \<equiv> c\<lparr>affiliates := AList.update (aff_id a) a (affiliates c)\<rparr>"

definition upsert :: "Affiliate \<Rightarrow> AffiliateEvent" where
  "upsert a = \<lparr>ev_Type = AffiliateEventUpsert, ev_Info = ToInfo a\<rparr>"

lemma base_affiliate_inv:
  assumes "affs_inv (affiliates c)"
  shows "aff_inv (base_affiliate i c)" and "aff_id (base_affiliate i c) = i"
  using affs_invD(2) [OF assms, of i]
  by (auto simp: base_affiliate_def new_affiliate_def aff_inv_def split: option.splits)

lemma with_data_simps [simp]:
  "aff_inv (with_data x req a) = aff_inv a" "aff_id (with_data x req a) = aff_id a"
  "aff_endpoints (with_data x req a) = aff_endpoints a" "has_room (with_data x req a) ds = has_room a ds"
  by (simp_all add: with_data_def has_room_def aff_inv_def)

lemma update_found_eq:
  "update_found x req a c =
     (case MergeEndpoints (with_data x req a) (req_Endpoints req) x of
        (a2, Inl err) \<Rightarrow> (c\<lparr>affiliates := AList.update (req_ID req) a2 (affiliates c)\<rparr>, Inl err)
      | (a2, Inr ch) \<Rightarrow> (c\<lparr>affiliates := AList.update (req_ID req) a2 (affiliates c)\<rparr>,
          Inr (if req_Data req = [] \<and> \<not> ch then None else Some (upsert a2))))"
  by (auto simp: update_found_def with_data_def upsert_def Let_def split: prod.splits sum.splits)

text \<open>The four outcomes of an update.\<close>

lemma updateAffiliateLocked_cases [consumes 1, case_names rejected full quiet event]:
  fixes now :: time and req :: AffiliateUpdateRequest
  assumes "affs_inv (affiliates c)"
  defines "x \<equiv> time_Add now (req_TTL req)"
  obtains (rejected) "rejected req c" "updateAffiliateLocked now req c = (c, Inl ErrTooManyAffiliates)"
    | (full) a' where "\<not> rejected req c" "\<not> has_room (base_affiliate (req_ID req) c) (req_Endpoints req)"
      "a' = fst (MergeEndpoints (with_data x req (base_affiliate (req_ID req) c)) (req_Endpoints req) x)"
      "updateAffiliateLocked now req c = (put_affiliate a' c, Inl ErrTooManyEndpoints)"
      "aff_inv a'" "aff_id a' = req_ID req"
    | (quiet) a' where "\<not> rejected req c" "has_room (base_affiliate (req_ID req) c) (req_Endpoints req)"
      "a' = fst (MergeEndpoints (with_data x req (base_affiliate (req_ID req) c)) (req_Endpoints req) x)"
      "req_Data req = []" "set (req_Endpoints req) \<subseteq> ep_data ` set (aff_endpoints (base_affiliate (req_ID req) c))"
      "updateAffiliateLocked now req c = (put_affiliate a' c, Inr None)"
      "aff_inv a'" "aff_id a' = req_ID req"
    | (event) a' where "\<not> rejected req c" "has_room (base_affiliate (req_ID req) c) (req_Endpoints req)"
      "a' = fst (MergeEndpoints (with_data x req (base_affiliate (req_ID req) c)) (req_Endpoints req) x)"
      "req_Data req \<noteq> [] \<or> \<not> set (req_Endpoints req) \<subseteq> ep_data ` set (aff_endpoints (base_affiliate (req_ID req) c))"
      "updateAffiliateLocked now req c = (put_affiliate a' c, Inr (Some (upsert a')))"
      "aff_inv a'" "aff_id a' = req_ID req"
proof (cases "rejected req c")
  case True
  then show ?thesis
    by (intro rejected) (auto simp: rejected_def updateAffiliateLocked_def)
next
  case False
  let ?b = "base_affiliate (req_ID req) c"
  let ?w = "with_data x req ?b"
  let ?a = "fst (MergeEndpoints ?w (req_Endpoints req) x)"
  have upd: "updateAffiliateLocked now req c = update_found x req ?b c"
    using False by (auto simp: rejected_def updateAffiliateLocked_def base_affiliate_def x_def
        split: option.splits)
  have inv: "aff_inv ?w" using base_affiliate_inv(1) [OF assms(1)] by simp
  have a: "aff_inv ?a" "aff_id ?a = req_ID req"
    using aff_inv_Merge [OF inv] Merge_frame(1) [OF inv] base_affiliate_inv(2) [OF assms(1)] by auto
  show ?thesis
    using inv
  proof (cases rule: MergeEndpoints_cases [where ds = "req_Endpoints req" and t = x])
    case ok
    show ?thesis
    proof (cases "req_Data req = [] \<and> set (req_Endpoints req) \<subseteq> ep_data ` set (aff_endpoints ?b)")
      case True
      with ok a False show ?thesis
        by (intro quiet [of ?a]) (auto simp: upd update_found_eq)
    next
      case ev: False
      with ok a False show ?thesis
        by (intro event [of ?a]) (auto simp: upd update_found_eq)
    qed
  next
    case (full xs d ys)
    with a False show ?thesis
      by (intro that(2) [of ?a]) (auto simp: upd update_found_eq)
  qed
qed

lemma put_affiliate_inv:
  assumes "affs_inv (affiliates c)" and "\<not> rejected req c" and "aff_inv a" and "aff_id a = req_ID req"
  shows "affs_inv (affiliates (put_affiliate a c))"
  using assms by (auto simp: rejected_def intro!: affs_inv_update)

lemma updateAffiliateLocked_inv:
  assumes "cluster_inv c"
  shows "cluster_inv (fst (updateAffiliateLocked now req c)) \<and>
    subs (fst (updateAffiliateLocked now req c)) = subs c"
proof -
  have "affs_inv (affiliates c)" using assms by (simp add: cluster_inv_def)
  then show ?thesis
    by (cases rule: updateAffiliateLocked_cases [where now = now and req = req])
      (use assms put_affiliate_inv [of c req] in \<open>auto simp: cluster_inv_def\<close>)
qed

lemma UpdateAffiliate_total:
  assumes "cluster_inv c" and "range_order so"
  shows "\<exists>c' r. UpdateAffiliate so now t req c = Some (c', r) \<and> cluster_inv c' \<and>
    affiliates c' = affiliates (fst (updateAffiliateLocked now req c)) \<and> length (subs c') = length (subs c)"
proof -
  obtain c1 r where u: "updateAffiliateLocked now req c = (c1, r)" by force
  then have c1: "cluster_inv c1" "subs c1 = subs c"
    using updateAffiliateLocked_inv [OF assms(1), of now req] by auto
  with notify_fanout [OF _ assms(2), of c1 t] u show ?thesis
    by (auto simp: UpdateAffiliate_def cluster_inv_def split: sum.splits option.splits)
qed

section \<open>Deleting and pruning\<close>

lemma DeleteAffiliate_total:
  assumes "cluster_inv c" and "range_order so"
  shows "\<exists>c'. DeleteAffiliate so now t i c = Some c' \<and> cluster_inv c' \<and>
    affiliates c' = AList.delete i (affiliates c) \<and> length (subs c') = length (subs c)"
proof -
  let ?c = "prolongExpiry now (c\<lparr>affiliates := AList.delete i (affiliates c)\<rparr>)"
  have "subs_inv ?c" using assms(1) by (simp add: cluster_inv_def)
  from notify_fanout [OF this assms(2), of t "tombstone i"] assms(1) show ?thesis
    by (auto simp: DeleteAffiliate_def deleteAffiliateLocked_def cluster_inv_def affs_inv_delete
        prolongExpiry_def split: option.splits)
qed

definition prune_endpoints :: "time \<Rightarrow> Affiliate \<Rightarrow> Affiliate" where
  "prune_endpoints now a = a\<lparr>aff_endpoints := filter (\<lambda>e. now < ep_expiry e) (aff_endpoints a)\<rparr>"

lemma live_endpoints_eq:
  "live_endpoints now es = (filter (\<lambda>e. now < ep_expiry e) es, \<exists>e \<in> set es. \<not> now < ep_expiry e)"
  by (induction es) auto

lemma prune_endpoints_same:
  assumes "\<forall>e \<in> set (aff_endpoints a). now < ep_expiry e"
  shows "prune_endpoints now a = a"
proof -
  have "filter (\<lambda>e. now < ep_expiry e) (aff_endpoints a) = aff_endpoints a"
    using assms by (auto intro: filter_True)
  then show ?thesis by (simp add: prune_endpoints_def)
qed

lemma prune_endpoints_inv: "aff_inv a \<Longrightarrow> aff_inv (prune_endpoints now a) \<and> aff_id (prune_endpoints now a) = aff_id a"
  by (auto simp: aff_inv_def prune_endpoints_def intro: distinct_map_filter le_trans [OF length_filter_le])

text \<open>One round of the pruning loop, with the loop over the endpoints in closed form.\<close>

lemma prune_loop_Cons:
  "prune_loop now (k # ks) m evs =
     (case map_of m k of
        None \<Rightarrow> prune_loop now ks m evs
      | Some a \<Rightarrow>
          if aff_expiry a \<le> now then prune_loop now ks (AList.delete k m) (evs @ [tombstone k])
          else if \<exists>e \<in> set (aff_endpoints a). ep_expiry e \<le> now
          then prune_loop now ks (AList.update k (prune_endpoints now a) m)
                 (evs @ [upsert (prune_endpoints now a)])
          else prune_loop now ks m evs)"
  by (auto simp: live_endpoints_eq prune_endpoints_def upsert_def Let_def not_less split: option.splits)

declare prune_loop.simps(2) [simp del]

lemma prune_loop_inv: "affs_inv m \<Longrightarrow> affs_inv (fst (prune_loop now ks m evs))"
proof (induction ks arbitrary: m evs)
  case (Cons k ks)
  have "map_of m k = Some a \<Longrightarrow> affs_inv (AList.update k (prune_endpoints now a) m)" for a
    using affs_invD(2) [OF Cons.prems, of k a] prune_endpoints_inv [of a now] Cons.prems
    by (intro affs_inv_update) auto
  with Cons show ?case
    by (auto simp: prune_loop_Cons affs_inv_delete split: option.splits)
qed simp

lemma prune_loop_lookup:
  "distinct ks \<Longrightarrow> map_of (fst (prune_loop now ks m evs)) k =
     (if k \<in> set ks
      then (case map_of m k of None \<Rightarrow> None
            | Some a \<Rightarrow> if aff_expiry a \<le> now then None else Some (prune_endpoints now a))
      else map_of m k)"
proof (induction ks arbitrary: m evs k)
  case (Cons x ks)
  have same: "\<not> (\<exists>e \<in> set (aff_endpoints a). ep_expiry e \<le> now) \<Longrightarrow> prune_endpoints now a = a" for a
    by (intro prune_endpoints_same) (auto simp: not_le)
  show ?case
    using Cons.prems by (cases "k = x") (auto simp: prune_loop_Cons Cons.IH same split: option.splits)
qed simp

lemma pruneAffiliates_lookup:
  assumes "affs_inv (affiliates c)" and "range_order ao"
  shows "map_of (affiliates (fst (pruneAffiliates ao now c))) k =
    (case map_of (affiliates c) k of None \<Rightarrow> None
     | Some a \<Rightarrow> if aff_expiry a \<le> now then None else Some (prune_endpoints now a))"
proof -
  have "distinct (ao (keys (affiliates c)))" using assms by (simp add: affs_inv_def)
  moreover have "k \<in> set (ao (keys (affiliates c))) \<longleftrightarrow> map_of (affiliates c) k \<noteq> None"
    using assms(2) gm.ks_dom [of "affiliates c"] by (auto simp: domIff)
  ultimately show ?thesis
    by (auto simp: pruneAffiliates_def prune_loop_lookup case_prod_unfold split: option.splits)
qed

lemma pruneAffiliates_frame [simp]:
  "subs (fst (pruneAffiliates ao now c)) = subs c"
  "subs_inv (fst (pruneAffiliates ao now c)) = subs_inv c"
  by (auto simp: pruneAffiliates_def split: prod.splits)

lemma pruneAffiliates_inv: "cluster_inv c \<Longrightarrow> cluster_inv (fst (pruneAffiliates ao now c))"
  using prune_loop_inv [of "affiliates c" now "ao (keys (affiliates c))" "[]"]
  by (auto simp: cluster_inv_def pruneAffiliates_def split: prod.splits)

lemma Prune_total:
  assumes "cluster_inv c" and "range_order so"
  shows "\<exists>c'. Prune so ao now t c = Some c' \<and> cluster_inv c' \<and>
    affiliates c' = affiliates (fst (pruneAffiliates ao now c)) \<and> length (subs c') = length (subs c)"
proof -
  obtain c1 evs where p: "pruneAffiliates ao now c = (c1, evs)" by force
  then have "cluster_inv c1" "subs c1 = subs c"
    using pruneAffiliates_inv [OF assms(1), of ao now] pruneAffiliates_frame(1) [of ao now c] by auto
  with notify_events_fanout [OF _ assms(2), of c1 t evs] p show ?thesis
    by (auto simp: Prune_def cluster_inv_def)
qed

section \<open>Subscribing and receiving\<close>

lemma nextSubID_key: "subs_inv c \<Longrightarrow> nextSubID c + 1 = sub_key (length (subs c))"
  by (simp add: subs_invD(1) sub_key_def add.commute)

lemma fresh_key:
  assumes "subs_inv c" and "Suc (length (subs c)) < 2 ^ 64"
  shows "map_of (subscribers c) (sub_key (length (subs c))) = None"
proof (rule ccontr)
  assume "\<not> ?thesis"
  then obtain p where "map_of (subscribers c) (sub_key (length (subs c))) = Some p" by auto
  then have "p < length (subs c)" "sub_key (length (subs c)) = sub_key p"
    using subs_invD(4) [OF assms(1)] by (auto dest!: map_of_SomeD)
  with assms(2) sub_key_inj [of "length (subs c)" p] show False by simp
qed

lemma SubscribeWithSnapshot_inv:
  assumes "subs_inv c" and "Suc (length (subs c)) < 2 ^ 64"
  shows "subs_inv (snd (snd (SubscribeWithSnapshot ao c)))"
proof -
  let ?n = "length (subs c)"
  let ?c = "snd (snd (SubscribeWithSnapshot ao c))"
  note D = subs_invD [OF assms(1)]
  have key: "nextSubID c + 1 = sub_key ?n" by (rule nextSubID_key [OF assms(1)])
  have reg: "registered ?c p = (if p = ?n then True else registered c p)" if "p \<le> ?n" for p
    using that assms sub_key_inj [of p ?n] fresh_key [OF assms]
    by (auto simp: registered_def SubscribeWithSnapshot_def Let_def key)
  have subs: "subs ?c ! p = subs c ! p" if "p < ?n" for p
    using that by (simp add: SubscribeWithSnapshot_def Let_def nth_append)
  have new: "sub_open (sub_key ?n) (subs ?c ! ?n)"
    by (simp add: SubscribeWithSnapshot_def Let_def key sub_open_def nth_append)
  have entries: "\<forall>(k, p) \<in> set (subscribers ?c). p < Suc ?n \<and> k = sub_key p"
  proof -
    have "\<forall>x \<in> set (AList.update (sub_key ?n) ?n (subscribers c)). case x of (k, p) \<Rightarrow> p < Suc ?n \<and> k = sub_key p"
      using D(3,4) by (intro all_update) (fastforce)+
    then show ?thesis by (simp add: SubscribeWithSnapshot_def Let_def key)
  qed
  have each: "if registered ?c p then sub_open (sub_key p) (subs ?c ! p) else sub_shut (sub_key p) (subs ?c ! p)"
    if "p < Suc ?n" for p
  proof (cases "p = ?n")
    case True
    with new reg show ?thesis by simp
  next
    case False
    with that have "p < ?n" by simp
    with reg subs D(5,6) show ?thesis by simp
  qed
  have "length (subs ?c) = Suc ?n" "nextSubID ?c = word_of_nat (Suc ?n)" "distinct (keys (subscribers ?c))"
    using D(3) by (simp_all add: SubscribeWithSnapshot_def Let_def key) (simp add: sub_key_def)
  with assms(2) entries each show ?thesis by (simp add: subs_inv_def)
qed

lemma SubscribeWithSnapshot_frame [simp]:
  "affiliates (snd (snd (SubscribeWithSnapshot ao c))) = affiliates c"
  "length (subs (snd (snd (SubscribeWithSnapshot ao c)))) = Suc (length (subs c))"
  by (simp_all add: SubscribeWithSnapshot_def Let_def)

lemma subs_inv_upd_same:
  assumes "subs_inv c" and "p < length (subs c)"
    and "sub_open (sub_key p) (subs c ! p) \<Longrightarrow> sub_open (sub_key p) s"
    and "sub_shut (sub_key p) (subs c ! p) \<Longrightarrow> sub_shut (sub_key p) s"
  shows "subs_inv (upd_sub p s c)"
  using assms by (auto simp: subs_inv_def registered_def nth_list_update)

lemma recv_inv:
  assumes "subs_inv c" and "p < length (subs c)"
  shows "subs_inv (snd (recv_event p c))" and "subs_inv (snd (recv_error p c))"
proof -
  have "subs_inv (upd_sub p ((subs c ! p)\<lparr>sub_ch := snd (recv_chan (sub_ch (subs c ! p)))\<rparr>) c)"
    by (rule subs_inv_upd_same [OF assms])
      (auto simp: sub_open_def sub_shut_def recv_chan_def split: list.splits)
  then show "subs_inv (snd (recv_event p c))" by (simp add: recv_event_def Let_def case_prod_unfold)
  have "subs_inv (upd_sub p ((subs c ! p)\<lparr>sub_errCh := snd (recv_chan (sub_errCh (subs c ! p)))\<rparr>) c)"
    by (rule subs_inv_upd_same [OF assms])
      (auto simp: sub_open_def sub_shut_def recv_chan_def split: list.splits)
  then show "subs_inv (snd (recv_error p c))" by (simp add: recv_error_def Let_def case_prod_unfold)
qed

lemma recv_frame [simp]:
  "affiliates (snd (recv_event p c)) = affiliates c" "length (subs (snd (recv_event p c))) = length (subs c)"
  "affiliates (snd (recv_error p c)) = affiliates c" "length (subs (snd (recv_error p c))) = length (subs c)"
  by (simp_all add: recv_event_def recv_error_def Let_def case_prod_unfold)


section \<open>What the operations do\<close>

text \<open>A subscribed cluster and a full one, for the witnesses.\<close>

definition demo_cluster :: Cluster where
  "demo_cluster = (snd (snd (SubscribeWithSnapshot rev (NewCluster 0 ''c''))))
     \<lparr>affiliates := [(''n'', full_affiliate ''n'' 5)]\<rparr>"

lemma demo_cluster_inv [simp]: "cluster_inv demo_cluster" "affs_inv (affiliates demo_cluster)"
  using SubscribeWithSnapshot_inv [of "NewCluster 0 ''c''" rev] cluster_inv_New [of 0 "''c''"]
  by (auto simp: cluster_inv_def demo_cluster_def affs_inv_def AffiliatesMax_def)

lemma demo_cluster_affs [simp]: "affiliates demo_cluster = [(''n'', full_affiliate ''n'' 5)]"
  by (simp add: demo_cluster_def)

theorem notify_slow_consumer_witness:
  "\<exists>c'. notify rev 7 (tombstone ''n'') demo_cluster = Some c' \<and>
     ch_buf (sub_ch (subs c' ! 0)) = [tombstone ''n'']"
proof -
  have "subs_inv demo_cluster" using demo_cluster_inv(1) by (simp add: cluster_inv_def)
  moreover have "length (subs demo_cluster) = 1" "\<not> sub_closed (subs demo_cluster ! 0)"
    "ch_buf (sub_ch (subs demo_cluster ! 0)) = []"
    by (simp_all add: demo_cluster_def SubscribeWithSnapshot_def Let_def)
  ultimately show ?thesis
    using notify_slow_consumer [of demo_cluster rev 7 "tombstone ''n''"]
    by (auto simp: Let_def affiliateSubBuffer_def)
qed

text \<open>
  A successful update. After \<open>UpdateAffiliate\<close> returns without error the affiliate is stored
  with the request's data if it carried any (and its old data otherwise), its endpoints are the
  old ones and the announced ones, its expiry lies no earlier than the request's, and every other
  affiliate is as before.
\<close>

lemma UpdateAffiliate_stores:
  assumes "cluster_inv c" and "range_order so"
    and "UpdateAffiliate so now t req c = Some (c', None)"
  shows "(\<exists>a. map_of (affiliates c') (req_ID req) = Some a \<and>
      aff_data a = (if req_Data req = [] then aff_data (base_affiliate (req_ID req) c) else req_Data req) \<and>
      ep_data ` set (aff_endpoints a) =
        ep_data ` set (aff_endpoints (base_affiliate (req_ID req) c)) \<union> set (req_Endpoints req) \<and>
      time_Add now (req_TTL req) \<le> aff_expiry a) \<and>
    (\<forall>k. k \<noteq> req_ID req \<longrightarrow> map_of (affiliates c') k = map_of (affiliates c) k)"
proof (intro conjI allI impI)
  let ?b = "base_affiliate (req_ID req) c" and ?x = "time_Add now (req_TTL req)"
  let ?w = "with_data ?x req ?b"
  have inv: "affs_inv (affiliates c)" using assms(1) by (simp add: cluster_inv_def)
  have affs: "affiliates c' = affiliates (fst (updateAffiliateLocked now req c))"
    using UpdateAffiliate_total [OF assms(1,2), of now t req] assms(3) by auto
  have noerr: "snd (updateAffiliateLocked now req c) \<noteq> Inl e" for e
    using assms(3) by (auto simp: UpdateAffiliate_def split: prod.splits)
  have "\<exists>a'. updateAffiliateLocked now req c = (put_affiliate a' c, r) \<and> has_room ?b (req_Endpoints req) \<and>
      a' = fst (MergeEndpoints ?w (req_Endpoints req) ?x) \<and> aff_id a' = req_ID req"
    if "r = snd (updateAffiliateLocked now req c)" for r
    using inv by (cases rule: updateAffiliateLocked_cases [where now = now and req = req])
      (use noerr that in auto)
  then obtain a' r where a': "updateAffiliateLocked now req c = (put_affiliate a' c, r)"
    "has_room ?b (req_Endpoints req)" "a' = fst (MergeEndpoints ?w (req_Endpoints req) ?x)" "aff_id a' = req_ID req"
    by blast
  have merged: "a' = ?w\<lparr>aff_endpoints := merged_endpoints (aff_endpoints ?b) (req_Endpoints req) ?x,
      aff_expiry := max (aff_expiry ?w) ?x\<rparr>"
    using a'(2,3) base_affiliate_inv(1) [OF inv] by (simp add: MergeEndpoints_ok)
  show "\<exists>a. map_of (affiliates c') (req_ID req) = Some a \<and>
      aff_data a = (if req_Data req = [] then aff_data ?b else req_Data req) \<and>
      ep_data ` set (aff_endpoints a) = ep_data ` set (aff_endpoints ?b) \<union> set (req_Endpoints req) \<and>
      ?x \<le> aff_expiry a"
    using a'(1,4) affs merged by (intro exI [of _ a']) (auto simp: set_data_merged with_data_def)
  show "map_of (affiliates c') k = map_of (affiliates c) k" if "k \<noteq> req_ID req" for k
    using a'(1,4) affs that by simp
qed

text \<open>
  The errors of an update. \<open>UpdateAffiliate\<close> refuses a new affiliate exactly when 1024 are
  stored, leaving the cluster untouched; it reports too many endpoints exactly when the endpoints
  do not fit; no other error exists.
\<close>

theorem UpdateAffiliate_errors:
  assumes "cluster_inv c" and "range_order so"
  shows "(UpdateAffiliate so now t req c = Some (c, Some ErrTooManyAffiliates) \<longleftrightarrow>
      map_of (affiliates c) (req_ID req) = None \<and> length (affiliates c) = AffiliatesMax) \<and>
    ((\<exists>c'. UpdateAffiliate so now t req c = Some (c', Some ErrTooManyEndpoints)) \<longleftrightarrow>
      \<not> (map_of (affiliates c) (req_ID req) = None \<and> length (affiliates c) = AffiliatesMax) \<and>
      AffiliateEndpointsMax < length (aff_endpoints (base_affiliate (req_ID req) c)) +
        card (set (req_Endpoints req) - ep_data ` set (aff_endpoints (base_affiliate (req_ID req) c))))"
proof (intro conjI)
  have inv: "affs_inv (affiliates c)" using assms(1) by (simp add: cluster_inv_def)
  have rej: "rejected req c \<longleftrightarrow> map_of (affiliates c) (req_ID req) = None \<and> length (affiliates c) = AffiliatesMax"
    using affs_invD(3) [OF inv] by (auto simp: rejected_def)
  have total: "\<exists>c' r. UpdateAffiliate so now t req c = Some (c', r)"
    using UpdateAffiliate_total [OF assms, of now t req] by blast
  have res: "UpdateAffiliate so now t req c = Some (c, Some ErrTooManyAffiliates) \<longleftrightarrow> rejected req c"
    "(\<exists>c'. UpdateAffiliate so now t req c = Some (c', Some ErrTooManyEndpoints)) \<longleftrightarrow>
       \<not> rejected req c \<and> \<not> has_room (base_affiliate (req_ID req) c) (req_Endpoints req)"
    using inv by (cases rule: updateAffiliateLocked_cases [where now = now and req = req];
        use total in \<open>auto simp: UpdateAffiliate_def split: option.splits\<close>)+
  show "UpdateAffiliate so now t req c = Some (c, Some ErrTooManyAffiliates) \<longleftrightarrow>
      map_of (affiliates c) (req_ID req) = None \<and> length (affiliates c) = AffiliatesMax"
    using res(1) rej by simp
  show "(\<exists>c'. UpdateAffiliate so now t req c = Some (c', Some ErrTooManyEndpoints)) \<longleftrightarrow>
      \<not> (map_of (affiliates c) (req_ID req) = None \<and> length (affiliates c) = AffiliatesMax) \<and>
      AffiliateEndpointsMax < length (aff_endpoints (base_affiliate (req_ID req) c)) +
        card (set (req_Endpoints req) - ep_data ` set (aff_endpoints (base_affiliate (req_ID req) c)))"
    using res(2) rej by (simp add: has_room_def not_le)
qed


theorem UpdateAffiliate_errors_witness:
  "\<exists>c'. UpdateAffiliate rev 1 1 \<lparr>req_ID = ''n'', req_Data = [7], req_Endpoints = [[1]], req_TTL = 9\<rparr>
     demo_cluster = Some (c', Some ErrTooManyEndpoints)"
proof -
  let ?r = "\<lparr>req_ID = ''n'', req_Data = [7], req_Endpoints = [[1]], req_TTL = 9\<rparr>"
  have "\<not> has_room (base_affiliate ''n'' demo_cluster) [[1]]"
    using full_affiliate_no_room [of "''n''" 5] by (simp add: base_affiliate_def)
  then show ?thesis
    using UpdateAffiliate_errors [OF demo_cluster_inv(1) range_order_rev, of 1 1 ?r]
    by (simp add: has_room_def)
qed



text \<open>
  C11: an update that carries neither data nor endpoints still creates its affiliate, which every
  later listing shows, but no subscriber is told: the code reports no change and announces nothing.
\<close>

theorem empty_update_creates_silently:
  assumes "cluster_inv c" and "map_of (affiliates c) (req_ID req) = None"
    and "length (affiliates c) < AffiliatesMax" and "req_Data req = []" and "req_Endpoints req = []"
  shows "\<exists>c'. UpdateAffiliate so now t req c = Some (c', None) \<and> subs c' = subs c \<and>
    map_option ToInfo (map_of (affiliates c') (req_ID req)) =
      Some \<lparr>info_ID = req_ID req, info_Data = [], info_Endpoints = []\<rparr>"
proof -
  have upd: "updateAffiliateLocked now req c =
      update_found (time_Add now (req_TTL req)) req (new_affiliate (req_ID req)) c"
    using assms(2,3) by (simp add: updateAffiliateLocked_def)
  show ?thesis
    unfolding UpdateAffiliate_def upd
    by (simp add: update_found_eq with_data_def assms(4,5) MergeEndpoints_def new_affiliate_def ToInfo_def)
qed

theorem empty_update_creates_silently_witness:
  "\<exists>c'. UpdateAffiliate rev 1 1 \<lparr>req_ID = ''m'', req_Data = [], req_Endpoints = [], req_TTL = 9\<rparr> demo_cluster =
      Some (c', None) \<and> subs c' = subs demo_cluster \<and>
    map_option ToInfo (map_of (affiliates c') ''m'') = Some \<lparr>info_ID = ''m'', info_Data = [], info_Endpoints = []\<rparr>"
  using empty_update_creates_silently [OF demo_cluster_inv(1),
      of "\<lparr>req_ID = ''m'', req_Data = [], req_Endpoints = [], req_TTL = 9\<rparr>" rev 1 1]
  by (simp add: AffiliatesMax_def)


text \<open>
  C12: pruning removes exactly what has expired. After \<open>Prune\<close> at an instant, an affiliate is
  stored if and only if it was stored before and expires later than that instant; what is left of
  it are its endpoints that expire later, everything else unchanged.
\<close>

theorem Prune_removes_expired:
  assumes "cluster_inv c" and "range_order so" and "range_order ao"
  shows "\<exists>c'. Prune so ao now t c = Some c' \<and> cluster_inv c' \<and>
    (\<forall>k. map_of (affiliates c') k =
       (case map_of (affiliates c) k of
          None \<Rightarrow> None
        | Some a \<Rightarrow> if aff_expiry a \<le> now then None
                    else Some (a\<lparr>aff_endpoints := filter (\<lambda>e. now < ep_expiry e) (aff_endpoints a)\<rparr>)))"
proof -
  have inv: "affs_inv (affiliates c)" using assms(1) by (simp add: cluster_inv_def)
  from Prune_total [OF assms(1,2), of ao now t] obtain c' where
    "Prune so ao now t c = Some c'" "cluster_inv c'"
    "affiliates c' = affiliates (fst (pruneAffiliates ao now c))" by blast
  with pruneAffiliates_lookup [OF inv assms(3), of now] show ?thesis
    by (intro exI [of _ c'] conjI allI) (simp_all add: prune_endpoints_def split: option.split)
qed

theorem Prune_removes_expired_witness:
  "\<exists>c'. Prune rev rev 5 6 demo_cluster = Some c' \<and> map_of (affiliates c') ''n'' = None"
proof -
  obtain c' where "Prune rev rev 5 6 demo_cluster = Some c'"
    "\<forall>k. map_of (affiliates c') k =
       (case map_of (affiliates demo_cluster) k of None \<Rightarrow> None
        | Some a \<Rightarrow> if aff_expiry a \<le> 5 then None
                    else Some (a\<lparr>aff_endpoints := filter (\<lambda>e. 5 < ep_expiry e) (aff_endpoints a)\<rparr>))"
    using Prune_removes_expired [OF demo_cluster_inv(1) range_order_rev range_order_rev, of 5 6] by blast
  then show ?thesis by (intro exI [of _ c']) simp
qed

text \<open>
  Deleting an affiliate removes it and nothing else, whatever it was. When it was stored, the
  cluster's life is prolonged to 30 minutes from the deletion or from the closing of a subscriber
  that could not take the notice; when it was not, nothing at all changes.
\<close>

lemma DeleteAffiliate_removes:
  assumes "cluster_inv c" and "range_order so"
  shows "\<exists>c'. DeleteAffiliate so now t i c = Some c' \<and> cluster_inv c' \<and>
    map_of (affiliates c') = (map_of (affiliates c))(i := None) \<and>
    (if map_of (affiliates c) i = None then c' = c
     else cl_expiry c' \<in> {UnixNano (time_Add now ClusterTTL), UnixNano (time_Add t ClusterTTL)})"
proof -
  let ?c = "prolongExpiry now (c\<lparr>affiliates := AList.delete i (affiliates c)\<rparr>)"
  have "subs_inv ?c" using assms(1) by (simp add: cluster_inv_def)
  from notify_fanout(1) [OF this assms(2), of t "tombstone i"] obtain c' where
    c': "DeleteAffiliate so now t i c = Some c'"
    "map_of (affiliates c) i = None \<Longrightarrow> c' = c"
    "map_of (affiliates c) i \<noteq> None \<Longrightarrow> c' = fanout t (tombstone i) ?c"
    by (fastforce simp: DeleteAffiliate_def deleteAffiliateLocked_def split: option.splits)
  have "cl_expiry (fanout t (tombstone i) ?c) \<in> {UnixNano (time_Add now ClusterTTL), UnixNano (time_Add t ClusterTTL)}"
    by (simp add: fanout_def prolongExpiry_def)
  with c' DeleteAffiliate_total [OF assms, of now t i] show ?thesis by auto
qed

text \<open>
  Listing. \<open>ListAffiliates\<close> returns one entry per stored affiliate and nothing else: for any
  iteration order the listed names are distinct, and an entry is listed exactly when an affiliate
  with this name, data and endpoints is stored.
\<close>

lemma ListAffiliates_exact:
  assumes "cluster_inv c" and "range_order ao"
  shows "distinct (map info_ID (ListAffiliates ao c)) \<and>
    set (ListAffiliates ao c) = {ToInfo a | k a. map_of (affiliates c) k = Some a}"
proof -
  let ?m = "affiliates c" and ?ks = "ao (keys (affiliates c))"
  have inv: "affs_inv ?m" using assms(1) by (simp add: cluster_inv_def)
  have ks: "set ?ks = dom (map_of ?m)" using assms(2) gm.ks_dom [of ?m] by simp
  have id: "info_ID (ToInfo (the (map_of ?m k))) = k" if "k \<in> set ?ks" for k
    using that ks affs_invD(2) [OF inv, of k] by (auto simp: ToInfo_def)
  have "map info_ID (ListAffiliates ao c) = ?ks"
    using id by (auto simp: ListAffiliates_def listAffiliatesLocked_def intro: map_idI)
  moreover have "set (ListAffiliates ao c) = {ToInfo a | k a. map_of ?m k = Some a}"
    unfolding ListAffiliates_def listAffiliatesLocked_def set_map ks by force
  ultimately show ?thesis using assms(2) affs_invD(1) [OF inv] by simp
qed

text \<open>
  The life of a cluster. A cluster whose expiry was last set at an instant counts as expired
  exactly when more than 30 minutes have passed, as long as the instants involved have a
  64-bit nanosecond representation (the years 1678 to 2262), which the stored number needs.
\<close>

theorem IsExpired_after_30_minutes:
  assumes "unix_nano_range now" and "unix_nano_range (set_at + 1800000000000)"
  shows "IsExpired now (prolongExpiry set_at c) \<longleftrightarrow> now > set_at + 1800000000000"
  using assms by (simp add: IsExpired_def prolongExpiry_def time_Add_def)

theorem IsExpired_after_30_minutes_witness:
  "IsExpired 1800000000006 (prolongExpiry 5 demo_cluster) \<and> \<not> IsExpired 1800000000005 (prolongExpiry 5 demo_cluster)"
  using IsExpired_after_30_minutes [of 1800000000006 5 demo_cluster]
    IsExpired_after_30_minutes [of 1800000000005 5 demo_cluster]
  by (simp add: unix_nano_range_def)


end
