(* ===== verification/Watch_Replay.thy ===== *)
theory Watch_Replay
  imports Cluster_Inv "HOL-Library.Sublist"
begin

text \<open>
  Sequences of cluster operations, and what a watcher makes of them. A watcher starts from the
  snapshot that \<open>SubscribeWithSnapshot\<close> returns and applies the events it receives; the abstract
  specification is the map from affiliate names to their public information, and the refinement
  says that the watcher's copy is that map. The operations run one after the other here.
\<close>

section \<open>Operations\<close>

datatype cluster_op =
    OpUpdate time time AffiliateUpdateRequest
  | OpDelete time time string
  | OpPrune time time
  | OpSubscribe
  | OpClose time nat
  | OpRecv nat
  | OpRecvErr nat

text \<open>A pointer that was never handed out cannot be used; such an operation does nothing.\<close>

fun exec_op :: "(uint64 list \<Rightarrow> uint64 list) \<Rightarrow> (string list \<Rightarrow> string list) \<Rightarrow>
    Cluster \<Rightarrow> cluster_op \<Rightarrow> Cluster option" where
  "exec_op so ao c (OpUpdate now t req) =
     (case UpdateAffiliate so now t req c of None \<Rightarrow> None | Some (c', _) \<Rightarrow> Some c')"
| "exec_op so ao c (OpDelete now t i) = DeleteAffiliate so now t i c"
| "exec_op so ao c (OpPrune now t) = Prune so ao now t c"
| "exec_op so ao c OpSubscribe = Some (snd (snd (SubscribeWithSnapshot ao c)))"
| "exec_op so ao c (OpClose t p) = (if p < length (subs c) then Close t p c else Some c)"
| "exec_op so ao c (OpRecv p) = Some (if p < length (subs c) then snd (recv_event p c) else c)"
| "exec_op so ao c (OpRecvErr p) = Some (if p < length (subs c) then snd (recv_error p c) else c)"

text \<open>The events an operation hands to the fan-out, in order.\<close>

fun op_events :: "(string list \<Rightarrow> string list) \<Rightarrow> Cluster \<Rightarrow> cluster_op \<Rightarrow> AffiliateEvent list" where
  "op_events ao c (OpUpdate now t req) =
     (case snd (updateAffiliateLocked now req c) of Inr (Some ev) \<Rightarrow> [ev] | _ \<Rightarrow> [])"
| "op_events ao c (OpDelete now t i) =
     (case snd (deleteAffiliateLocked i c) of Some ev \<Rightarrow> [ev] | None \<Rightarrow> [])"
| "op_events ao c (OpPrune now t) = snd (pruneAffiliates ao now c)"
| "op_events ao c _ = []"

section \<open>No sequence of operations panics\<close>

definition cluster_budget :: "nat \<Rightarrow> Cluster \<Rightarrow> bool" where
  "cluster_budget n c \<longleftrightarrow> cluster_inv c \<and> length (subs c) + n < 2 ^ 64"

lemma exec_op_total:
  assumes "cluster_budget (Suc n) c" and "range_order so"
  shows "\<exists>c'. exec_op so ao c x = Some c' \<and> cluster_budget n c' \<and> length (subs c) \<le> length (subs c')"
proof (cases x)
  case (OpUpdate now t req)
  with assms UpdateAffiliate_total [OF _ assms(2), of c now t req] show ?thesis
    by (force simp: cluster_budget_def)
next
  case (OpDelete now t i)
  with assms DeleteAffiliate_total [OF _ assms(2), of c now t i] show ?thesis
    by (force simp: cluster_budget_def)
next
  case (OpPrune now t)
  with assms Prune_total [OF _ assms(2), of c ao now t] show ?thesis
    by (force simp: cluster_budget_def)
next
  case OpSubscribe
  with assms SubscribeWithSnapshot_inv [of c ao] show ?thesis
    by (auto simp: cluster_budget_def cluster_inv_def)
next
  case (OpClose t p)
  have "\<exists>c'. Close t p c = Some c' \<and> cluster_budget n c' \<and> length (subs c) \<le> length (subs c')" if "p < length (subs c)"
  proof (cases "registered c p")
    case True
    with assms(1) subs_inv_Close [OF _ that, of t] show ?thesis
      by (auto simp: cluster_budget_def cluster_inv_def Close_registered unregister_def prolongExpiry_def)
  next
    case False
    with assms(1) that show ?thesis
      by (auto simp: cluster_budget_def cluster_inv_def Close_shut)
  qed
  with OpClose assms(1) show ?thesis by (auto simp: cluster_budget_def)
next
  case (OpRecv p)
  with assms recv_inv(1) [of c p] show ?thesis by (auto simp: cluster_budget_def cluster_inv_def)
next
  case (OpRecvErr p)
  with assms recv_inv(2) [of c p] show ?thesis by (auto simp: cluster_budget_def cluster_inv_def)
qed

text \<open>Any two iteration orders of the runtime make the operations a total machine.\<close>

locale runtime_orders =
  fixes so :: "uint64 list \<Rightarrow> uint64 list"
    and ao :: "string list \<Rightarrow> string list"
  assumes so_order: "range_order so"
    and ao_order: "range_order ao"

sublocale runtime_orders \<subseteq> cm: total_machine "exec_op so ao" "\<lambda>x. True" cluster_budget
  by unfold_locales (use exec_op_total [OF _ so_order] in blast)

context runtime_orders
begin

lemma ops_total:
  "cluster_inv c \<Longrightarrow> length (subs c) + length ops < 2 ^ 64 \<Longrightarrow>
     \<exists>c'. run (exec_op so ao) c ops = Some c' \<and> cluster_inv c'"
  using cm.run_total [of 0 ops c] by (auto simp: cluster_budget_def)

end

interpretation insertion: runtime_orders "\<lambda>ks. ks" "\<lambda>ks. ks"
  by unfold_locales simp_all

text \<open>
  C6: no sequence of operations on a cluster panics: whatever updates, deletions, prunings,
  subscriptions, closings (of the same subscription as often as one likes) and receives follow
  each other, in any iteration order of the maps, no closed channel is sent on or closed again,
  every operation returns, and the cluster invariant holds at the end. The only bound is that
  fewer than \<open>2 ^ 64\<close> subscriptions are ever made, so that their numbers do not repeat.
\<close>

theorem cluster_never_panics:
  assumes "cluster_inv c" and "length (subs c) + length ops < 2 ^ 64"
    and "range_order so" and "range_order ao"
  shows "\<exists>c'. run (exec_op so ao) c ops = Some c' \<and> cluster_inv c'"
  using assms by (intro runtime_orders.ops_total runtime_orders.intro)

theorem cluster_never_panics_witness:
  "\<exists>c'. run (exec_op rev rev) (NewCluster 0 ''c'')
     [OpSubscribe, OpSubscribe, OpDelete 1 1 ''n'', OpClose 2 0, OpClose 3 0, OpPrune 4 4] = Some c' \<and>
     cluster_inv c'"
  by (rule cluster_never_panics) (simp_all add: cluster_inv_New)

section \<open>The watcher's copy\<close>

text \<open>
  The abstract state of a cluster as its clients see it, the meaning of an event on it, and the
  copy a watcher starts from.
\<close>

type_synonym aff_map = "string \<Rightarrow> AffiliateInfo option"

definition aff_view :: "(string \<times> Affiliate) list \<Rightarrow> aff_map" where
  "aff_view m = (\<lambda>k. map_option ToInfo (map_of m k))"

definition apply_event :: "AffiliateEvent \<Rightarrow> aff_map \<Rightarrow> aff_map" where
  "apply_event ev v =
     (case ev_Type ev of
        AffiliateEventUpsert \<Rightarrow> v(info_ID (ev_Info ev) \<mapsto> ev_Info ev)
      | AffiliateEventDelete \<Rightarrow> v(info_ID (ev_Info ev) := None))"

definition view_of_list :: "AffiliateInfo list \<Rightarrow> aff_map" where
  "view_of_list is = map_of (map (\<lambda>i. (info_ID i, i)) is)"

lemma aff_view_update: "aff_view (AList.update k a m) = (aff_view m)(k \<mapsto> ToInfo a)"
  by (auto simp: aff_view_def)

lemma aff_view_delete: "aff_view (AList.delete k m) = (aff_view m)(k := None)"
  by (auto simp: aff_view_def)

lemma aff_view_absent: "map_of m k = None \<Longrightarrow> (aff_view m)(k := None) = aff_view m"
  by (auto simp: aff_view_def)

lemma apply_tombstone [simp]: "apply_event (tombstone k) v = v(k := None)"
  by (simp add: apply_event_def tombstone_def)

lemma apply_upsert [simp]: "apply_event (upsert a) v = v(aff_id a \<mapsto> ToInfo a)"
  by (simp add: apply_event_def upsert_def ToInfo_def)

text \<open>The snapshot carries the whole view, whatever the iteration order.\<close>

lemma list_view:
  assumes "affs_inv (affiliates c)" and "range_order ao"
  shows "view_of_list (listAffiliatesLocked ao c) = aff_view (affiliates c)"
proof
  fix k
  let ?m = "affiliates c" and ?ks = "ao (keys (affiliates c))"
  let ?f = "\<lambda>k. ToInfo (the (map_of ?m k))"
  have id: "k' \<in> set ?ks \<Longrightarrow> info_ID (?f k') = k'" for k'
    using affs_invD(2) [OF assms(1), of k'] assms(2) gm.ks_dom [of ?m]
    by (fastforce simp: ToInfo_def domIff)
  then have pairs: "map (\<lambda>i. (info_ID i, i)) (map ?f ?ks) = map (\<lambda>k'. (k', ?f k')) ?ks"
    by simp
  have "map_of (map (\<lambda>k'. (k', ?f k')) ?ks) k = (if k \<in> set ?ks then Some (?f k) else None)"
    by (simp add: map_of_map_restrict restrict_map_def)
  moreover have "k \<in> set ?ks \<longleftrightarrow> map_of ?m k \<noteq> None"
    using assms(2) gm.ks_dom [of ?m] by (auto simp: domIff)
  ultimately show "view_of_list (listAffiliatesLocked ao c) k = aff_view ?m k"
    unfolding view_of_list_def listAffiliatesLocked_def pairs by (auto simp: aff_view_def)
qed

section \<open>Events announce the change\<close>

text \<open>
  An update is announced unless it fails with too many endpoints, or creates an affiliate
  without data and without endpoints: in those two cases the code changes the cluster and tells
  nobody.
\<close>

fun announced :: "Cluster \<Rightarrow> cluster_op \<Rightarrow> bool" where
  "announced c (OpUpdate now t req) \<longleftrightarrow>
     (rejected req c \<or> has_room (base_affiliate (req_ID req) c) (req_Endpoints req)) \<and>
     (map_of (affiliates c) (req_ID req) \<noteq> None \<or> req_Data req \<noteq> [] \<or> req_Endpoints req \<noteq> [])"
| "announced c _ \<longleftrightarrow> True"

lemma merge_quiet_info:
  assumes "aff_inv a" and "has_room a ds" and "set ds \<subseteq> ep_data ` set (aff_endpoints a)"
  shows "ToInfo (fst (MergeEndpoints a ds t)) = ToInfo a"
proof -
  have "fresh (ep_data ` set (aff_endpoints a)) ds = []" using assms(3) by (simp add: fresh_Nil_iff)
  then show ?thesis
    using map_data_merged [of "aff_endpoints a" ds t] by (simp add: MergeEndpoints_ok [OF assms(1,2)] ToInfo_def)
qed

lemma update_view:
  assumes "affs_inv (affiliates c)" and "announced c (OpUpdate now t req)"
  shows "aff_view (affiliates (fst (updateAffiliateLocked now req c))) =
    fold apply_event (op_events ao c (OpUpdate now t req)) (aff_view (affiliates c))"
  using assms(1)
proof (cases rule: updateAffiliateLocked_cases [where now = now and req = req])
  case rejected
  then show ?thesis by simp
next
  case (full a')
  with assms(2) show ?thesis by simp
next
  case (quiet a')
  let ?b = "base_affiliate (req_ID req) c"
  have known: "map_of (affiliates c) (req_ID req) \<noteq> None"
    using quiet assms(2) by (auto simp: base_affiliate_def new_affiliate_def split: option.splits)
  have "ToInfo a' = ToInfo ?b"
    using quiet base_affiliate_inv(1) [OF assms(1)] by (simp add: with_data_def merge_quiet_info)
  then have "aff_view (AList.update (req_ID req) a' (affiliates c)) = aff_view (affiliates c)"
    using known by (auto simp: aff_view_update aff_view_def base_affiliate_def)
  with quiet show ?thesis by simp
next
  case (event a')
  then show ?thesis by (simp add: aff_view_update)
qed

lemma prune_view:
  "affs_inv m \<Longrightarrow> aff_view m = fold apply_event evs v \<Longrightarrow> prune_loop now ks m evs = (m', evs') \<Longrightarrow>
     aff_view m' = fold apply_event evs' v"
proof (induction ks arbitrary: m evs)
  case (Cons k ks)
  show ?case
  proof (cases "map_of m k")
    case None
    with Cons show ?thesis by (simp add: prune_loop_Cons)
  next
    case (Some a)
    have a: "aff_id a = k" "aff_inv a" using affs_invD(2) [OF Cons.prems(1) Some] by auto
    have "affs_inv (AList.update k (prune_endpoints now a) m)"
      using a prune_endpoints_inv [of a now] Some Cons.prems(1) by (intro affs_inv_update) auto
    moreover have "aff_id (prune_endpoints now a) = k" using a by (simp add: prune_endpoints_def)
    ultimately show ?thesis
      using Some Cons.prems Cons.IH [of "AList.delete k m" "evs @ [tombstone k]"]
        Cons.IH [of "AList.update k (prune_endpoints now a) m" "evs @ [upsert (prune_endpoints now a)]"]
        Cons.IH [of m evs]
      by (auto simp: prune_loop_Cons affs_inv_delete aff_view_delete aff_view_update split: if_splits)
  qed
qed simp

lemma exec_op_view:
  assumes "cluster_inv c" and "range_order so" and "announced c x" and "exec_op so ao c x = Some c'"
  shows "aff_view (affiliates c') = fold apply_event (op_events ao c x) (aff_view (affiliates c))"
proof (cases x)
  case (OpUpdate now t req)
  with assms UpdateAffiliate_total [OF assms(1,2), of now t req] update_view [of c now t req ao] show ?thesis
    by (auto simp: cluster_inv_def)
next
  case (OpDelete now t i)
  with assms DeleteAffiliate_total [OF assms(1,2), of now t i] show ?thesis
    by (auto simp: deleteAffiliateLocked_def aff_view_delete aff_view_absent split: option.splits)
next
  case (OpPrune now t)
  obtain m evs where p: "prune_loop now (ao (keys (affiliates c))) (affiliates c) [] = (m, evs)" by force
  have "aff_view m = fold apply_event evs (aff_view (affiliates c))"
    using assms(1) p by (intro prune_view [OF _ _ p]) (auto simp: cluster_inv_def)
  with OpPrune assms Prune_total [OF assms(1,2), of ao now t] p show ?thesis
    by (auto simp: pruneAffiliates_def)
next
  case (OpClose t p)
  with assms subs_inv_Close [of c p t] show ?thesis
    by (auto simp: cluster_inv_def split: if_splits)
qed (use assms in auto)

lemma exec_op_inv:
  assumes "cluster_budget (Suc n) c" and "range_order so" and "exec_op so ao c x = Some c'"
  shows "cluster_budget n c'" and "length (subs c) \<le> length (subs c')"
  using exec_op_total [OF assms(1,2), of ao x] assms(3) by auto


sublocale runtime_orders \<subseteq> es: event_source "exec_op so ao" "\<lambda>x. True" cluster_budget "op_events ao"
    "\<lambda>c. aff_view (affiliates c)" apply_event announced
  by unfold_locales (auto simp: cluster_budget_def intro: exec_op_view [OF _ so_order])

section \<open>What a subscription has been sent\<close>

text \<open>
  The events a watcher has taken from its channel during a run, and those still in flight.
\<close>

fun op_received :: "nat \<Rightarrow> Cluster \<Rightarrow> cluster_op \<Rightarrow> AffiliateEvent list" where
  "op_received p c (OpRecv q) =
     (if q = p then (case fst (recv_event p c) of Got ev \<Rightarrow> [ev] | _ \<Rightarrow> []) else [])"
| "op_received p c _ = []"

definition in_flight :: "nat \<Rightarrow> Cluster \<Rightarrow> AffiliateEvent list" where
  "in_flight p c = ch_buf (sub_ch (subs c ! p))"

lemma registered_fanout:
  assumes "subs_inv c"
  shows "registered (fanout t ev c) p \<longleftrightarrow> registered c p \<and> \<not> sub_full (subs c ! p)"
proof -
  have "map_of (subscribers (fanout t ev c)) (sub_key p) =
      (case map_of (subscribers c) (sub_key p) of None \<Rightarrow> None
       | Some q \<Rightarrow> if \<not> sub_full (subs c ! q) then Some q else None)"
    using map_of_filter_entries [OF subs_invD(3) [OF assms]] 
    by (simp add: fanout_def split: option.split)
  then show ?thesis by (auto simp: registered_def split: option.splits if_splits)
qed

lemma in_flight_fanout:
  assumes "subs_inv c" and "registered c p"
  shows "in_flight p (fanout t ev c) = (if sub_full (subs c ! p) then in_flight p c else in_flight p c @ [ev])"
  using subs_invD(5) [OF assms]
  by (auto simp: in_flight_def fanout_def deliver_def sub_open_def sub_full_def shut_def)

lemma in_flight_unregistered:
  assumes "subs_inv c" and "p < length (subs c)" and "\<not> registered c p"
  shows "subs (fanout t ev c) ! p = subs c ! p" and "\<not> registered (fanout t ev c) p"
  using subs_invD(6) [OF assms] assms deliver_shut
  by (auto simp: fanout_def registered_fanout [unfolded fanout_def])

text \<open>How a step treats the queue of one subscription.\<close>

definition queue_step :: "nat \<Rightarrow> AffiliateEvent list \<Rightarrow> AffiliateEvent list \<Rightarrow> Cluster \<Rightarrow> Cluster \<Rightarrow> bool" where
  "queue_step p sent got c c' \<longleftrightarrow>
     (registered c' p \<longrightarrow> registered c p \<and> in_flight p c @ sent = got @ in_flight p c') \<and>
     (registered c p \<longrightarrow> prefix (got @ in_flight p c') (in_flight p c @ sent)) \<and>
     (\<not> registered c p \<longrightarrow> in_flight p c = got @ in_flight p c')"

lemma queue_step_refl: "registered c' p = registered c p \<Longrightarrow> in_flight p c' = in_flight p c \<Longrightarrow> queue_step p [] [] c c'"
  by (simp add: queue_step_def)

lemma queue_step_trans:
  assumes "queue_step p sent got c c1" and "queue_step p sent' got' c1 c2"
  shows "queue_step p (sent @ sent') (got @ got') c c2"
proof (cases "registered c1 p")
  case True
  then have "registered c p" "in_flight p c @ sent = got @ in_flight p c1"
    using assms(1) by (simp_all add: queue_step_def)
  moreover have "prefix (got' @ in_flight p c2) (in_flight p c1 @ sent')"
    "registered c2 p \<Longrightarrow> in_flight p c1 @ sent' = got' @ in_flight p c2"
    using assms(2) True by (simp_all add: queue_step_def)
  ultimately show ?thesis
    by (simp add: queue_step_def) (metis append.assoc same_prefix_prefix)
next
  case False
  then have c2: "\<not> registered c2 p" "in_flight p c1 = got' @ in_flight p c2"
    using assms(2) by (auto simp: queue_step_def)
  have "registered c p \<Longrightarrow> prefix (got @ in_flight p c1) ((in_flight p c @ sent) @ sent')"
    using assms(1) by (simp add: queue_step_def del: append_assoc)
  with assms(1) c2 show ?thesis by (auto simp: queue_step_def)
qed

lemma queue_step_fanout:
  assumes "subs_inv c" and "p < length (subs c)"
  shows "queue_step p [ev] [] c (fanout t ev c)"
  using registered_fanout [OF assms(1), of t ev p] in_flight_fanout [OF assms(1), of p t ev]
    in_flight_unregistered [OF assms, of t ev]
  by (auto simp: queue_step_def in_flight_def)

lemma queue_step_fanouts:
  "subs_inv c \<Longrightarrow> p < length (subs c) \<Longrightarrow> queue_step p evs [] c (fold (fanout t) evs c)"
proof (induction evs arbitrary: c)
  case (Cons ev evs)
  have "queue_step p [ev] [] c (fanout t ev c)" using Cons.prems by (rule queue_step_fanout)
  moreover have "queue_step p evs [] (fanout t ev c) (fold (fanout t) evs (fanout t ev c))"
    using Cons.prems notify_fanout(2) [OF Cons.prems(1) range_order_id, of t ev] by (intro Cons.IH) auto
  ultimately show ?case using queue_step_trans by fastforce
qed (simp add: queue_step_refl)

lemma queue_step_cong:
  "subs d = subs c \<Longrightarrow> subscribers d = subscribers c \<Longrightarrow> queue_step p evs got d c' = queue_step p evs got c c'"
  by (simp add: queue_step_def registered_def in_flight_def)


lemma locked_frame:
  "subs (fst (updateAffiliateLocked now req c)) = subs c"
  "subscribers (fst (updateAffiliateLocked now req c)) = subscribers c"
  "subs (fst (pruneAffiliates ao now c)) = subs c"
  "subscribers (fst (pruneAffiliates ao now c)) = subscribers c"
  by (auto simp: updateAffiliateLocked_def update_found_eq pruneAffiliates_def Let_def
      split: option.splits prod.splits sum.splits)

lemma queue_step_id: "subs c' = subs c \<Longrightarrow> subscribers c' = subscribers c \<Longrightarrow> queue_step p [] [] c c'"
  by (rule queue_step_refl) (simp_all add: registered_def in_flight_def)

lemma queue_step_after:
  assumes "subs_inv c1" and "p < length (subs c)" and "subs c1 = subs c" and "subscribers c1 = subscribers c"
  shows "queue_step p evs [] c (fold (fanout t) evs c1)"
proof -
  have "queue_step p evs [] c1 (fold (fanout t) evs c1)"
    using assms(1-3) by (intro queue_step_fanouts) auto
  moreover have "queue_step p evs [] c (fold (fanout t) evs c1) = queue_step p evs [] c1 (fold (fanout t) evs c1)"
    by (rule queue_step_cong) (simp_all add: assms(3,4))
  ultimately show ?thesis by simp
qed

lemma queue_step_Close:
  assumes "subs_inv c" and "p < length (subs c)" and "q < length (subs c)" and "Close t q c = Some c'"
  shows "queue_step p [] [] c c'"
proof (cases "registered c q")
  case True
  with assms have c': "c' = unregister t q (upd_sub q (shut (subs c ! q)) c)"
    by (simp add: Close_registered)
  have "in_flight p c' = in_flight p c"
    using assms(2) by (cases "p = q") (simp_all add: c' in_flight_def unregister_def prolongExpiry_def shut_def)
  moreover have "registered c' p \<longrightarrow> registered c p"
    by (auto simp: c' registered_def unregister_def prolongExpiry_def split: if_splits)
  ultimately show ?thesis by (auto simp: queue_step_def)
next
  case False
  with assms show ?thesis by (simp add: Close_shut queue_step_id)
qed

lemma queue_step_recv:
  assumes "q < length (subs c)" and "p < length (subs c)"
  shows "queue_step p [] (op_received p c (OpRecv q)) c (snd (recv_event q c))"
    and "queue_step p [] [] c (snd (recv_error q c))"
proof -
  have reg: "registered (snd (recv_event q c)) p = registered c p" "registered (snd (recv_error q c)) p = registered c p"
    by (simp_all add: registered_def recv_event_def recv_error_def Let_def case_prod_unfold)
  have "in_flight p c = op_received p c (OpRecv q) @ in_flight p (snd (recv_event q c))"
    using assms by (cases "q = p")
      (auto simp: in_flight_def recv_event_def recv_chan_def Let_def case_prod_unfold split: list.splits)
  with reg show "queue_step p [] (op_received p c (OpRecv q)) c (snd (recv_event q c))"
    by (simp add: queue_step_def)
  have "in_flight p (snd (recv_error q c)) = in_flight p c"
    using assms by (cases "q = p") (auto simp: in_flight_def recv_error_def Let_def case_prod_unfold)
  with reg show "queue_step p [] [] c (snd (recv_error q c))" by (simp add: queue_step_refl)
qed

lemma queue_step_Subscribe:
  assumes "subs_inv c" and "Suc (length (subs c)) < 2 ^ 64" and "p < length (subs c)"
  shows "queue_step p [] [] c (snd (snd (SubscribeWithSnapshot ao c)))"
proof (rule queue_step_refl)
  have "sub_key p \<noteq> sub_key (length (subs c))"
    using assms sub_key_inj [of p "length (subs c)"] by simp
  then show "registered (snd (snd (SubscribeWithSnapshot ao c))) p = registered c p"
    by (simp add: registered_def SubscribeWithSnapshot_def Let_def nextSubID_key [OF assms(1)])
  show "in_flight p (snd (snd (SubscribeWithSnapshot ao c))) = in_flight p c"
    using assms(3) by (simp add: in_flight_def SubscribeWithSnapshot_def Let_def nth_append)
qed

lemma exec_op_queue:
  assumes "cluster_budget (Suc n) c" and "range_order so" and "p < length (subs c)"
    and "exec_op so ao c x = Some c'"
  shows "queue_step p (op_events ao c x) (op_received p c x) c c'"
proof -
  have inv: "cluster_inv c" "subs_inv c" using assms(1) by (simp_all add: cluster_budget_def cluster_inv_def)
  show ?thesis
  proof (cases x)
    case (OpUpdate now t req)
    obtain c1 r where u: "updateAffiliateLocked now req c = (c1, r)" by force
    have c1: "subs_inv c1" "subs c1 = subs c" "subscribers c1 = subscribers c"
      using updateAffiliateLocked_inv [OF inv(1), of now req] locked_frame(1,2) [of now req c] u
      by (auto simp: cluster_inv_def)
    note after = queue_step_after [OF c1(1) assms(3) c1(2,3), of _ t]
    show ?thesis
      using OpUpdate u assms(4) notify_fanout(1) [OF c1(1) assms(2), of t] queue_step_id [OF c1(2,3)]
        after [of "[_]"]
      by (auto simp: UpdateAffiliate_def split: sum.splits option.splits)
  next
    case (OpDelete now t i)
    let ?c = "prolongExpiry now (c\<lparr>affiliates := AList.delete i (affiliates c)\<rparr>)"
    have c1: "subs_inv ?c" "subs ?c = subs c" "subscribers ?c = subscribers c"
      using inv by simp_all
    show ?thesis
      using OpDelete assms(4) notify_fanout(1) [OF c1(1) assms(2), of t "tombstone i"]
        queue_step_after [OF c1(1) assms(3) c1(2,3), of "[tombstone i]" t] queue_step_id [of c c]
      by (auto simp: DeleteAffiliate_def deleteAffiliateLocked_def split: option.splits)
  next
    case (OpPrune now t)
    obtain c1 evs where u: "pruneAffiliates ao now c = (c1, evs)" by force
    have c1: "subs_inv c1" "subs c1 = subs c" "subscribers c1 = subscribers c"
      using pruneAffiliates_inv [OF inv(1), of ao now] locked_frame(3,4) [of ao now c] u
      by (auto simp: cluster_inv_def)
    show ?thesis
      using OpPrune u assms(4) notify_events_fanout [OF c1(1) assms(2), of t evs]
        queue_step_after [OF c1(1) assms(3) c1(2,3), of evs t]
      by (auto simp: Prune_def)
  next
    case OpSubscribe
    with inv assms queue_step_Subscribe [of c p ao] show ?thesis by (auto simp: cluster_budget_def)
  next
    case (OpClose t q)
    with inv assms queue_step_Close [of c p q t c'] queue_step_id [of c c] show ?thesis
      by (auto split: if_splits)
  next
    case (OpRecv q)
    with assms queue_step_recv(1) [of q c p] queue_step_id [of c c] show ?thesis
      by (auto split: if_splits)
  next
    case (OpRecvErr q)
    with assms queue_step_recv(2) [of q c p] queue_step_id [of c c] show ?thesis
      by (auto split: if_splits)
  qed
qed

lemma run_queue:
  "cluster_budget (length ops) c \<Longrightarrow> range_order so \<Longrightarrow> p < length (subs c) \<Longrightarrow>
     run (exec_op so ao) c ops = Some c' \<Longrightarrow>
     queue_step p (emitted (exec_op so ao) (op_events ao) c ops)
       (emitted (exec_op so ao) (op_received p) c ops) c c'"
proof (induction ops arbitrary: c)
  case (Cons x ops)
  then obtain c1 where c1: "exec_op so ao c x = Some c1" "run (exec_op so ao) c1 ops = Some c'"
    by (auto split: option.splits)
  have b: "cluster_budget (Suc (length ops)) c" using Cons.prems(1) by simp
  have "queue_step p (op_events ao c x) (op_received p c x) c c1"
    by (rule exec_op_queue [OF b Cons.prems(2,3) c1(1)])
  moreover have "queue_step p (emitted (exec_op so ao) (op_events ao) c1 ops)
      (emitted (exec_op so ao) (op_received p) c1 ops) c1 c'"
    using exec_op_inv [OF b Cons.prems(2) c1(1)] Cons.prems(2,3) c1(2)
    by (intro Cons.IH) auto
  ultimately show ?case using c1(1) queue_step_trans by fastforce
qed (simp add: queue_step_refl)


lemma Subscribe_result:
  assumes "subs_inv c" and "Suc (length (subs c)) < 2 ^ 64" and "SubscribeWithSnapshot ao c = (snap, p, c1)"
  shows "snap = listAffiliatesLocked ao c" and "p = length (subs c)" and "p < length (subs c1)"
    and "registered c1 p" and "in_flight p c1 = []" and "affiliates c1 = affiliates c"
  using assms
  by (auto simp: SubscribeWithSnapshot_def Let_def in_flight_def registered_def nth_append
      nextSubID_key [OF assms(1)])

lemma registered_iff_open:
  assumes "subs_inv c" and "p < length (subs c)"
  shows "registered c p \<longleftrightarrow> \<not> sub_closed (subs c ! p)"
  using subs_invD(5,6) [OF assms(1), of p] assms(2) by (auto simp: sub_open_def sub_shut_def)

context runtime_orders
begin

lemma watch_copy:
  assumes "cluster_inv c" and "Suc (length (subs c)) + length ops < 2 ^ 64"
    and "SubscribeWithSnapshot ao c = (snap, p, c1)"
    and "run (exec_op so ao) c1 ops = Some c'"
  defines "got \<equiv> emitted (exec_op so ao) (op_received p) c1 ops"
    and "sent \<equiv> emitted (exec_op so ao) (op_events ao) c1 ops"
  shows "prefix (got @ in_flight p c') sent"
    and "\<not> sub_closed (subs c' ! p) \<Longrightarrow> got @ in_flight p c' = sent"
    and "all_steps (exec_op so ao) announced c1 ops \<Longrightarrow>
       aff_view (affiliates c') = fold apply_event sent (view_of_list snap)"
proof -
  have inv: "subs_inv c" "affs_inv (affiliates c)" using assms(1) by (simp_all add: cluster_inv_def)
  have room: "Suc (length (subs c)) < 2 ^ 64" using assms(2) by simp
  note S = Subscribe_result [OF inv(1) room assms(3)]
  have c1: "cluster_budget (length ops) c1"
    using SubscribeWithSnapshot_inv [OF inv(1) room, of ao] assms(2,3) inv(2)
      SubscribeWithSnapshot_frame [of ao c]
    by (simp add: cluster_budget_def cluster_inv_def)
  have q: "queue_step p sent got c1 c'"
    unfolding sent_def got_def by (rule run_queue [OF c1 so_order S(3) assms(4)])
  have run: "\<exists>c2. run (exec_op so ao) c1 ops = Some c2 \<and> cluster_budget 0 c2"
    using cm.run_total [of 0 ops c1] c1 by simp
  then have inv': "subs_inv c'" using assms(4) by (simp add: cluster_budget_def cluster_inv_def)
  show "prefix (got @ in_flight p c') sent" using q S(4,5) by (simp add: queue_step_def)
  show "got @ in_flight p c' = sent" if "\<not> sub_closed (subs c' ! p)"
  proof -
    have "length (subs c1) \<le> length (subs c')"
      using assms(4) c1
    proof (induction ops arbitrary: c1)
      case (Cons x xs)
      then obtain c2 where "exec_op so ao c1 x = Some c2" "run (exec_op so ao) c2 xs = Some c'"
        by (auto split: option.splits)
      with Cons exec_op_inv [OF _ so_order, of "length xs" c1 ao x c2] show ?case by fastforce
    qed simp
    then have "registered c' p" using S(3) that registered_iff_open [OF inv'] by simp
    with q S(5) show ?thesis by (simp add: queue_step_def)
  qed
  show "aff_view (affiliates c') = fold apply_event sent (view_of_list snap)"
    if "all_steps (exec_op so ao) announced c1 ops"
    using es.replay_run [of 0 ops c1 c'] c1 that assms(4) S(1,6) list_view [OF inv(2) ao_order]
    by (simp add: sent_def)
qed

end

text \<open>
  C3: the watch contract. A watcher that takes the snapshot of \<open>SubscribeWithSnapshot\<close> and
  applies the events it is sent holds exactly the affiliates of the cluster: after any sequence
  of operations, if the subscription is still open, replaying what the watcher has received and
  what is still in its channel over the snapshot gives the current affiliates. The sequence may
  mix updates, deletions, expiries and other subscribers; its updates are those the code
  announces (see \<open>announced\<close>).
\<close>

theorem watch_refines_state:
  assumes "cluster_inv c" and "Suc (length (subs c)) + length ops < 2 ^ 64"
    and "range_order so" and "range_order ao"
    and "SubscribeWithSnapshot ao c = (snap, p, c1)"
    and "run (exec_op so ao) c1 ops = Some c'"
    and "all_steps (exec_op so ao) announced c1 ops"
    and "\<not> sub_closed (subs c' ! p)"
  shows "fold apply_event
      (emitted (exec_op so ao) (op_received p) c1 ops @ ch_buf (sub_ch (subs c' ! p)))
      (view_of_list snap) = aff_view (affiliates c')"
  using runtime_orders.watch_copy [OF runtime_orders.intro [OF assms(3,4)] assms(1,2,5,6)] assms(7,8)
  by (simp add: in_flight_def)

text \<open>A run for the witnesses: an update with data, a receive, a second update, a deletion.\<close>

definition demo_ops :: "cluster_op list" where
  "demo_ops =
     [OpUpdate 1 1 \<lparr>req_ID = ''n1'', req_Data = [7], req_Endpoints = [[1], [2]], req_TTL = 100\<rparr>,
      OpRecv 0,
      OpUpdate 2 2 \<lparr>req_ID = ''n2'', req_Data = [8], req_Endpoints = [], req_TTL = 50\<rparr>,
      OpDelete 3 3 ''n1'']"

definition demo_start :: Cluster where
  "demo_start = snd (snd (SubscribeWithSnapshot rev (NewCluster 0 ''c'')))"

lemma demo_subscribe: "SubscribeWithSnapshot rev (NewCluster 0 ''c'') = ([], 0, demo_start)"
  by (simp add: demo_start_def SubscribeWithSnapshot_def listAffiliatesLocked_def Let_def)

lemma demo_run:
  "run (exec_op rev rev) demo_start demo_ops \<noteq> None"
  "all_steps (exec_op rev rev) announced demo_start demo_ops"
  "\<not> sub_closed (subs (the (run (exec_op rev rev) demo_start demo_ops)) ! 0)"
  "length (emitted (exec_op rev rev) (op_received 0) demo_start demo_ops) = 1"
  by code_simp+

lemma demo_bound: "Suc (length (subs (NewCluster 0 ''c''))) + length demo_ops < 2 ^ 64"
  by (simp add: demo_ops_def)

theorem watch_refines_state_witness:
  "fold apply_event
      (emitted (exec_op rev rev) (op_received 0) demo_start demo_ops @
       ch_buf (sub_ch (subs (the (run (exec_op rev rev) demo_start demo_ops)) ! 0)))
      (view_of_list []) = aff_view (affiliates (the (run (exec_op rev rev) demo_start demo_ops)))"
  using watch_refines_state [OF cluster_inv_New demo_bound range_order_rev range_order_rev demo_subscribe]
    demo_run by auto

text \<open>
  C4: a watcher sees no gaps and no reordering. Whatever operations follow the subscription, the
  events a watcher has received followed by those in its channel are an initial segment of the
  events the cluster announced since the subscription; when the watcher falls behind by more than
  64 events the segment ends, and it never misses an event in the middle.
\<close>

theorem watch_no_gaps:
  assumes "cluster_inv c" and "Suc (length (subs c)) + length ops < 2 ^ 64"
    and "range_order so" and "range_order ao"
    and "SubscribeWithSnapshot ao c = (snap, p, c1)"
    and "run (exec_op so ao) c1 ops = Some c'"
  shows "prefix (emitted (exec_op so ao) (op_received p) c1 ops @ ch_buf (sub_ch (subs c' ! p)))
    (emitted (exec_op so ao) (op_events ao) c1 ops)"
  using runtime_orders.watch_copy(1) [OF runtime_orders.intro [OF assms(3,4)] assms(1,2,5,6)]
  by (simp add: in_flight_def)


theorem watch_no_gaps_witness:
  "prefix (emitted (exec_op rev rev) (op_received 0) demo_start demo_ops @
      ch_buf (sub_ch (subs (the (run (exec_op rev rev) demo_start demo_ops)) ! 0)))
    (emitted (exec_op rev rev) (op_events rev) demo_start demo_ops)"
  using watch_no_gaps [OF cluster_inv_New demo_bound range_order_rev range_order_rev demo_subscribe]
    demo_run(1) by auto


end
