(* ===== verification/State.thy ===== *)
theory State
  imports Watch_Replay
begin

text \<open>
  The discovery state (\<^verbatim>\<open>internal/state/state.go\<close>): the concurrent map from cluster names to
  clusters, lookup and creation of a cluster, and the periodic cleanup.

  The map is \<^verbatim>\<open>xsync.Map\<close>, a package outside the repository. It is a parameter: a record of the
  operations the code calls, and the locale \<open>xsync_map\<close> with their documented behaviour. A
  \<^verbatim>\<open>*Cluster\<close> is an index into \<open>heap\<close>, the store of all clusters ever created, so that a caller
  that obtained a cluster before the cleanup removed it still works on that very cluster.
\<close>

section \<open>The concurrent map\<close>

text \<open>
  \<open>x_LoadOrCompute m k v\<close> is called with the value \<open>v\<close> that the compute function would return;
  its result is the new map, the value now stored and whether it was there before. \<open>x_Range\<close>
  gives the entries a range call visits, in its order.
\<close>

record 'm xsync =
  x_NewMap :: 'm
  x_Load :: "'m \<Rightarrow> string \<Rightarrow> nat option"
  x_LoadOrCompute :: "'m \<Rightarrow> string \<Rightarrow> nat \<Rightarrow> 'm \<times> nat \<times> bool"
  x_Store :: "'m \<Rightarrow> string \<Rightarrow> nat \<Rightarrow> 'm"
  x_Delete :: "'m \<Rightarrow> string \<Rightarrow> 'm"
  x_Range :: "'m \<Rightarrow> (string \<times> nat) list"

locale xsync_map =
  fixes X :: "'m xsync"
  assumes Load_NewMap: "x_Load X (x_NewMap X) k = None"
    and Load_Store: "x_Load X (x_Store X m k v) = (x_Load X m)(k \<mapsto> v)"
    and Load_Delete: "x_Load X (x_Delete X m k) = (x_Load X m)(k := None)"
    and LoadOrCompute: "x_LoadOrCompute X m k v =
          (case x_Load X m k of Some w \<Rightarrow> (m, w, True) | None \<Rightarrow> (x_Store X m k v, v, False))"
    and Range_keys: "distinct (keys (x_Range X m))"
    and Range_Load: "map_of (x_Range X m) = x_Load X m"

section \<open>State\<close>

record 'm State =
  clusters :: 'm
  heap :: "Cluster list"

definition empty_state :: "'m xsync \<Rightarrow> 'm State" where
  "empty_state X = \<lparr>clusters = x_NewMap X, heap = []\<rparr>"

definition ClusterFor :: "'m xsync \<Rightarrow> time \<Rightarrow> string \<Rightarrow> 'm State \<Rightarrow> nat \<times> 'm State" where
  "ClusterFor X now clusterId s =
     (case x_LoadOrCompute X (clusters s) clusterId (length (heap s)) of
        (m, p, loaded) \<Rightarrow>
          (p, if loaded then s\<lparr>clusters := m\<rparr>
              else s\<lparr>clusters := m, heap := heap s @ [NewCluster now clusterId]\<rparr>))"

definition GetCluster :: "'m xsync \<Rightarrow> string \<Rightarrow> 'm State \<Rightarrow> nat option" where
  "GetCluster X clusterId s = x_Load X (clusters s) clusterId"

text \<open>
  The clock readings of a cleanup, per cluster: when it prunes, when a subscription that the
  pruning closes prolongs the cluster, and when the expiry is checked.
\<close>

record cleanup_clock =
  at_prune :: "string \<Rightarrow> time"
  at_close :: "string \<Rightarrow> time"
  at_check :: "string \<Rightarrow> time"

fun cleanup_loop ::
  "'m xsync \<Rightarrow> (uint64 list \<Rightarrow> uint64 list) \<Rightarrow> (string list \<Rightarrow> string list) \<Rightarrow> cleanup_clock \<Rightarrow>
   (string \<times> nat) list \<Rightarrow> 'm State \<Rightarrow> 'm State option" where
  "cleanup_loop X so ao clk [] s = Some s"
| "cleanup_loop X so ao clk ((i, p) # es) s =
     (case Prune so ao (at_prune clk i) (at_close clk i) (heap s ! p) of
        None \<Rightarrow> None
      | Some c \<Rightarrow>
          (let s1 = s\<lparr>heap := (heap s)[p := c]\<rparr>;
               s2 = (if IsExpired (at_check clk i) c \<and> IsEmpty c
                     then s1\<lparr>clusters := x_Delete X (clusters s1) i\<rparr> else s1)
           in cleanup_loop X so ao clk es s2))"

definition Cleanup ::
  "'m xsync \<Rightarrow> (uint64 list \<Rightarrow> uint64 list) \<Rightarrow> (string list \<Rightarrow> string list) \<Rightarrow> cleanup_clock \<Rightarrow>
   'm State \<Rightarrow> 'm State option" where
  "Cleanup X so ao clk s = cleanup_loop X so ao clk (x_Range X (clusters s)) s"

text \<open>Running an operation on the cluster behind a pointer.\<close>

definition on_cluster :: "nat \<Rightarrow> (Cluster \<Rightarrow> Cluster option) \<Rightarrow> 'm State \<Rightarrow> 'm State option" where
  "on_cluster p f s = (case f (heap s ! p) of None \<Rightarrow> None | Some c \<Rightarrow> Some (s\<lparr>heap := (heap s)[p := c]\<rparr>))"

section \<open>Invariant\<close>

definition state_inv :: "'m xsync \<Rightarrow> 'm State \<Rightarrow> bool" where
  "state_inv X s \<longleftrightarrow>
     (\<forall>k p. x_Load X (clusters s) k = Some p \<longrightarrow> p < length (heap s) \<and> cl_id (heap s ! p) = k) \<and>
     (\<forall>c \<in> set (heap s). cluster_inv c)"

lemma state_invD:
  assumes "state_inv X s"
  shows "x_Load X (clusters s) k = Some p \<Longrightarrow> p < length (heap s) \<and> cl_id (heap s ! p) = k"
    and "p < length (heap s) \<Longrightarrow> cluster_inv (heap s ! p)"
  using assms by (auto simp: state_inv_def)

lemma state_inv_write:
  assumes "state_inv X s" and "p < length (heap s)" and "cluster_inv c" and "cl_id c = cl_id (heap s ! p)"
  shows "state_inv X (s\<lparr>heap := (heap s)[p := c]\<rparr>)"
proof -
  have "\<forall>d \<in> set ((heap s)[p := c]). cluster_inv d"
    using assms(1,3) set_update_subset_insert [of "heap s" p c] by (auto simp: state_inv_def)
  with assms show ?thesis by (auto simp: state_inv_def nth_list_update)
qed

lemma fold_fanout_id [simp]: "cl_id (fold (fanout t) evs c) = cl_id c"
  by (induction evs arbitrary: c) simp_all

text \<open>Pruning one cluster of the state.\<close>

lemma Prune_id:
  assumes "cluster_inv c" and "range_order so" and "Prune so ao now t c = Some c'"
  shows "cl_id c' = cl_id c"
proof -
  obtain c1 evs where p: "pruneAffiliates ao now c = (c1, evs)" by force
  then have "subs_inv c1" "cl_id c1 = cl_id c"
    using assms(1) pruneAffiliates_frame(2) [of ao now c]
    by (auto simp: cluster_inv_def pruneAffiliates_def split: prod.splits)
  with notify_events_fanout [OF _ assms(2), of c1 t evs] p assms(3) show ?thesis
    by (auto simp: Prune_def)
qed

context xsync_map
begin

lemma state_inv_empty: "state_inv X (empty_state X)"
  by (simp add: state_inv_def empty_state_def Load_NewMap)

lemma ClusterFor_cases:
  assumes "state_inv X s" and "ClusterFor X now i s = (p, s')"
  shows "state_inv X s'" and "x_Load X (clusters s') i = Some p" and "p < length (heap s')"
    and "k \<noteq> i \<Longrightarrow> x_Load X (clusters s') k = x_Load X (clusters s) k"
    and "x_Load X (clusters s) i = Some q \<Longrightarrow> p = q \<and> s' = s"
    and "x_Load X (clusters s) i = None \<Longrightarrow> p = length (heap s) \<and> heap s' = heap s @ [NewCluster now i]"
proof -
  note L = LoadOrCompute [of "clusters s" i "length (heap s)"]
  have new: "state_inv X (s\<lparr>clusters := x_Store X (clusters s) i (length (heap s)),
      heap := heap s @ [NewCluster now i]\<rparr>)"
    using assms(1) by (auto simp: state_inv_def Load_Store cluster_inv_New nth_append)
      (metis less_SucI)+
  show "state_inv X s'" "x_Load X (clusters s') i = Some p" "p < length (heap s')"
    "k \<noteq> i \<Longrightarrow> x_Load X (clusters s') k = x_Load X (clusters s) k"
    "x_Load X (clusters s) i = Some q \<Longrightarrow> p = q \<and> s' = s"
    "x_Load X (clusters s) i = None \<Longrightarrow> p = length (heap s) \<and> heap s' = heap s @ [NewCluster now i]"
    using assms new L state_invD(1) [OF assms(1), of i]
    by (auto simp: ClusterFor_def Load_Store split: option.splits)
qed

lemma state_inv_delete: "state_inv X s \<Longrightarrow> state_inv X (s\<lparr>clusters := x_Delete X (clusters s) k\<rparr>)"
  by (auto simp: state_inv_def Load_Delete split: if_splits)

text \<open>One visit of the cleanup.\<close>

lemma cleanup_visit:
  assumes "state_inv X s" and "range_order so" and "x_Load X (clusters s) i = Some p"
  obtains c s2 where "Prune so ao (at_prune clk i) (at_close clk i) (heap s ! p) = Some c"
    and "cleanup_loop X so ao clk ((i, p) # es) s = cleanup_loop X so ao clk es s2"
    and "state_inv X s2" and "heap s2 = (heap s)[p := c]"
    and "x_Load X (clusters s2) i = (if IsExpired (at_check clk i) c \<and> IsEmpty c then None else Some p)"
    and "\<And>k. k \<noteq> i \<Longrightarrow> x_Load X (clusters s2) k = x_Load X (clusters s) k"
proof -
  have p: "p < length (heap s)" "cluster_inv (heap s ! p)"
    using state_invD [OF assms(1)] assms(3) by blast+
  from Prune_total [OF p(2) assms(2), of ao "at_prune clk i" "at_close clk i"] obtain c where
    c: "Prune so ao (at_prune clk i) (at_close clk i) (heap s ! p) = Some c" "cluster_inv c" by blast
  have "state_inv X (s\<lparr>heap := (heap s)[p := c]\<rparr>)"
    by (rule state_inv_write [OF assms(1) p(1) c(2) Prune_id [OF p(2) assms(2) c(1)]])
  then have inv: "state_inv X (s\<lparr>heap := (heap s)[p := c]\<rparr>)"
    "state_inv X (s\<lparr>heap := (heap s)[p := c], clusters := x_Delete X (clusters s) i\<rparr>)"
    using state_inv_delete [of "s\<lparr>heap := (heap s)[p := c]\<rparr>" i] by simp_all
  show ?thesis
    by (rule that [OF c(1), of "if IsExpired (at_check clk i) c \<and> IsEmpty c
          then s\<lparr>heap := (heap s)[p := c], clusters := x_Delete X (clusters s) i\<rparr>
          else s\<lparr>heap := (heap s)[p := c]\<rparr>"])
      (use inv c(1) assms(3) in \<open>auto simp: Load_Delete\<close>)
qed

definition cleaned :: "(uint64 list \<Rightarrow> uint64 list) \<Rightarrow> (string list \<Rightarrow> string list) \<Rightarrow> cleanup_clock \<Rightarrow>
    'm State \<Rightarrow> 'm State \<Rightarrow> string \<Rightarrow> nat \<Rightarrow> bool" where
  "cleaned so ao clk s s' i p \<longleftrightarrow>
     Prune so ao (at_prune clk i) (at_close clk i) (heap s ! p) = Some (heap s' ! p) \<and>
     x_Load X (clusters s') i =
       (if IsExpired (at_check clk i) (heap s' ! p) \<and> IsEmpty (heap s' ! p) then None else Some p)"

lemma cleanedD:
  assumes "cleaned so ao clk s s' i p"
  shows "Prune so ao (at_prune clk i) (at_close clk i) (heap s ! p) = Some (heap s' ! p)"
    and "x_Load X (clusters s') i =
       (if IsExpired (at_check clk i) (heap s' ! p) \<and> IsEmpty (heap s' ! p) then None else Some p)"
  using assms by (simp_all add: cleaned_def)

lemma cleanup_loop_total:
  assumes "range_order so"
  shows "state_inv X s \<Longrightarrow> distinct (keys es) \<Longrightarrow> distinct (map snd es) \<Longrightarrow>
    \<forall>(i, p) \<in> set es. x_Load X (clusters s) i = Some p \<Longrightarrow>
    \<exists>s'. cleanup_loop X so ao clk es s = Some s' \<and> state_inv X s' \<and>
      (\<forall>(i, p) \<in> set es. cleaned so ao clk s s' i p) \<and>
      (\<forall>k. k \<notin> set (keys es) \<longrightarrow> x_Load X (clusters s') k = x_Load X (clusters s) k) \<and>
      (\<forall>p. p \<notin> set (map snd es) \<longrightarrow> heap s' ! p = heap s ! p)"
proof (induction es arbitrary: s)
  case (Cons e es)
  obtain i p where e: "e = (i, p)" by force
  with Cons.prems have load: "x_Load X (clusters s) i = Some p" by simp
  have p: "p < length (heap s)" using state_invD(1) [OF Cons.prems(1) load] by simp
  obtain c s2 where v: "Prune so ao (at_prune clk i) (at_close clk i) (heap s ! p) = Some c"
    "cleanup_loop X so ao clk ((i, p) # es) s = cleanup_loop X so ao clk es s2"
    "state_inv X s2" "heap s2 = (heap s)[p := c]"
    "x_Load X (clusters s2) i = (if IsExpired (at_check clk i) c \<and> IsEmpty c then None else Some p)"
    "\<And>k. k \<noteq> i \<Longrightarrow> x_Load X (clusters s2) k = x_Load X (clusters s) k"
    using cleanup_visit [OF Cons.prems(1) assms load, of ao clk es] by blast
  have fresh: "i \<notin> set (keys es)" "p \<notin> set (map snd es)" using Cons.prems(2,3) e by auto
  have "\<forall>(j, q) \<in> set es. x_Load X (clusters s2) j = Some q"
  proof clarify
    fix j q assume m: "(j, q) \<in> set es"
    then have "j \<noteq> i" using fresh(1) by force
    with m Cons.prems(4) v(6) [of j] show "x_Load X (clusters s2) j = Some q" by auto
  qed
  moreover have "distinct (keys es)" "distinct (map snd es)" using Cons.prems(2,3) by simp_all
  ultimately obtain s' where s': "cleanup_loop X so ao clk es s2 = Some s'" "state_inv X s'"
    "\<forall>(j, q) \<in> set es. cleaned so ao clk s2 s' j q"
    "\<forall>k. k \<notin> set (keys es) \<longrightarrow> x_Load X (clusters s') k = x_Load X (clusters s2) k"
    "\<forall>q. q \<notin> set (map snd es) \<longrightarrow> heap s' ! q = heap s2 ! q"
    using Cons.IH [OF v(3)] by blast
  have same: "q \<noteq> p \<Longrightarrow> heap s2 ! q = heap s ! q" for q by (simp add: v(4))
  have "cleaned so ao clk s s' i p"
    using v(1,4,5) s'(4,5) fresh p by (auto simp: cleaned_def)
  moreover have "\<forall>(j, q) \<in> set es. cleaned so ao clk s s' j q"
  proof clarify
    fix j q assume m: "(j, q) \<in> set es"
    then have "q \<noteq> p" using fresh(2) by force
    with m s'(3) same [of q] show "cleaned so ao clk s s' j q" by (auto simp: cleaned_def)
  qed
  ultimately show ?case
    using s'(1,2,4,5) v(2,6) same e
    by (intro exI [of _ s']) auto
qed simp

lemma cleanup_loop_length: "cleanup_loop X so ao clk es s = Some s' \<Longrightarrow> length (heap s') = length (heap s)"
  by (induction es arbitrary: s) (fastforce simp: Let_def split: option.splits if_splits)+

lemma Range_pointers:
  assumes "state_inv X s"
  shows "distinct (map snd (x_Range X (clusters s)))"
    and "(i, p) \<in> set (x_Range X (clusters s)) \<longleftrightarrow> x_Load X (clusters s) i = Some p"
proof -
  show mem: "(i, p) \<in> set (x_Range X (clusters s)) \<longleftrightarrow> x_Load X (clusters s) i = Some p" for i p
    by (simp add: map_of_in_set [OF Range_keys] Range_Load)
  have "inj_on snd (set (x_Range X (clusters s)))"
    by (rule inj_onI) (use mem state_invD(1) [OF assms] in \<open>metis prod.collapse\<close>)
  moreover have "distinct (x_Range X (clusters s))"
    using Range_keys [of "clusters s"] by (simp add: distinct_map)
  ultimately show "distinct (map snd (x_Range X (clusters s)))" by (simp add: distinct_map)
qed

lemma Cleanup_total:
  assumes "state_inv X s" and "range_order so"
  shows "\<exists>s'. Cleanup X so ao clk s = Some s' \<and> state_inv X s' \<and>
    (\<forall>i p. x_Load X (clusters s) i = Some p \<longrightarrow> cleaned so ao clk s s' i p) \<and>
    (\<forall>k. x_Load X (clusters s) k = None \<longrightarrow> x_Load X (clusters s') k = None) \<and>
    length (heap s') = length (heap s) \<and>
    (\<forall>p. (\<forall>i. x_Load X (clusters s) i \<noteq> Some p) \<longrightarrow> heap s' ! p = heap s ! p)"
proof -
  let ?es = "x_Range X (clusters s)"
  have mem: "(i, p) \<in> set ?es \<longleftrightarrow> x_Load X (clusters s) i = Some p" for i p
    by (rule Range_pointers(2) [OF assms(1)])
  then have "\<forall>(i, p) \<in> set ?es. x_Load X (clusters s) i = Some p" by blast
  from cleanup_loop_total [OF assms(2,1) Range_keys Range_pointers(1) [OF assms(1)] this, of ao clk]
  obtain s' where s': "cleanup_loop X so ao clk ?es s = Some s'" "state_inv X s'"
    "\<forall>(i, p) \<in> set ?es. cleaned so ao clk s s' i p"
    "\<forall>k. k \<notin> set (keys ?es) \<longrightarrow> x_Load X (clusters s') k = x_Load X (clusters s) k"
    "\<forall>p. p \<notin> set (map snd ?es) \<longrightarrow> heap s' ! p = heap s ! p"
    by blast
  have "x_Load X (clusters s) k = None \<Longrightarrow> k \<notin> set (keys ?es)" for k
    using mem by auto
  moreover have "(\<forall>i. x_Load X (clusters s) i \<noteq> Some p) \<Longrightarrow> p \<notin> set (map snd ?es)" for p
    using mem by auto
  moreover have "x_Load X (clusters s) i = Some p \<Longrightarrow> cleaned so ao clk s s' i p" for i p
    using s'(3) mem by blast
  ultimately show ?thesis
    using s'(1,2,4,5) cleanup_loop_length [OF s'(1)] by (intro exI [of _ s']) (auto simp: Cleanup_def)
qed

end

section \<open>An implementation of the map\<close>

text \<open>Association lists satisfy the contract; the witnesses run on them.\<close>

definition alist_xsync :: "(string \<times> nat) list xsync" where
  "alist_xsync = \<lparr>x_NewMap = [], x_Load = map_of,
     x_LoadOrCompute = (\<lambda>m k v. case map_of m k of Some w \<Rightarrow> (m, w, True) | None \<Rightarrow> (AList.update k v m, v, False)),
     x_Store = (\<lambda>m k v. AList.update k v m), x_Delete = (\<lambda>m k. AList.delete k m),
     x_Range = AList.clearjunk\<rparr>"

interpretation axs: xsync_map alist_xsync
  by unfold_locales
    (simp_all add: alist_xsync_def distinct_clearjunk map_of_clearjunk split: option.split)

section \<open>Properties\<close>

text \<open>
  Looking up or creating a cluster. \<open>ClusterFor\<close> returns a cluster that later lookups of the
  same name find, an existing cluster is returned as it is and nothing changes, a missing one is
  created empty, calling it again returns the same cluster and changes nothing, and no other name
  is affected.
\<close>

theorem ClusterFor_get_or_create:
  assumes "xsync_map X" and "state_inv X s" and "ClusterFor X now i s = (p, s')"
  shows "state_inv X s' \<and> GetCluster X i s' = Some p \<and> ClusterFor X later i s' = (p, s') \<and>
    (\<forall>k. k \<noteq> i \<longrightarrow> GetCluster X k s' = GetCluster X k s) \<and>
    (if GetCluster X i s = None then heap s' = heap s @ [NewCluster now i] \<and> p = length (heap s)
     else s' = s \<and> GetCluster X i s = Some p)"
proof -
  note C = xsync_map.ClusterFor_cases [OF assms]
  have "ClusterFor X later i s' = (p, s')"
    using C(2) xsync_map.LoadOrCompute [OF assms(1), of "clusters s'" i] by (simp add: ClusterFor_def)
  with C show ?thesis by (auto simp: GetCluster_def)
qed

theorem ClusterFor_get_or_create_witness:
  "GetCluster alist_xsync ''c'' (snd (ClusterFor alist_xsync 3 ''c'' (empty_state alist_xsync))) = Some 0"
proof -
  let ?r = "ClusterFor alist_xsync 3 ''c'' (empty_state alist_xsync)"
  have "?r = (fst ?r, snd ?r)" by simp
  from ClusterFor_get_or_create [OF axs.xsync_map_axioms axs.state_inv_empty this] show ?thesis
    by (simp add: GetCluster_def empty_state_def axs.Load_NewMap)
qed

lemma Prune_no_affiliates:
  assumes "affiliates c = []" and "range_order ao"
  shows "Prune so ao now t c = Some c"
proof -
  have "ao [] = []" using range_order_length [OF assms(2), of "[]"] by simp
  with assms(1) show ?thesis by (simp add: Prune_def pruneAffiliates_def)
qed

lemma IsEmpty_iff: "IsEmpty c \<longleftrightarrow> affiliates c = [] \<and> subscribers c = []"
  by (simp add: IsEmpty_def Let_def)

lemma affiliates_empty_iff:
  assumes "affs_inv (affiliates c)" and "range_order ao"
  shows "affiliates (fst (pruneAffiliates ao now c)) = [] \<longleftrightarrow>
    (\<forall>k a. map_of (affiliates c) k = Some a \<longrightarrow> aff_expiry a \<le> now)"
proof -
  have "affiliates (fst (pruneAffiliates ao now c)) = [] \<longleftrightarrow>
      (\<forall>k. map_of (affiliates (fst (pruneAffiliates ao now c))) k = None)"
    by (auto simp: map_of_eq_None_iff)
  then show ?thesis
    by (auto simp: pruneAffiliates_lookup [OF assms] split: option.splits if_splits)
qed

text \<open>
  C16: the cleanup. It always completes, prunes every cluster, and removes a cluster from the map
  exactly when all its affiliates have expired, it has no subscriber and its own 30 minutes are
  over; every other cluster stays under its name, and no cluster appears.
\<close>

theorem Cleanup_removes_only_dead:
  assumes "xsync_map X" and "state_inv X s" and "range_order so" and "range_order ao"
  shows "\<exists>s'. Cleanup X so ao clk s = Some s' \<and> state_inv X s' \<and>
    (\<forall>i p. GetCluster X i s = Some p \<longrightarrow>
       Prune so ao (at_prune clk i) (at_close clk i) (heap s ! p) = Some (heap s' ! p) \<and>
       GetCluster X i s' =
         (if (\<forall>k a. map_of (affiliates (heap s ! p)) k = Some a \<longrightarrow> aff_expiry a \<le> at_prune clk i) \<and>
             subscribers (heap s' ! p) = [] \<and> IsExpired (at_check clk i) (heap s' ! p)
          then None else Some p)) \<and>
    (\<forall>k. GetCluster X k s = None \<longrightarrow> GetCluster X k s' = None)"
proof -
  obtain s' where s': "Cleanup X so ao clk s = Some s'" "state_inv X s'"
    "\<forall>i p. x_Load X (clusters s) i = Some p \<longrightarrow> xsync_map.cleaned X so ao clk s s' i p"
    "\<forall>k. x_Load X (clusters s) k = None \<longrightarrow> x_Load X (clusters s') k = None"
    using xsync_map.Cleanup_total [OF assms(1,2,3), of ao clk] by blast
  have "GetCluster X i s' =
      (if (\<forall>k a. map_of (affiliates (heap s ! p)) k = Some a \<longrightarrow> aff_expiry a \<le> at_prune clk i) \<and>
          subscribers (heap s' ! p) = [] \<and> IsExpired (at_check clk i) (heap s' ! p) then None else Some p) \<and>
      Prune so ao (at_prune clk i) (at_close clk i) (heap s ! p) = Some (heap s' ! p)"
    if g: "GetCluster X i s = Some p" for i p
  proof -
    have c: "cluster_inv (heap s ! p)" using state_invD [OF assms(2)] g by (auto simp: GetCluster_def)
    then have affs: "affs_inv (affiliates (heap s ! p))" by (simp add: cluster_inv_def)
    have "xsync_map.cleaned X so ao clk s s' i p" using s'(3) g by (simp add: GetCluster_def)
    then have cl: "Prune so ao (at_prune clk i) (at_close clk i) (heap s ! p) = Some (heap s' ! p)"
      "x_Load X (clusters s') i =
         (if IsExpired (at_check clk i) (heap s' ! p) \<and> IsEmpty (heap s' ! p) then None else Some p)"
      by (rule xsync_map.cleanedD [OF assms(1)])+
    have "affiliates (heap s' ! p) = affiliates (fst (pruneAffiliates ao (at_prune clk i) (heap s ! p)))"
      using Prune_total [OF c assms(3), of ao "at_prune clk i" "at_close clk i"] cl(1) by auto
    then have "IsEmpty (heap s' ! p) \<longleftrightarrow>
        (\<forall>k a. map_of (affiliates (heap s ! p)) k = Some a \<longrightarrow> aff_expiry a \<le> at_prune clk i) \<and>
        subscribers (heap s' ! p) = []"
      using affiliates_empty_iff [OF affs assms(4), of "at_prune clk i"] by (simp add: IsEmpty_iff)
    with cl show ?thesis by (auto simp: GetCluster_def)
  qed
  with s' show ?thesis by (intro exI [of _ s']) (auto simp: GetCluster_def)
qed

text \<open>A state with one cluster, created at instant 0, for the witnesses.\<close>

definition demo_state :: "(string \<times> nat) list State" where
  "demo_state = snd (ClusterFor alist_xsync 0 ''c'' (empty_state alist_xsync))"

definition late_clock :: cleanup_clock where
  "late_clock = \<lparr>at_prune = (\<lambda>_. 1800000000001), at_close = (\<lambda>_. 1800000000001), at_check = (\<lambda>_. 1800000000001)\<rparr>"

lemma demo_state_inv: "state_inv alist_xsync demo_state"
  using axs.ClusterFor_cases(1) [OF axs.state_inv_empty, of 0 "''c''"] by (metis demo_state_def prod.collapse)

lemma demo_state_get: "GetCluster alist_xsync ''c'' demo_state = Some 0" "heap demo_state = [NewCluster 0 ''c'']"
  by (simp_all add: demo_state_def ClusterFor_def GetCluster_def alist_xsync_def empty_state_def)

theorem Cleanup_removes_only_dead_witness:
  "\<exists>s'. Cleanup alist_xsync rev rev late_clock demo_state = Some s' \<and> GetCluster alist_xsync ''c'' s' = None"
proof -
  obtain s' where s': "Cleanup alist_xsync rev rev late_clock demo_state = Some s'"
    "\<forall>i p. GetCluster alist_xsync i demo_state = Some p \<longrightarrow>
       Prune rev rev (at_prune late_clock i) (at_close late_clock i) (heap demo_state ! p) = Some (heap s' ! p) \<and>
       GetCluster alist_xsync i s' =
         (if (\<forall>k a. map_of (affiliates (heap demo_state ! p)) k = Some a \<longrightarrow> aff_expiry a \<le> at_prune late_clock i) \<and>
             subscribers (heap s' ! p) = [] \<and> IsExpired (at_check late_clock i) (heap s' ! p)
          then None else Some p)"
    using Cleanup_removes_only_dead [OF axs.xsync_map_axioms demo_state_inv range_order_rev range_order_rev] by blast
  note n = s'(2) [rule_format, OF demo_state_get(1)]
  have "heap s' ! 0 = NewCluster 0 ''c''"
    using n Prune_no_affiliates [OF NewCluster_simps(1) range_order_rev] by (simp add: demo_state_get(2))
  with n s'(1) show ?thesis
    by (intro exI [of _ s'])
      (simp add: demo_state_get(2) IsExpired_def late_clock_def NewCluster_def time_Add_def unix_nano_range_def)
qed

text \<open>
  C17: a cleanup between the lookup of a cluster and its use loses the update. When a request has
  obtained a cluster that is empty and past its 30 minutes, and the cleanup runs before the
  request applies its update, the update succeeds on a cluster that is no longer in the map: the
  caller gets no error, and no lookup finds the cluster.
\<close>

theorem cleanup_orphans_pending_update:
  assumes "xsync_map X" and "state_inv X s" and "range_order so" and "range_order ao"
    and "ClusterFor X now i s = (p, s)" and "IsEmpty (heap s ! p)" and "IsExpired (at_check clk i) (heap s ! p)"
    and "req_Endpoints req = []" and "req_Data req \<noteq> []"
  shows "\<exists>s1 c. Cleanup X so ao clk s = Some s1 \<and>
    UpdateAffiliate so now t req (heap s1 ! p) = Some (c, None) \<and>
    GetCluster X i (s1\<lparr>heap := (heap s1)[p := c]\<rparr>) = None"
proof -
  have load: "x_Load X (clusters s) i = Some p" "p < length (heap s)"
    by (fact xsync_map.ClusterFor_cases(2,3) [OF assms(1,2,5)])+
  obtain s1 where s1: "Cleanup X so ao clk s = Some s1" "state_inv X s1" "xsync_map.cleaned X so ao clk s s1 i p"
    using xsync_map.Cleanup_total [OF assms(1-3), of ao clk] load(1) by blast
  have c: "cluster_inv (heap s ! p)" by (rule state_invD(2) [OF assms(2) load(2)])
  have empty: "affiliates (heap s ! p) = []" using assms(6) by (simp add: IsEmpty_iff)
  have same: "heap s1 ! p = heap s ! p"
    using xsync_map.cleanedD(1) [OF assms(1) s1(3)] Prune_no_affiliates [OF empty assms(4)] by simp
  have gone: "x_Load X (clusters s1) i = None"
    using xsync_map.cleanedD(2) [OF assms(1) s1(3)] same assms(6,7) by simp
  obtain c' r where u: "UpdateAffiliate so now t req (heap s ! p) = Some (c', r)"
    using UpdateAffiliate_total [OF c assms(3), of now t req] by blast
  have "affs_inv (affiliates (heap s ! p))" using c by (simp add: cluster_inv_def)
  then have "r = None"
    using u empty assms(8) by (cases rule: updateAffiliateLocked_cases [where now = now and req = req])
      (auto simp: UpdateAffiliate_def rejected_def AffiliatesMax_def base_affiliate_def new_affiliate_def
        has_room_def split: option.splits)
  with u same gone s1(1) show ?thesis by (auto simp: GetCluster_def)
qed

theorem cleanup_orphans_pending_update_witness:
  "\<exists>s1 c. Cleanup alist_xsync rev rev late_clock demo_state = Some s1 \<and>
     UpdateAffiliate rev 1800000000000 1800000000002
       \<lparr>req_ID = ''n'', req_Data = [7], req_Endpoints = [], req_TTL = 9\<rparr> (heap s1 ! 0) = Some (c, None) \<and>
     GetCluster alist_xsync ''c'' (s1\<lparr>heap := (heap s1)[0 := c]\<rparr>) = None"
proof (rule cleanup_orphans_pending_update [OF axs.xsync_map_axioms demo_state_inv])
  show "ClusterFor alist_xsync 1800000000000 ''c'' demo_state = (0, demo_state)"
    by (simp add: demo_state_def ClusterFor_def alist_xsync_def empty_state_def)
  show "IsEmpty (heap demo_state ! 0)" by (simp add: demo_state_get IsEmpty_iff)
  show "IsExpired (at_check late_clock ''c'') (heap demo_state ! 0)"
    by (simp add: demo_state_get IsExpired_def late_clock_def NewCluster_def time_Add_def unix_nano_range_def)
qed simp_all


end
