(* ===== verification/Validation.thy ===== *)
theory Validation
  imports Affiliate "HOL-Library.Sublist"
begin

text \<open>
  Request validation (\<^verbatim>\<open>internal/server/validation.go\<close>) with the parts of Go's \<^verbatim>\<open>strings\<close>
  package it uses. A Go string is its UTF-8 bytes, so \<open>length\<close> is Go's \<^verbatim>\<open>len\<close>.
  \<^verbatim>\<open>strings.TrimSpace\<close> removes leading and trailing runes that Unicode calls white space; on the
  bytes these are the 25 encodings listed below. The gRPC status codes are the constants of the
  package \<^verbatim>\<open>codes\<close>.
\<close>

section \<open>Errors\<close>

datatype Code =
    OK | Canceled | Unknown | InvalidArgument | DeadlineExceeded | NotFound | AlreadyExists
  | PermissionDenied | ResourceExhausted | FailedPrecondition | Aborted | OutOfRange
  | Unimplemented | Internal | Unavailable | DataLoss | Unauthenticated

text \<open>
  The errors the server handles: a gRPC status, an error of the context package, and any other
  error with its message.
\<close>

datatype go_error = Status Code string | CtxCanceled | CtxDeadlineExceeded | Plain string

section \<open>White space\<close>

definition space_encodings :: "string list" where
  "space_encodings =
     [[CHR 0x09], [CHR 0x0A], [CHR 0x0B], [CHR 0x0C], [CHR 0x0D], [CHR 0x20],
      [CHR 0xC2, CHR 0x85], [CHR 0xC2, CHR 0xA0], [CHR 0xE1, CHR 0x9A, CHR 0x80],
      [CHR 0xE2, CHR 0x80, CHR 0x80], [CHR 0xE2, CHR 0x80, CHR 0x81], [CHR 0xE2, CHR 0x80, CHR 0x82],
      [CHR 0xE2, CHR 0x80, CHR 0x83], [CHR 0xE2, CHR 0x80, CHR 0x84], [CHR 0xE2, CHR 0x80, CHR 0x85],
      [CHR 0xE2, CHR 0x80, CHR 0x86], [CHR 0xE2, CHR 0x80, CHR 0x87], [CHR 0xE2, CHR 0x80, CHR 0x88],
      [CHR 0xE2, CHR 0x80, CHR 0x89], [CHR 0xE2, CHR 0x80, CHR 0x8A], [CHR 0xE2, CHR 0x80, CHR 0xA8],
      [CHR 0xE2, CHR 0x80, CHR 0xA9], [CHR 0xE2, CHR 0x80, CHR 0xAF], [CHR 0xE2, CHR 0x81, CHR 0x9F],
      [CHR 0xE3, CHR 0x80, CHR 0x80]]"

fun strip_one :: "string list \<Rightarrow> string \<Rightarrow> string option" where
  "strip_one [] s = None"
| "strip_one (w # ws) s = (if take (length w) s = w then Some (drop (length w) s) else strip_one ws s)"

function trim_left :: "string list \<Rightarrow> string \<Rightarrow> string" where
  "trim_left ws s =
     (case strip_one ws s of
        None \<Rightarrow> s
      | Some r \<Rightarrow> if length r < length s then trim_left ws r else s)"
  by pat_completeness auto
termination
  by (relation "measure (\<lambda>(ws, s). length s)") auto

declare trim_left.simps [simp del]

definition TrimSpace :: "string \<Rightarrow> string" where
  "TrimSpace s = rev (trim_left (map rev space_encodings) (rev (trim_left space_encodings s)))"

section \<open>Validation\<close>

definition ErrClusterIDEmpty :: go_error where
  "ErrClusterIDEmpty = Status InvalidArgument ''Cluster ID can't be empty''"

definition ErrClusterIDTooLong :: go_error where
  "ErrClusterIDTooLong = Status OutOfRange ''Cluster ID is too long''"

definition ErrAffiliateIDEmpty :: go_error where
  "ErrAffiliateIDEmpty = Status InvalidArgument ''Affiliate ID can't be empty''"

definition ErrAffiliateTTLEmpty :: go_error where
  "ErrAffiliateTTLEmpty = Status InvalidArgument ''Affiliate TTL can't be empty''"

definition ErrAffiliateIDTooLong :: go_error where
  "ErrAffiliateIDTooLong = Status OutOfRange ''Affiliate ID is too long''"

definition ErrAffiliateDataTooBig :: go_error where
  "ErrAffiliateDataTooBig = Status OutOfRange ''Affiliate data is too big''"

definition ErrAffiliateEndpointTooBig :: go_error where
  "ErrAffiliateEndpointTooBig = Status OutOfRange ''Affiliate endpoint is too big''"

definition ErrTTLTooLong :: go_error where
  "ErrTTLTooLong = Status OutOfRange ''TTL is too long''"

definition validateClusterID :: "string \<Rightarrow> go_error option" where
  "validateClusterID clusterId =
     (if TrimSpace clusterId = '''' then Some ErrClusterIDEmpty
      else if ClusterIDMax < length clusterId then Some ErrClusterIDTooLong
      else None)"

definition validateAffiliateID :: "string \<Rightarrow> go_error option" where
  "validateAffiliateID affiliateId =
     (if TrimSpace affiliateId = '''' then Some ErrAffiliateIDEmpty
      else if AffiliateIDMax < length affiliateId then Some ErrAffiliateIDTooLong
      else None)"

definition validateAffiliateData :: "bytes \<Rightarrow> go_error option" where
  "validateAffiliateData d = (if AffiliateDataMax < length d then Some ErrAffiliateDataTooBig else None)"

fun validateAffiliateEndpoints :: "bytes list \<Rightarrow> go_error option" where
  "validateAffiliateEndpoints [] = None"
| "validateAffiliateEndpoints (e # es) =
     (if AffiliateEndpointMax < length e then Some ErrAffiliateEndpointTooBig
      else validateAffiliateEndpoints es)"

definition validateTTL :: "duration \<Rightarrow> go_error option" where
  "validateTTL ttl = (if sint ttl > sint TTLMax then Some ErrTTLTooLong else None)"

text \<open>
  The TTL of a request is a \<^verbatim>\<open>*durationpb.Duration\<close> of the protobuf package; its conversion
  \<^verbatim>\<open>AsDuration\<close> is the parameter \<open>AsDuration\<close>.
\<close>

definition validateAffiliateTTL :: "('d \<Rightarrow> duration) \<Rightarrow> 'd option \<Rightarrow> go_error option" where
  "validateAffiliateTTL AsDuration ttl =
     (case ttl of None \<Rightarrow> Some ErrAffiliateTTLEmpty | Some d \<Rightarrow> validateTTL (AsDuration d))"

section \<open>TrimSpace\<close>

text \<open>A blank string is a sequence of encoded white space.\<close>

definition blank_over :: "string list \<Rightarrow> string \<Rightarrow> bool" where
  "blank_over ws s \<longleftrightarrow> (\<exists>es. set es \<subseteq> set ws \<and> s = concat es)"

definition prefix_code :: "string list \<Rightarrow> bool" where
  "prefix_code ws \<longleftrightarrow> [] \<notin> set ws \<and> (\<forall>a \<in> set ws. \<forall>b \<in> set ws. prefix a b \<longrightarrow> a = b)"

lemma prefix_code_spaces: "prefix_code space_encodings"
  by (simp add: prefix_code_def space_encodings_def)

lemma take_prefix_iff: "take (length w) s = w \<longleftrightarrow> prefix w s"
  by (metis append_eq_conv_conj prefix_def take_is_prefix)

lemma strip_one_Some: "strip_one ws s = Some r \<Longrightarrow> \<exists>w \<in> set ws. s = w @ r"
proof (induction ws)
  case (Cons w ws)
  show ?case
  proof (cases "take (length w) s = w")
    case True
    then have "s = w @ drop (length w) s" by (metis append_take_drop_id)
    with True Cons.prems show ?thesis by auto
  next
    case False
    with Cons show ?thesis by auto
  qed
qed simp

lemma strip_one_None: "strip_one ws s = None \<longleftrightarrow> (\<forall>w \<in> set ws. \<not> prefix w s)"
  by (induction ws) (simp_all add: take_prefix_iff)

lemma strip_one_code:
  assumes "prefix_code ws" and "w \<in> set ws"
  shows "strip_one ws (w @ s) = Some s"
proof -
  have "strip_one ws (w @ s) \<noteq> None" unfolding strip_one_None using assms(2) prefixI by blast
  then obtain r where r: "strip_one ws (w @ s) = Some r" by blast
  then obtain v where v: "v \<in> set ws" "w @ s = v @ r" using strip_one_Some by blast
  then have "prefix v w \<or> prefix w v" by (metis prefixI prefix_same_cases)
  with assms v(1) have "v = w" by (auto simp: prefix_code_def)
  with v(2) r show ?thesis by simp
qed

lemma trim_left_word:
  assumes "prefix_code ws" and "w \<in> set ws"
  shows "trim_left ws (w @ s) = trim_left ws s"
proof -
  have "w \<noteq> []" using assms by (auto simp: prefix_code_def)
  then show ?thesis by (subst trim_left.simps) (simp add: strip_one_code [OF assms])
qed

lemma trim_left_blank: "prefix_code ws \<Longrightarrow> set es \<subseteq> set ws \<Longrightarrow> trim_left ws (concat es) = trim_left ws []"
  by (induction es) (simp_all add: trim_left_word)

lemma trim_left_Nil: "prefix_code ws \<Longrightarrow> trim_left ws [] = []"
  by (subst trim_left.simps) (auto simp: strip_one_None prefix_code_def split: option.splits)

text \<open>The result of trimming starts with no white space, and only white space was removed.\<close>

lemma trim_left_spec:
  "prefix_code ws \<Longrightarrow>
     (\<exists>es. set es \<subseteq> set ws \<and> s = concat es @ trim_left ws s) \<and> (\<forall>w \<in> set ws. \<not> prefix w (trim_left ws s))"
proof (induction ws s rule: trim_left.induct)
  case (1 ws s)
  show ?case
  proof (cases "strip_one ws s")
    case None
    then have "trim_left ws s = s" by (subst trim_left.simps) simp
    with None show ?thesis by (auto simp: strip_one_None intro: exI [of _ "[]"])
  next
    case (Some r)
    then obtain w where w: "w \<in> set ws" "s = w @ r" using strip_one_Some by blast
    with "1.prems" have "length r < length s" by (auto simp: prefix_code_def)
    with "1.IH" [OF Some this "1.prems"] obtain es where
      "set es \<subseteq> set ws" "r = concat es @ trim_left ws r" "\<forall>v \<in> set ws. \<not> prefix v (trim_left ws r)" by blast
    moreover have "trim_left ws s = trim_left ws r" using w trim_left_word [OF "1.prems"] by simp
    ultimately show ?thesis using w by (intro conjI exI [of _ "w # es"]) auto
  qed
qed

lemma trim_left_empty_iff: "prefix_code ws \<Longrightarrow> trim_left ws s = [] \<longleftrightarrow> blank_over ws s"
  using trim_left_spec [of ws s] trim_left_blank [of ws] trim_left_Nil [of ws]
  by (auto simp: blank_over_def)

lemma blank_rev: "blank_over (map rev ws) (rev s) \<longleftrightarrow> blank_over ws s"
proof -
  have one: "blank_over (map rev vs) (rev u)" if b: "blank_over vs u" for vs :: "string list" and u
  proof -
    from b obtain es where es: "set es \<subseteq> set vs" "u = concat es" by (auto simp: blank_over_def)
    have "rev (concat es) = concat (rev (map rev es))" by (simp add: rev_concat rev_map)
    with es show ?thesis unfolding blank_over_def by (intro exI [of _ "rev (map rev es)"]) auto
  qed
  show ?thesis using one [of ws s] one [of "map rev ws" "rev s"] by (auto simp: comp_def)
qed

lemma prefix_code_rev_spaces: "prefix_code (map rev space_encodings)"
  by (simp add: prefix_code_def space_encodings_def)

lemma TrimSpace_empty_iff: "TrimSpace s = [] \<longleftrightarrow> blank_over space_encodings s"
proof
  assume "TrimSpace s = []"
  then have "blank_over (map rev space_encodings) (rev (trim_left space_encodings s))"
    by (simp add: TrimSpace_def trim_left_empty_iff [OF prefix_code_rev_spaces])
  then have "blank_over space_encodings (trim_left space_encodings s)" by (simp add: blank_rev)
  then obtain es where es: "set es \<subseteq> set space_encodings" "trim_left space_encodings s = concat es"
    by (auto simp: blank_over_def)
  have "es = []"
  proof (rule ccontr)
    assume "es \<noteq> []"
    then obtain w vs where "es = w # vs" by (cases es) auto
    with es trim_left_spec [OF prefix_code_spaces, of s] show False by auto
  qed
  with es show "blank_over space_encodings s"
    by (simp add: trim_left_empty_iff [OF prefix_code_spaces, symmetric])
next
  assume "blank_over space_encodings s"
  then have "trim_left space_encodings s = []" by (simp add: trim_left_empty_iff [OF prefix_code_spaces])
  then show "TrimSpace s = []" by (simp add: TrimSpace_def trim_left_Nil [OF prefix_code_rev_spaces])
qed

text \<open>Trimming leaves a text alone that starts and ends with no byte of a white-space encoding.\<close>

definition ink :: "string \<Rightarrow> bool" where
  "ink s \<longleftrightarrow> s \<noteq> [] \<and> hd s \<notin> hd ` set space_encodings \<and> last s \<notin> last ` set space_encodings"

lemma trim_left_stop: "s \<noteq> [] \<Longrightarrow> hd s \<notin> hd ` set ws \<Longrightarrow> [] \<notin> set ws \<Longrightarrow> trim_left ws s = s"
proof -
  assume s: "s \<noteq> []" "hd s \<notin> hd ` set ws" "[] \<notin> set ws"
  have "strip_one ws s = None" unfolding strip_one_None
  proof (intro ballI notI)
    fix w assume w: "w \<in> set ws" "prefix w s"
    then obtain r where "s = w @ r" "w \<noteq> []" using s(3) by (auto simp: prefix_def)
    then have "hd w = hd s" by simp
    with s(2) w(1) show False by (metis imageI)
  qed
  then show ?thesis by (subst trim_left.simps) simp
qed

lemma trim_left_blanks:
  "prefix_code ws \<Longrightarrow> set es \<subseteq> set ws \<Longrightarrow> trim_left ws (concat es @ s) = trim_left ws s"
  by (induction es) (simp_all add: trim_left_word)

lemma TrimSpace_surrounded:
  assumes "ink s" and "set es \<subseteq> set space_encodings" and "set fs \<subseteq> set space_encodings"
  shows "TrimSpace (concat es @ s @ concat fs) = s"
proof -
  have ne: "[] \<notin> set space_encodings" using prefix_code_spaces by (simp add: prefix_code_def)
  have s: "s \<noteq> []" using assms(1) by (simp add: ink_def)
  have "trim_left space_encodings (s @ concat fs) = s @ concat fs"
    by (rule trim_left_stop) (use assms(1) ne in \<open>auto simp: ink_def\<close>)
  then have 1: "trim_left space_encodings (concat es @ s @ concat fs) = s @ concat fs"
    by (simp add: trim_left_blanks [OF prefix_code_spaces assms(2)])
  have hd: "hd (rev s) \<notin> hd ` set (map rev space_encodings)"
    using assms(1) ne by (auto simp: ink_def hd_rev image_iff)
  have "trim_left (map rev space_encodings) (rev s) = rev s"
    by (rule trim_left_stop) (use s hd ne in auto)
  moreover have "set (map rev (rev fs)) \<subseteq> set (map rev space_encodings)" using assms(3) by auto
  moreover have "rev (concat fs) = concat (map rev (rev fs))" by (simp add: rev_concat rev_map)
  ultimately have "trim_left (map rev space_encodings) (rev (concat fs) @ rev s) = rev s"
    using trim_left_blanks [OF prefix_code_rev_spaces] by metis
  with 1 show ?thesis by (simp add: TrimSpace_def)
qed

end
