(* ===== verification/Netip.thy ===== *)
theory Netip
  imports Validation
begin

text \<open>
  The parsers of Go's standard package \<^verbatim>\<open>net/netip\<close> that the server applies to client addresses:
  \<^verbatim>\<open>ParseAddr\<close> (dotted quads, and IPv6 with ellipsis, embedded IPv4 and zone) and \<^verbatim>\<open>ParseAddrPort\<close>.
  A parse error is \<open>None\<close>: the server never looks at the message. The theorems here say that
  parsing inverts printing of dotted quads and that an address has 4 or 16 bytes.
\<close>

section \<open>Addresses\<close>

datatype Addr = NoAddr | V4 bytes | V6 bytes string

definition IsValid :: "Addr \<Rightarrow> bool" where
  "IsValid a \<longleftrightarrow> a \<noteq> NoAddr"

fun AsSlice :: "Addr \<Rightarrow> bytes" where
  "AsSlice NoAddr = []"
| "AsSlice (V4 b) = b"
| "AsSlice (V6 b zone) = b"

section \<open>Digits\<close>

definition digit_val :: "char \<Rightarrow> nat option" where
  "digit_val c = (let n = of_char c :: nat in if 48 \<le> n \<and> n \<le> 57 then Some (n - 48) else None)"

definition hex_val :: "char \<Rightarrow> nat option" where
  "hex_val c = (let n = of_char c :: nat in
     if 48 \<le> n \<and> n \<le> 57 then Some (n - 48)
     else if 97 \<le> n \<and> n \<le> 102 then Some (n - 97 + 10)
     else if 65 \<le> n \<and> n \<le> 70 then Some (n - 65 + 10) else None)"

section \<open>IPv4\<close>

text \<open>
  The loop of \<^verbatim>\<open>parseIPv4Fields\<close>: the previous character, the value and the number of digits of the
  current field, the finished fields, the rest of the input.
\<close>

fun parseIPv4Fields :: "char option \<Rightarrow> nat \<Rightarrow> nat \<Rightarrow> bytes \<Rightarrow> string \<Rightarrow> bytes option" where
  "parseIPv4Fields prev val digLen flds [] =
     (if length flds < 3 then None else Some (flds @ [word_of_nat val]))"
| "parseIPv4Fields prev val digLen flds (c # s) =
     (case digit_val c of
        Some d \<Rightarrow>
          if digLen = 1 \<and> val = 0 then None
          else if val * 10 + d > 255 then None
          else parseIPv4Fields (Some c) (val * 10 + d) (Suc digLen) flds s
      | None \<Rightarrow>
          if c = CHR ''.''
          then (if prev = None \<or> s = [] \<or> prev = Some (CHR ''.'') then None
                else if length flds = 3 then None
                else parseIPv4Fields (Some c) 0 0 (flds @ [word_of_nat val]) s)
          else None)"

definition parseIPv4 :: "string \<Rightarrow> Addr option" where
  "parseIPv4 s = map_option V4 (parseIPv4Fields None 0 0 [] s)"

section \<open>IPv6\<close>

fun hex_run :: "nat \<Rightarrow> nat \<Rightarrow> string \<Rightarrow> (nat \<times> nat \<times> string) option" where
  "hex_run off acc [] = Some (off, acc, [])"
| "hex_run off acc (c # s) =
     (case hex_val c of
        None \<Rightarrow> Some (off, acc, c # s)
      | Some h \<Rightarrow>
          if 3 < off then None
          else if 65535 < acc * 16 + h then None
          else hex_run (Suc off) (acc * 16 + h) s)"

text \<open>
  One round of the loop over the groups, from the bytes so far, the position of the ellipsis and
  the rest of the input: it fails, leaves the loop, or goes on.
\<close>

datatype group_result =
    Bad | Leave bytes "nat option" string | Next bytes "nat option" string

definition after_group :: "bytes \<Rightarrow> nat option \<Rightarrow> string \<Rightarrow> group_result" where
  "after_group ip ell rest =
     (case rest of
        [] \<Rightarrow> Leave ip ell []
      | c # s \<Rightarrow>
          if c \<noteq> CHR '':'' \<or> s = [] then Bad
          else if hd s \<noteq> CHR '':'' then Next ip ell s
          else if ell \<noteq> None then Bad
          else if tl s = [] then Leave ip (Some (length ip)) []
          else Next ip (Some (length ip)) (tl s))"

definition parse_group :: "bytes \<Rightarrow> nat option \<Rightarrow> string \<Rightarrow> group_result" where
  "parse_group ip ell s =
     (case hex_run 0 0 s of
        None \<Rightarrow> Bad
      | Some (off, acc, rest) \<Rightarrow>
          if off = 0 then Bad
          else if take 1 rest = ''.''
          then (if ell = None \<and> length ip \<noteq> 12 then Bad
                else if 16 < length ip + 4 then Bad
                else (case parseIPv4Fields None 0 0 [] s of
                        None \<Rightarrow> Bad | Some f \<Rightarrow> Leave (ip @ f) ell []))
          else after_group (ip @ [word_of_nat (acc div 256), word_of_nat acc]) ell rest)"

lemma parse_group_Next: "parse_group ip ell s = Next ip' ell' s' \<Longrightarrow> length ip' = length ip + 2"
  by (auto simp: parse_group_def after_group_def split: option.splits prod.splits list.splits if_splits)

function parse_groups :: "bytes \<Rightarrow> nat option \<Rightarrow> string \<Rightarrow> (bytes \<times> nat option \<times> string) option" where
  "parse_groups ip ell s =
     (if \<not> length ip < 16 then Some (ip, ell, s)
      else case parse_group ip ell s of
        Bad \<Rightarrow> None
      | Leave ip' ell' s' \<Rightarrow> Some (ip', ell', s')
      | Next ip' ell' s' \<Rightarrow> parse_groups ip' ell' s')"
  by pat_completeness auto
termination
  by (relation "measure (\<lambda>(ip, ell, s). 16 - length ip)") (auto dest: parse_group_Next)

declare parse_groups.simps [simp del]

definition expand_ellipsis :: "bytes \<Rightarrow> nat option \<Rightarrow> bytes option" where
  "expand_ellipsis ip ell =
     (case ell of
        None \<Rightarrow> if length ip < 16 then None else Some ip
      | Some e \<Rightarrow> if length ip < 16 then Some (take e ip @ replicate (16 - length ip) 0 @ drop e ip) else None)"

definition split_zone :: "string \<Rightarrow> string \<times> string option" where
  "split_zone s =
     (let a = takeWhile (\<lambda>c. c \<noteq> CHR ''%'') s in
      (a, if length a = length s then None else Some (drop (Suc (length a)) s)))"

definition parseIPv6 :: "string \<Rightarrow> Addr option" where
  "parseIPv6 input =
     (case split_zone input of (s, zone) \<Rightarrow>
        if zone = Some [] then None
        else (let z = (case zone of None \<Rightarrow> [] | Some z \<Rightarrow> z);
                  lead = take 2 s = ''::'';
                  s1 = (if lead then drop 2 s else s) in
              if lead \<and> s1 = [] then Some (V6 (replicate 16 0) z)
              else (case parse_groups [] (if lead then Some 0 else None) s1 of
                      None \<Rightarrow> None
                    | Some (ip, ell, rest) \<Rightarrow>
                        if rest \<noteq> [] then None
                        else map_option (\<lambda>b. V6 b z) (expand_ellipsis ip ell))))"

fun first_mark :: "string \<Rightarrow> char option" where
  "first_mark [] = None"
| "first_mark (c # s) = (if c \<in> {CHR ''.'', CHR '':'', CHR ''%''} then Some c else first_mark s)"

definition ParseAddr :: "string \<Rightarrow> Addr option" where
  "ParseAddr s =
     (if first_mark s = Some (CHR ''.'') then parseIPv4 s
      else if first_mark s = Some (CHR '':'') then parseIPv6 s
      else None)"

section \<open>Address and port\<close>

text \<open>\<^verbatim>\<open>strconv.ParseUint(port, 10, 16)\<close>.\<close>

fun parse_digits :: "nat \<Rightarrow> string \<Rightarrow> nat option" where
  "parse_digits n [] = Some n"
| "parse_digits n (c # s) = (case digit_val c of None \<Rightarrow> None | Some d \<Rightarrow> parse_digits (n * 10 + d) s)"

definition ParseUint16 :: "string \<Rightarrow> nat option" where
  "ParseUint16 s =
     (if s = [] then None
      else case parse_digits 0 s of None \<Rightarrow> None | Some n \<Rightarrow> if n < 65536 then Some n else None)"

definition splitAddrPort :: "string \<Rightarrow> (string \<times> string \<times> bool) option" where
  "splitAddrPort s =
     (if CHR '':'' \<notin> set s then None
      else let port = rev (takeWhile (\<lambda>c. c \<noteq> CHR '':'') (rev s));
               ip = take (length s - Suc (length port)) s in
           if ip = [] \<or> port = [] then None
           else if hd ip = CHR ''[''
           then (if length ip < 2 \<or> last ip \<noteq> CHR '']'' then None else Some (butlast (tl ip), port, True))
           else Some (ip, port, False))"

definition ParseAddrPort :: "string \<Rightarrow> (Addr \<times> nat) option" where
  "ParseAddrPort s =
     (case splitAddrPort s of
        None \<Rightarrow> None
      | Some (ip, port, v6) \<Rightarrow>
          (case ParseUint16 port of
             None \<Rightarrow> None
           | Some p \<Rightarrow>
               (case ParseAddr ip of
                  None \<Rightarrow> None
                | Some (V4 b) \<Rightarrow> if v6 then None else Some (V4 b, p)
                | Some (V6 b z) \<Rightarrow> if v6 then Some (V6 b z, p) else None
                | Some NoAddr \<Rightarrow> None)))"

section \<open>Widths\<close>

lemma parseIPv4Fields_length:
  "parseIPv4Fields prev val dig flds s = Some b \<Longrightarrow> length flds \<le> 3 \<Longrightarrow> length b = 4"
  by (induction prev val dig flds s rule: parseIPv4Fields.induct) (auto split: if_splits option.splits)

lemma parse_group_Leave: "parse_group ip ell s = Leave ip' ell' s' \<Longrightarrow> length ip < 16 \<Longrightarrow> even (length ip) \<Longrightarrow> length ip' \<le> 16"
  by (auto simp: parse_group_def after_group_def dest: parseIPv4Fields_length
      split: option.splits prod.splits list.splits if_splits)

lemma parse_groups_length:
  "parse_groups ip ell s = Some (ip', ell', r) \<Longrightarrow> length ip \<le> 16 \<Longrightarrow> even (length ip) \<Longrightarrow> length ip' \<le> 16"
proof (induction ip ell s rule: parse_groups.induct)
  case (1 ip ell s)
  show ?case
  proof (cases "length ip < 16")
    case True
    then have e: "length ip + 2 \<le> 16" using "1.prems"(3) by presburger
    show ?thesis
    proof (cases "parse_group ip ell s")
      case (Next jp el r')
      with "1.IH" [OF _ Next] True parse_group_Next [OF Next] e "1.prems" show ?thesis
        by (simp add: parse_groups.simps [of ip ell s])
    next
      case (Leave jp el r')
      with True parse_group_Leave [OF Leave] "1.prems" show ?thesis by (simp add: parse_groups.simps [of ip ell s])
    qed (use True "1.prems" in \<open>simp add: parse_groups.simps [of ip ell s]\<close>)
  qed (use "1.prems" in \<open>simp add: parse_groups.simps [of ip ell s]\<close>)
qed

text \<open>The ellipsis lies inside the bytes that have been read.\<close>

lemma parse_groups_ellipsis:
  "parse_groups ip ell s = Some (ip', ell', r) \<Longrightarrow> (\<forall>e. ell = Some e \<longrightarrow> e \<le> length ip) \<Longrightarrow>
     ell' = Some e \<Longrightarrow> e \<le> length ip'"
proof (induction ip ell s rule: parse_groups.induct)
  case (1 ip ell s)
  have step: "parse_group ip ell s = Next jp el r' \<or> parse_group ip ell s = Leave jp el r' \<Longrightarrow>
      \<forall>e. el = Some e \<longrightarrow> e \<le> length jp" for jp el r'
    using "1.prems"(2)
    by (auto simp: parse_group_def after_group_def split: option.splits prod.splits list.splits if_splits)
  show ?case
  proof (cases "length ip < 16")
    case True
    show ?thesis
    proof (cases "parse_group ip ell s")
      case (Next jp el r')
      with "1.IH" [OF _ Next _ step] True "1.prems" show ?thesis
        by (simp add: parse_groups.simps [of ip ell s])
    qed (use True step "1.prems" in \<open>auto simp add: parse_groups.simps [of ip ell s]\<close>)
  qed (use "1.prems" in \<open>simp add: parse_groups.simps [of ip ell s]\<close>)
qed

lemma expand_ellipsis_length:
  "expand_ellipsis ip ell = Some b \<Longrightarrow> length ip \<le> 16 \<Longrightarrow> (\<forall>e. ell = Some e \<longrightarrow> e \<le> length ip) \<Longrightarrow> length b = 16"
  by (auto simp: expand_ellipsis_def split: option.splits if_splits)

lemma ParseAddr_width:
  assumes "ParseAddr s = Some a"
  shows "IsValid a" and "length (AsSlice a) \<in> {4, 16}"
proof -
  have v6: "length b = 16" if "parse_groups [] st u = Some (ip, ell, [])"
    "expand_ellipsis ip ell = Some b" "st = None \<or> st = Some 0" for st u ip ell b
  proof (rule expand_ellipsis_length [OF that(2)])
    show "length ip \<le> 16" using parse_groups_length [OF that(1)] by simp
    show "\<forall>e. ell = Some e \<longrightarrow> e \<le> length ip" using parse_groups_ellipsis [OF that(1)] that(3) by auto
  qed
  show "IsValid a" "length (AsSlice a) \<in> {4, 16}"
    using assms by (auto dest: v6 simp: ParseAddr_def parseIPv4_def parseIPv6_def IsValid_def Let_def
        dest: parseIPv4Fields_length split: if_splits option.splits prod.splits)
qed

section \<open>Printing and parsing\<close>

definition digit_char :: "nat \<Rightarrow> char" where
  "digit_char d = char_of (48 + d)"

definition dec_byte :: "nat \<Rightarrow> string" where
  "dec_byte n =
     (if n < 10 then [digit_char n]
      else if n < 100 then [digit_char (n div 10), digit_char (n mod 10)]
      else [digit_char (n div 100), digit_char (n div 10 mod 10), digit_char (n mod 10)])"

definition dotted_quad :: "bytes \<Rightarrow> string" where
  "dotted_quad b = dec_byte (unat (b ! 0)) @ ''.'' @ dec_byte (unat (b ! 1)) @ ''.'' @
     dec_byte (unat (b ! 2)) @ ''.'' @ dec_byte (unat (b ! 3))"

lemma digit_val_char [simp]: "d < 10 \<Longrightarrow> digit_val (digit_char d) = Some d"
  by (simp add: digit_val_def digit_char_def Let_def)

lemma digit_val_dot [simp]: "digit_val (CHR ''.'') = None" "digit_val (CHR '':'') = None" "digit_val (CHR ''%'') = None"
  by (simp_all add: digit_val_def Let_def)

lemma digit_char_ne: "d < 10 \<Longrightarrow> digit_char d \<noteq> CHR ''.''" "d < 10 \<Longrightarrow> digit_char d \<noteq> CHR '':''"
  "d < 10 \<Longrightarrow> digit_char d \<noteq> CHR ''%''" "d < 10 \<Longrightarrow> digit_char d \<noteq> CHR ''[''"
  by (auto dest!: arg_cong [of _ _ "of_char :: char \<Rightarrow> nat"] simp: digit_char_def)

lemma dec_byte_parse:
  assumes "n < 256"
  obtains c k where "c \<noteq> CHR ''.''"
    "\<And>prev flds r. parseIPv4Fields prev 0 0 flds (dec_byte n @ r) = parseIPv4Fields (Some c) n k flds r"
proof -
  consider "n < 10" | "10 \<le> n" "n < 100" | "100 \<le> n" by linarith
  then show ?thesis
  proof cases
    case 1
    then show ?thesis by (intro that [of "digit_char n" "Suc 0"]) (auto simp: dec_byte_def digit_char_ne)
  next
    case 2
    then have "0 < n div 10" "n div 10 < 10" "n mod 10 < 10" "n div 10 * 10 + n mod 10 = n" by auto
    with 2 show ?thesis by (intro that [of "digit_char (n mod 10)" "Suc (Suc 0)"]) (auto simp: dec_byte_def digit_char_ne)
  next
    case 3
    have "n div 100 = n div 10 div 10" using div_mult2_eq [of n 10 10] by simp
    then have "n div 100 * 10 + n div 10 mod 10 = n div 10" by simp
    moreover have "0 < n div 100" "n div 100 < 10" "n div 10 mod 10 < 10" "n mod 10 < 10"
      "n div 10 * 10 + n mod 10 = n" "n div 10 \<le> 255" "0 < n div 10"
      using assms 3 by (auto simp: div_less_iff_less_mult div_greater_zero_iff)
    ultimately have a: "n div 100 * 10 + n div 10 mod 10 = n div 10" "0 < n div 100" "n div 100 < 10"
      "n div 10 mod 10 < 10" "n mod 10 < 10" "n div 10 * 10 + n mod 10 = n" "n div 10 \<le> 255" "0 < n div 10"
      by blast+
    with 3 assms show ?thesis
      by (intro that [of "digit_char (n mod 10)" "Suc (Suc (Suc 0))"]) (auto simp: dec_byte_def digit_char_ne)
  qed
qed

lemma dec_byte_digits: "n < 256 \<Longrightarrow> dec_byte n \<noteq> [] \<and> (\<forall>c \<in> set (dec_byte n). digit_val c \<noteq> None)"
  by (auto simp: dec_byte_def div_less_iff_less_mult)

lemma first_mark_digits: "\<forall>c \<in> set s. digit_val c \<noteq> None \<Longrightarrow> first_mark (s @ r) = first_mark r"
  by (induction s) auto

lemma ParseAddr_dotted_quad:
  assumes "length b = 4"
  shows "ParseAddr (dotted_quad b) = Some (V4 b)"
proof -
  obtain w x y z where b: "b = [w, x, y, z]" using assms by (auto simp: numeral_eq_Suc length_Suc_conv)
  obtain c1 k1 where 1: "c1 \<noteq> CHR ''.''" "\<And>p fl r. parseIPv4Fields p 0 0 fl (dec_byte (unat w) @ r) = parseIPv4Fields (Some c1) (unat w) k1 fl r"
    using dec_byte_parse [OF unat_byte [of w]] by blast
  obtain c2 k2 where 2: "c2 \<noteq> CHR ''.''" "\<And>p fl r. parseIPv4Fields p 0 0 fl (dec_byte (unat x) @ r) = parseIPv4Fields (Some c2) (unat x) k2 fl r"
    using dec_byte_parse [OF unat_byte [of x]] by blast
  obtain c3 k3 where 3: "c3 \<noteq> CHR ''.''" "\<And>p fl r. parseIPv4Fields p 0 0 fl (dec_byte (unat y) @ r) = parseIPv4Fields (Some c3) (unat y) k3 fl r"
    using dec_byte_parse [OF unat_byte [of y]] by blast
  obtain c4 k4 where 4: "c4 \<noteq> CHR ''.''" "\<And>p fl r. parseIPv4Fields p 0 0 fl (dec_byte (unat z) @ r) = parseIPv4Fields (Some c4) (unat z) k4 fl r"
    using dec_byte_parse [OF unat_byte [of z]] by blast
  have ne: "dec_byte (unat x) \<noteq> []" "dec_byte (unat y) \<noteq> []" "dec_byte (unat z) \<noteq> []"
    using dec_byte_digits unat_byte by blast+
  have "first_mark (dotted_quad b) = Some (CHR ''.'')"
    using first_mark_digits dec_byte_digits [OF unat_byte [of w]] by (simp add: dotted_quad_def b)
  moreover have "parseIPv4Fields None 0 0 [] (dotted_quad b) = Some b"
    using 1(1) 2(1) 3(1) ne 4(2) [of _ _ "[]"] by (simp add: dotted_quad_def b 1(2) 2(2) 3(2))
  ultimately show ?thesis by (simp add: ParseAddr_def parseIPv4_def)
qed

lemma spaces_no_digit: "\<forall>w \<in> set space_encodings. digit_val (hd w) = None \<and> digit_val (last w) = None"
  by (simp add: space_encodings_def digit_val_def)

lemma dotted_quad_chars:
  assumes "c \<in> set (dotted_quad b)"
  shows "digit_val c \<noteq> None \<or> c = CHR ''.''"
  using assms dec_byte_digits [OF unat_byte] by (auto simp: dotted_quad_def)

lemma dotted_quad_text: "ink (dotted_quad b)" "CHR '','' \<notin> set (dotted_quad b)"
  "CHR '':'' \<notin> set (dotted_quad b)" "hd (dotted_quad b) \<noteq> CHR ''[''"
proof -
  have d: "dec_byte (unat w) \<noteq> []" "\<forall>c \<in> set (dec_byte (unat w)). digit_val c \<noteq> None" for w :: byte
    using dec_byte_digits [OF unat_byte] by blast+
  have "hd (dotted_quad b) \<in> set (dec_byte (unat (b ! 0)))" "last (dotted_quad b) \<in> set (dec_byte (unat (b ! 3)))"
    using d(1) by (simp_all add: dotted_quad_def)
  then have hl: "digit_val (hd (dotted_quad b)) \<noteq> None" "digit_val (last (dotted_quad b)) \<noteq> None"
    using d(2) by blast+
  moreover have "dotted_quad b \<noteq> []" by (simp add: dotted_quad_def)
  ultimately show "ink (dotted_quad b)" using spaces_no_digit by (auto simp: ink_def)
  show "CHR '','' \<notin> set (dotted_quad b)" "CHR '':'' \<notin> set (dotted_quad b)"
    using dotted_quad_chars [of "CHR '',''" b] dotted_quad_chars [of "CHR '':''" b] by (auto simp: digit_val_def)
  show "hd (dotted_quad b) \<noteq> CHR ''[''" using hl(1) by (auto simp: digit_val_def)
qed

text \<open>An address followed by a port.\<close>

lemma ParseAddrPort_dotted_quad:
  assumes "length b = 4" and "ParseUint16 port = Some p"
  shows "ParseAddrPort (dotted_quad b @ '':'' @ port) = Some (V4 b, p)"
proof -
  let ?q = "dotted_quad b"
  have "\<forall>c \<in> set port. digit_val c \<noteq> None"
  proof -
    have "parse_digits n s = Some m \<Longrightarrow> \<forall>c \<in> set s. digit_val c \<noteq> None" for n s m
      by (induction n s rule: parse_digits.induct) (auto split: option.splits)
    with assms(2) show ?thesis by (auto simp: ParseUint16_def split: if_splits option.splits)
  qed
  then have nc: "\<forall>c \<in> set port. c \<noteq> CHR '':''" by auto
  have "takeWhile (\<lambda>c. c \<noteq> CHR '':'') (rev port @ CHR '':'' # rev ?q) = rev port"
    using nc by (subst takeWhile_append2) auto
  moreover have "port \<noteq> []" "?q \<noteq> []" using assms(2) by (auto simp: ParseUint16_def dotted_quad_def)
  ultimately have "splitAddrPort (?q @ '':'' @ port) = Some (?q, port, False)"
    using dotted_quad_text(4) [of b] by (simp add: splitAddrPort_def Let_def)
  then show ?thesis by (simp add: ParseAddrPort_def assms(2) ParseAddr_dotted_quad [OF assms(1)])
qed

end
