(* ===== verification/Messages.thy ===== *)
theory Messages
  imports Prelude
begin

text \<open>
  The messages of the gRPC service (\<^verbatim>\<open>api/v1alpha1/server/pb/cluster.pb.go\<close>, generated from
  \<^verbatim>\<open>cluster.proto\<close>): each struct with its payload fields, and its getters. A message pointer is an
  option; a getter on nil returns the zero value. The bookkeeping fields of the protobuf runtime
  are left out, and the runtime's \<^verbatim>\<open>durationpb.Duration\<close> is the type parameter \<open>'d\<close>. The two empty
  responses carry nothing and are \<open>unit\<close>.
\<close>

section \<open>Affiliate\<close>

record pb_Affiliate =
  f_Affiliate_Id :: string
  f_Affiliate_Data :: bytes
  f_Affiliate_Endpoints :: "bytes list"

definition Affiliate_GetId :: "pb_Affiliate option \<Rightarrow> string" where
  "Affiliate_GetId x = (case x of Some m \<Rightarrow> f_Affiliate_Id m | None \<Rightarrow> '''')"

definition Affiliate_GetData :: "pb_Affiliate option \<Rightarrow> bytes" where
  "Affiliate_GetData x = (case x of Some m \<Rightarrow> f_Affiliate_Data m | None \<Rightarrow> [])"

definition Affiliate_GetEndpoints :: "pb_Affiliate option \<Rightarrow> bytes list" where
  "Affiliate_GetEndpoints x = (case x of Some m \<Rightarrow> f_Affiliate_Endpoints m | None \<Rightarrow> [])"

section \<open>HelloRequest\<close>

record pb_HelloRequest =
  f_HelloRequest_ClusterId :: string
  f_HelloRequest_ClientVersion :: string

definition HelloRequest_GetClusterId :: "pb_HelloRequest option \<Rightarrow> string" where
  "HelloRequest_GetClusterId x = (case x of Some m \<Rightarrow> f_HelloRequest_ClusterId m | None \<Rightarrow> '''')"

definition HelloRequest_GetClientVersion :: "pb_HelloRequest option \<Rightarrow> string" where
  "HelloRequest_GetClientVersion x = (case x of Some m \<Rightarrow> f_HelloRequest_ClientVersion m | None \<Rightarrow> '''')"

section \<open>RedirectMessage\<close>

record pb_RedirectMessage =
  f_RedirectMessage_Endpoint :: string

definition RedirectMessage_GetEndpoint :: "pb_RedirectMessage option \<Rightarrow> string" where
  "RedirectMessage_GetEndpoint x = (case x of Some m \<Rightarrow> f_RedirectMessage_Endpoint m | None \<Rightarrow> '''')"

section \<open>HelloResponse\<close>

record pb_HelloResponse =
  f_HelloResponse_Redirect :: "pb_RedirectMessage option"
  f_HelloResponse_ClientIp :: bytes

definition HelloResponse_GetRedirect :: "pb_HelloResponse option \<Rightarrow> pb_RedirectMessage option" where
  "HelloResponse_GetRedirect x = (case x of Some m \<Rightarrow> f_HelloResponse_Redirect m | None \<Rightarrow> None)"

definition HelloResponse_GetClientIp :: "pb_HelloResponse option \<Rightarrow> bytes" where
  "HelloResponse_GetClientIp x = (case x of Some m \<Rightarrow> f_HelloResponse_ClientIp m | None \<Rightarrow> [])"

section \<open>AffiliateUpdateRequest\<close>

record 'd pb_AffiliateUpdateRequest =
  f_AffiliateUpdateRequest_ClusterId :: string
  f_AffiliateUpdateRequest_AffiliateId :: string
  f_AffiliateUpdateRequest_AffiliateData :: bytes
  f_AffiliateUpdateRequest_AffiliateEndpoints :: "bytes list"
  f_AffiliateUpdateRequest_Ttl :: "'d option"

definition AffiliateUpdateRequest_GetClusterId :: "'d pb_AffiliateUpdateRequest option \<Rightarrow> string" where
  "AffiliateUpdateRequest_GetClusterId x = (case x of Some m \<Rightarrow> f_AffiliateUpdateRequest_ClusterId m | None \<Rightarrow> '''')"

definition AffiliateUpdateRequest_GetAffiliateId :: "'d pb_AffiliateUpdateRequest option \<Rightarrow> string" where
  "AffiliateUpdateRequest_GetAffiliateId x = (case x of Some m \<Rightarrow> f_AffiliateUpdateRequest_AffiliateId m | None \<Rightarrow> '''')"

definition AffiliateUpdateRequest_GetAffiliateData :: "'d pb_AffiliateUpdateRequest option \<Rightarrow> bytes" where
  "AffiliateUpdateRequest_GetAffiliateData x = (case x of Some m \<Rightarrow> f_AffiliateUpdateRequest_AffiliateData m | None \<Rightarrow> [])"

definition AffiliateUpdateRequest_GetAffiliateEndpoints :: "'d pb_AffiliateUpdateRequest option \<Rightarrow> bytes list" where
  "AffiliateUpdateRequest_GetAffiliateEndpoints x = (case x of Some m \<Rightarrow> f_AffiliateUpdateRequest_AffiliateEndpoints m | None \<Rightarrow> [])"

definition AffiliateUpdateRequest_GetTtl :: "'d pb_AffiliateUpdateRequest option \<Rightarrow> 'd option" where
  "AffiliateUpdateRequest_GetTtl x = (case x of Some m \<Rightarrow> f_AffiliateUpdateRequest_Ttl m | None \<Rightarrow> None)"

section \<open>AffiliateDeleteRequest\<close>

record pb_AffiliateDeleteRequest =
  f_AffiliateDeleteRequest_ClusterId :: string
  f_AffiliateDeleteRequest_AffiliateId :: string

definition AffiliateDeleteRequest_GetClusterId :: "pb_AffiliateDeleteRequest option \<Rightarrow> string" where
  "AffiliateDeleteRequest_GetClusterId x = (case x of Some m \<Rightarrow> f_AffiliateDeleteRequest_ClusterId m | None \<Rightarrow> '''')"

definition AffiliateDeleteRequest_GetAffiliateId :: "pb_AffiliateDeleteRequest option \<Rightarrow> string" where
  "AffiliateDeleteRequest_GetAffiliateId x = (case x of Some m \<Rightarrow> f_AffiliateDeleteRequest_AffiliateId m | None \<Rightarrow> '''')"

section \<open>ListRequest\<close>

record pb_ListRequest =
  f_ListRequest_ClusterId :: string

definition ListRequest_GetClusterId :: "pb_ListRequest option \<Rightarrow> string" where
  "ListRequest_GetClusterId x = (case x of Some m \<Rightarrow> f_ListRequest_ClusterId m | None \<Rightarrow> '''')"

section \<open>ListResponse\<close>

record pb_ListResponse =
  f_ListResponse_Affiliates :: "pb_Affiliate list"

definition ListResponse_GetAffiliates :: "pb_ListResponse option \<Rightarrow> pb_Affiliate list" where
  "ListResponse_GetAffiliates x = (case x of Some m \<Rightarrow> f_ListResponse_Affiliates m | None \<Rightarrow> [])"

section \<open>WatchRequest\<close>

record pb_WatchRequest =
  f_WatchRequest_ClusterId :: string

definition WatchRequest_GetClusterId :: "pb_WatchRequest option \<Rightarrow> string" where
  "WatchRequest_GetClusterId x = (case x of Some m \<Rightarrow> f_WatchRequest_ClusterId m | None \<Rightarrow> '''')"

section \<open>WatchResponse\<close>

record pb_WatchResponse =
  f_WatchResponse_Affiliates :: "pb_Affiliate list"
  f_WatchResponse_Deleted :: bool

definition WatchResponse_GetAffiliates :: "pb_WatchResponse option \<Rightarrow> pb_Affiliate list" where
  "WatchResponse_GetAffiliates x = (case x of Some m \<Rightarrow> f_WatchResponse_Affiliates m | None \<Rightarrow> [])"

definition WatchResponse_GetDeleted :: "pb_WatchResponse option \<Rightarrow> bool" where
  "WatchResponse_GetDeleted x = (case x of Some m \<Rightarrow> f_WatchResponse_Deleted m | None \<Rightarrow> False)"

section \<open>Automation\<close>

lemmas getters =
  Affiliate_GetId_def
  Affiliate_GetData_def
  Affiliate_GetEndpoints_def
  HelloRequest_GetClusterId_def
  HelloRequest_GetClientVersion_def
  RedirectMessage_GetEndpoint_def
  HelloResponse_GetRedirect_def
  HelloResponse_GetClientIp_def
  AffiliateUpdateRequest_GetClusterId_def
  AffiliateUpdateRequest_GetAffiliateId_def
  AffiliateUpdateRequest_GetAffiliateData_def
  AffiliateUpdateRequest_GetAffiliateEndpoints_def
  AffiliateUpdateRequest_GetTtl_def
  AffiliateDeleteRequest_GetClusterId_def
  AffiliateDeleteRequest_GetAffiliateId_def
  ListRequest_GetClusterId_def
  ListResponse_GetAffiliates_def
  WatchRequest_GetClusterId_def
  WatchResponse_GetAffiliates_def
  WatchResponse_GetDeleted_def

declare getters [go_defs]

end
