(* ===== verification/ClusterServer.thy ===== *)
theory ClusterServer
  imports State Netip Messages
begin

text \<open>
  The gRPC handlers (\<^verbatim>\<open>internal/server/cluster_server.go\<close>) and the interceptor that turns context
  errors into statuses (\<^verbatim>\<open>internal/server/discovery_server.go\<close>).

  A handler takes the discovery state and returns it updated, with an error or a response; a panic
  is \<open>None\<close>. Its environment \<open>env\<close> holds the clock readings and the iteration orders of the maps
  it ranges over. The stream handler \<open>Watch\<close> runs for as long as its client stays: it is a state
  machine whose steps are the initial part up to the first send, and then one step per completed
  send or per case of its \<^verbatim>\<open>select\<close>; other handlers run in between.
\<close>

section \<open>Environment of a call\<close>

record env =
  new_at :: time
  now_at :: time
  close_at :: time
  sub_order :: "uint64 list \<Rightarrow> uint64 list"
  aff_order :: "string list \<Rightarrow> string list"

text \<open>
  What a handler reads from its context: the incoming metadata (as its \<^verbatim>\<open>Get\<close>) and the printed
  address of the peer, when present.
\<close>

record rpc_ctx =
  ctx_md :: "(string \<Rightarrow> string list) option"
  ctx_peer :: "string option"

record DiscoveryConfig =
  RedirectEndpoint :: string
  CleanupInterval :: duration
  SnapshotPath :: string
  SnapshotInterval :: duration

text \<open>
  The server's field \<^verbatim>\<open>state\<close> is the state that is threaded through the handlers; its field
  \<^verbatim>\<open>serverStop\<close> is never read.
\<close>

record clusterServer =
  redirectEndpoint :: string

definition newClusterServer :: "DiscoveryConfig \<Rightarrow> clusterServer" where
  "newClusterServer cfg = \<lparr>redirectEndpoint = RedirectEndpoint cfg\<rparr>"

section \<open>Errors\<close>

text \<open>\<^verbatim>\<open>status.Code\<close>: the code of a status error, and Unknown for any other error.\<close>

fun status_Code :: "go_error option \<Rightarrow> Code" where
  "status_Code None = OK"
| "status_Code (Some (Status c m)) = c"
| "status_Code (Some e) = Unknown"

fun err_Error :: "state_error \<Rightarrow> string" where
  "err_Error ErrTooManyAffiliates = ''too many affiliates in the cluster''"
| "err_Error ErrTooManyEndpoints = ''too many endpoints in the affiliate''"

fun normalizeContextErr :: "go_error option \<Rightarrow> go_error option" where
  "normalizeContextErr None = None"
| "normalizeContextErr (Some CtxCanceled) = Some (Status Canceled ''context canceled'')"
| "normalizeContextErr (Some CtxDeadlineExceeded) = Some (Status DeadlineExceeded ''context deadline exceeded'')"
| "normalizeContextErr (Some e) = Some e"

section \<open>Client address\<close>

text \<open>\<^verbatim>\<open>strings.Split\<close> at a one-byte separator.\<close>

fun Split :: "char \<Rightarrow> string \<Rightarrow> string list" where
  "Split c [] = [[]]"
| "Split c (x # s) =
     (if x = c then [] # Split c s
      else case Split c s of [] \<Rightarrow> [[x]] | w # ws \<Rightarrow> (x # w) # ws)"

definition extractClientIP :: "rpc_ctx \<Rightarrow> Addr" where
  "extractClientIP ctx =
     (let real_ip = (\<lambda>get. case get ''x-real-ip'' of [] \<Rightarrow> None | v # _ \<Rightarrow> ParseAddr v);
          forwarded = (\<lambda>get. case get ''x-forwarded-for'' of [] \<Rightarrow> None
                         | v # _ \<Rightarrow> ParseAddr (TrimSpace (Split (CHR '','') v ! 0)));
          from_peer = (case ctx_peer ctx of
                         None \<Rightarrow> NoAddr
                       | Some p \<Rightarrow> (case ParseAddrPort p of Some (addr, _) \<Rightarrow> addr | None \<Rightarrow> NoAddr))
      in case ctx_md ctx of
           None \<Rightarrow> from_peer
         | Some get \<Rightarrow>
             (case real_ip get of
                Some addr \<Rightarrow> addr
              | None \<Rightarrow> (case forwarded get of Some addr \<Rightarrow> addr | None \<Rightarrow> from_peer)))"

definition toProtoAffiliate :: "AffiliateInfo \<Rightarrow> pb_Affiliate" where
  "toProtoAffiliate info =
     \<lparr>f_Affiliate_Id = info_ID info, f_Affiliate_Data = info_Data info,
      f_Affiliate_Endpoints = info_Endpoints info\<rparr>"

section \<open>Unary handlers\<close>

definition Hello ::
  "clusterServer \<Rightarrow> rpc_ctx \<Rightarrow> pb_HelloRequest option \<Rightarrow> go_error + pb_HelloResponse" where
  "Hello srv ctx req =
     (case validateClusterID (HelloRequest_GetClusterId req) of
        Some err \<Rightarrow> Inl err
      | None \<Rightarrow>
          (let clientIP = extractClientIP ctx in
           Inr \<lparr>f_HelloResponse_Redirect =
                  (if redirectEndpoint srv \<noteq> ''''
                   then Some \<lparr>f_RedirectMessage_Endpoint = redirectEndpoint srv\<rparr> else None),
                f_HelloResponse_ClientIp = (if IsValid clientIP then AsSlice clientIP else [])\<rparr>))"

text \<open>The first failing check of a request.\<close>

definition validateUpdate :: "('d \<Rightarrow> duration) \<Rightarrow> 'd pb_AffiliateUpdateRequest option \<Rightarrow> go_error option" where
  "validateUpdate AsDuration req =
     (case validateClusterID (AffiliateUpdateRequest_GetClusterId req) of Some err \<Rightarrow> Some err | None \<Rightarrow>
     (case validateAffiliateID (AffiliateUpdateRequest_GetAffiliateId req) of Some err \<Rightarrow> Some err | None \<Rightarrow>
     (case validateAffiliateData (AffiliateUpdateRequest_GetAffiliateData req) of Some err \<Rightarrow> Some err | None \<Rightarrow>
     (case validateAffiliateEndpoints (AffiliateUpdateRequest_GetAffiliateEndpoints req) of Some err \<Rightarrow> Some err | None \<Rightarrow>
      validateAffiliateTTL AsDuration (AffiliateUpdateRequest_GetTtl req)))))"

definition update_request :: "('d \<Rightarrow> duration) \<Rightarrow> 'd pb_AffiliateUpdateRequest option \<Rightarrow> AffiliateUpdateRequest" where
  "update_request AsDuration req =
     \<lparr>req_ID = AffiliateUpdateRequest_GetAffiliateId req,
      req_Data = AffiliateUpdateRequest_GetAffiliateData req,
      req_Endpoints = AffiliateUpdateRequest_GetAffiliateEndpoints req,
      req_TTL = AsDuration (the (AffiliateUpdateRequest_GetTtl req))\<rparr>"

text \<open>
  The state reports only its two errors, so the default case of the error switch, an Internal
  status, is not reached.
\<close>

definition AffiliateUpdate ::
  "'m xsync \<Rightarrow> ('d \<Rightarrow> duration) \<Rightarrow> env \<Rightarrow> 'd pb_AffiliateUpdateRequest option \<Rightarrow> 'm State \<Rightarrow>
   ('m State \<times> (go_error + unit)) option" where
  "AffiliateUpdate X AsDuration e req s =
     (case validateUpdate AsDuration req of
        Some err \<Rightarrow> Some (s, Inl err)
      | None \<Rightarrow>
          (case ClusterFor X (new_at e) (AffiliateUpdateRequest_GetClusterId req) s of (p, s1) \<Rightarrow>
             (case UpdateAffiliate (sub_order e) (now_at e) (close_at e) (update_request AsDuration req) (heap s1 ! p) of
                None \<Rightarrow> None
              | Some (c, r) \<Rightarrow>
                  Some (s1\<lparr>heap := (heap s1)[p := c]\<rparr>,
                        case r of Some err \<Rightarrow> Inl (Status ResourceExhausted (err_Error err)) | None \<Rightarrow> Inr ()))))"

definition AffiliateDelete ::
  "'m xsync \<Rightarrow> env \<Rightarrow> pb_AffiliateDeleteRequest option \<Rightarrow> 'm State \<Rightarrow>
   ('m State \<times> (go_error + unit)) option" where
  "AffiliateDelete X e req s =
     (case validateClusterID (AffiliateDeleteRequest_GetClusterId req) of
        Some err \<Rightarrow> Some (s, Inl err)
      | None \<Rightarrow>
          (case validateAffiliateID (AffiliateDeleteRequest_GetAffiliateId req) of
             Some err \<Rightarrow> Some (s, Inl err)
           | None \<Rightarrow>
               (case GetCluster X (AffiliateDeleteRequest_GetClusterId req) s of
                  None \<Rightarrow> Some (s, Inr ())
                | Some p \<Rightarrow>
                    (case DeleteAffiliate (sub_order e) (now_at e) (close_at e)
                            (AffiliateDeleteRequest_GetAffiliateId req) (heap s ! p) of
                       None \<Rightarrow> None
                     | Some c \<Rightarrow> Some (s\<lparr>heap := (heap s)[p := c]\<rparr>, Inr ())))))"

definition List ::
  "'m xsync \<Rightarrow> env \<Rightarrow> pb_ListRequest option \<Rightarrow> 'm State \<Rightarrow> go_error + pb_ListResponse" where
  "List X e req s =
     (case validateClusterID (ListRequest_GetClusterId req) of
        Some err \<Rightarrow> Inl err
      | None \<Rightarrow>
          (case GetCluster X (ListRequest_GetClusterId req) s of
             None \<Rightarrow> Inr \<lparr>f_ListResponse_Affiliates = []\<rparr>
           | Some p \<Rightarrow>
               Inr \<lparr>f_ListResponse_Affiliates =
                      map toProtoAffiliate (ListAffiliates (aff_order e) (heap s ! p))\<rparr>))"

section \<open>The watch stream\<close>

text \<open>
  Where a watch stands: in a send of a response, at its \<^verbatim>\<open>select\<close>, or returned with a result. Its
  variables are the cluster and the subscription.
\<close>

datatype watch_pc = Sending pb_WatchResponse | Selecting | Returned "go_error option"

record watch =
  w_cluster :: nat
  w_sub :: nat
  w_pc :: watch_pc

definition snapshot_response :: "AffiliateInfo list \<Rightarrow> pb_WatchResponse" where
  "snapshot_response snapshot =
     \<lparr>f_WatchResponse_Affiliates = map toProtoAffiliate snapshot, f_WatchResponse_Deleted = False\<rparr>"

definition Watch_start ::
  "'m xsync \<Rightarrow> env \<Rightarrow> pb_WatchRequest option \<Rightarrow> 'm State \<Rightarrow> 'm State \<times> (go_error + watch)" where
  "Watch_start X e req s =
     (case validateClusterID (WatchRequest_GetClusterId req) of
        Some err \<Rightarrow> (s, Inl err)
      | None \<Rightarrow>
          (case ClusterFor X (new_at e) (WatchRequest_GetClusterId req) s of (p, s1) \<Rightarrow>
             (case SubscribeWithSnapshot (aff_order e) (heap s1 ! p) of (snapshot, q, c) \<Rightarrow>
                (s1\<lparr>heap := (heap s1)[p := c]\<rparr>,
                 Inr \<lparr>w_cluster = p, w_sub = q,
                      w_pc = (if 0 < length snapshot then Sending (snapshot_response snapshot) else Selecting)\<rparr>))))"

definition event_response :: "AffiliateEvent \<Rightarrow> pb_WatchResponse" where
  "event_response ev =
     (case ev_Type ev of
        AffiliateEventDelete \<Rightarrow>
          \<lparr>f_WatchResponse_Affiliates =
             [\<lparr>f_Affiliate_Id = info_ID (ev_Info ev), f_Affiliate_Data = [], f_Affiliate_Endpoints = []\<rparr>],
           f_WatchResponse_Deleted = True\<rparr>
      | AffiliateEventUpsert \<Rightarrow>
          \<lparr>f_WatchResponse_Affiliates = [toProtoAffiliate (ev_Info ev)], f_WatchResponse_Deleted = False\<rparr>)"

text \<open>
  What happens next: a send ends, with an error or without; the context is done, with its error;
  or the select takes a receive on one of the channels.
\<close>

datatype watch_choice = Sent "go_error option" | Done go_error | Errors | Events

text \<open>Returning runs the deferred \<^verbatim>\<open>sub.Close()\<close>.\<close>

definition Watch_return :: "time \<Rightarrow> go_error option \<Rightarrow> watch \<Rightarrow> 'm State \<Rightarrow> (watch \<times> 'm State) option" where
  "Watch_return t r w s =
     (case on_cluster (w_cluster w) (Close t (w_sub w)) s of
        None \<Rightarrow> None
      | Some s' \<Rightarrow> Some (w\<lparr>w_pc := Returned r\<rparr>, s'))"

abbreviation put_cluster :: "nat \<Rightarrow> Cluster \<Rightarrow> 'm State \<Rightarrow> 'm State" where
  "put_cluster p c s \<equiv> s\<lparr>heap := (heap s)[p := c]\<rparr>"

definition Watch_select :: "time \<Rightarrow> watch_choice \<Rightarrow> watch \<Rightarrow> 'm State \<Rightarrow> (watch \<times> 'm State) option" where
  "Watch_select t ch w s =
     (case ch of
        Sent r \<Rightarrow> Some (w, s)
      | Done err \<Rightarrow> Watch_return t (Some err) w s
      | Errors \<Rightarrow>
          (case recv_error (w_sub w) (heap s ! w_cluster w) of
             (Blocked, _) \<Rightarrow> Some (w, s)
           | (Got LostUpdate, c) \<Rightarrow> Watch_return t (Some (Plain ''lost update'')) w (put_cluster (w_cluster w) c s)
           | (Drained, c) \<Rightarrow>
               Watch_return t (Some (Status Aborted ''subscription canceled: %!s(<nil>)'')) w (put_cluster (w_cluster w) c s))
      | Events \<Rightarrow>
          (case recv_event (w_sub w) (heap s ! w_cluster w) of
             (Blocked, _) \<Rightarrow> Some (w, s)
           | (Drained, c) \<Rightarrow> Watch_return t None w (put_cluster (w_cluster w) c s)
           | (Got ev, c) \<Rightarrow> Some (w\<lparr>w_pc := Sending (event_response ev)\<rparr>, put_cluster (w_cluster w) c s)))"

definition Watch_sent :: "time \<Rightarrow> go_error option \<Rightarrow> watch \<Rightarrow> 'm State \<Rightarrow> (watch \<times> 'm State) option" where
  "Watch_sent t r w s =
     (case r of
        None \<Rightarrow> Some (w\<lparr>w_pc := Selecting\<rparr>, s)
      | Some err \<Rightarrow>
          if status_Code (Some err) = Canceled then Watch_return t None w s
          else Watch_return t (Some err) w s)"

definition Watch_step :: "time \<Rightarrow> watch_choice \<Rightarrow> watch \<Rightarrow> 'm State \<Rightarrow> (watch \<times> 'm State) option" where
  "Watch_step t ch w s =
     (case w_pc w of
        Returned r \<Rightarrow> Some (w, s)
      | Selecting \<Rightarrow> Watch_select t ch w s
      | Sending resp \<Rightarrow> (case ch of Sent r \<Rightarrow> Watch_sent t r w s | _ \<Rightarrow> Some (w, s)))"

section \<open>The client's address\<close>

lemma Split_first:
  assumes "c \<notin> set w"
  shows "Split c w = [w]" and "Split c (w @ c # rest) ! 0 = w" and "Split c (w @ c # rest) \<noteq> []"
proof -
  show "Split c w = [w]" using assms by (induction w) auto
  have "\<exists>ws. Split c (w @ c # rest) = w # ws" using assms by (induction w) auto
  then show "Split c (w @ c # rest) ! 0 = w" "Split c (w @ c # rest) \<noteq> []" by auto
qed

lemma spaces_no_comma: "set es \<subseteq> set space_encodings \<Longrightarrow> CHR '','' \<notin> set (concat es)"
proof -
  assume es: "set es \<subseteq> set space_encodings"
  have "\<forall>w \<in> set space_encodings. CHR '','' \<notin> set w" by (simp add: space_encodings_def)
  with es show ?thesis by auto
qed



lemma extractClientIP_width:
  "let a = extractClientIP ctx in if IsValid a then length (AsSlice a) \<in> {4, 16} else AsSlice a = []"
proof -
  have port: "ParseAddrPort s = Some (a, n) \<Longrightarrow> \<exists>u. ParseAddr u = Some a" for s a n
    by (auto simp: ParseAddrPort_def split: option.splits Addr.splits if_splits)
  have "extractClientIP ctx = NoAddr \<or> (\<exists>u. ParseAddr u = Some (extractClientIP ctx))"
    using port by (fastforce simp: extractClientIP_def Let_def split: option.split list.split)
  then show ?thesis using ParseAddr_width by (auto simp: Let_def IsValid_def)
qed

text \<open>
  The greeting. It fails exactly on an invalid cluster name, with the failed check; otherwise it
  answers with the client's address as 4 or 16 bytes, or with none when the address is unknown,
  and with a redirect exactly when one is configured, to the configured endpoint.
\<close>

theorem Hello_response:
  "case validateClusterID (HelloRequest_GetClusterId req) of
     Some err \<Rightarrow> Hello (newClusterServer cfg) ctx req = Inl err
   | None \<Rightarrow> \<exists>resp. Hello (newClusterServer cfg) ctx req = Inr resp \<and>
       length (HelloResponse_GetClientIp (Some resp)) \<in> {0, 4, 16} \<and>
       (HelloResponse_GetClientIp (Some resp) = [] \<longleftrightarrow> \<not> IsValid (extractClientIP ctx)) \<and>
       (HelloResponse_GetRedirect (Some resp) = None \<longleftrightarrow> RedirectEndpoint cfg = '''') \<and>
       (RedirectEndpoint cfg \<noteq> '''' \<longrightarrow>
          RedirectMessage_GetEndpoint (HelloResponse_GetRedirect (Some resp)) = RedirectEndpoint cfg)"
  using extractClientIP_width [of ctx]
  by (auto simp: Hello_def newClusterServer_def go_defs Let_def split: option.split if_splits)

theorem Hello_response_witness:
  "\<exists>resp. Hello (newClusterServer \<lparr>RedirectEndpoint = ''h:1'', CleanupInterval = 0, SnapshotPath = '''', SnapshotInterval = 0\<rparr>)
     \<lparr>ctx_md = None, ctx_peer = None\<rparr> (Some \<lparr>f_HelloRequest_ClusterId = ''c'', f_HelloRequest_ClientVersion = ''v''\<rparr>) = Inr resp \<and>
     RedirectMessage_GetEndpoint (HelloResponse_GetRedirect (Some resp)) = ''h:1''"
proof -
  have "validateClusterID (HelloRequest_GetClusterId
      (Some \<lparr>f_HelloRequest_ClusterId = ''c'', f_HelloRequest_ClientVersion = ''v''\<rparr>)) = None" by code_simp
  with Hello_response [where req = "Some \<lparr>f_HelloRequest_ClusterId = ''c'', f_HelloRequest_ClientVersion = ''v''\<rparr>"
      and cfg = "\<lparr>RedirectEndpoint = ''h:1'', CleanupInterval = 0, SnapshotPath = '''', SnapshotInterval = 0\<rparr>"
      and ctx = "\<lparr>ctx_md = None, ctx_peer = None\<rparr>"]
  show ?thesis by auto
qed

end
