(* ===== verification/Server_Spec.thy ===== *)
theory Server_Spec
  imports ClusterServer
begin

text \<open>
  An abstract specification of the discovery service and the proof that the handlers implement
  it. Abstractly the service is a map from cluster names to maps from affiliate names to public
  information; an update merges one entry or fails on a limit, a deletion drops one, a listing
  reads one cluster. Locks, pointers, channels, subscriptions and expiries are all below this
  level.
\<close>

section \<open>Specification\<close>

type_synonym discovery = "string \<Rightarrow> aff_map"

definition known_endpoints :: "aff_map \<Rightarrow> string \<Rightarrow> bytes list" where
  "known_endpoints v i = (case v i of None \<Rightarrow> [] | Some info \<Rightarrow> info_Endpoints info)"

definition spec_error :: "aff_map \<Rightarrow> AffiliateUpdateRequest \<Rightarrow> state_error option" where
  "spec_error v req =
     (if v (req_ID req) = None \<and> AffiliatesMax \<le> card (dom v) then Some ErrTooManyAffiliates
      else if AffiliateEndpointsMax < card (set (known_endpoints v (req_ID req)) \<union> set (req_Endpoints req))
      then Some ErrTooManyEndpoints
      else None)"

definition spec_info :: "aff_map \<Rightarrow> AffiliateUpdateRequest \<Rightarrow> AffiliateInfo" where
  "spec_info v req =
     \<lparr>info_ID = req_ID req,
      info_Data = (if req_Data req \<noteq> [] then req_Data req
                   else case v (req_ID req) of None \<Rightarrow> [] | Some info \<Rightarrow> info_Data info),
      info_Endpoints = known_endpoints v (req_ID req) @
        fresh (set (known_endpoints v (req_ID req))) (req_Endpoints req)\<rparr>"

section \<open>Abstraction\<close>

definition discovered :: "'m xsync \<Rightarrow> 'm State \<Rightarrow> discovery" where
  "discovered X s i =
     (case GetCluster X i s of None \<Rightarrow> Map.empty | Some p \<Rightarrow> aff_view (affiliates (heap s ! p)))"

lemma dom_aff_view: "dom (aff_view m) = set (keys m)"
  using gm.ks_dom [of m] by (auto simp: aff_view_def)

lemma card_dom_view: "affs_inv m \<Longrightarrow> card (dom (aff_view m)) = length m"
  by (metis affs_invD(1) distinct_card dom_aff_view length_map)

lemma known_endpoints_base:
  "known_endpoints (aff_view (affiliates c)) i = map ep_data (aff_endpoints (base_affiliate i c))"
  by (simp add: known_endpoints_def aff_view_def base_affiliate_def ToInfo_def new_affiliate_def split: option.split)

lemma room_card:
  assumes "aff_inv a"
  shows "has_room a ds \<longleftrightarrow> card (set (map ep_data (aff_endpoints a)) \<union> set ds) \<le> AffiliateEndpointsMax"
proof -
  have "length (aff_endpoints a) = card (set (map ep_data (aff_endpoints a)))"
    using assms distinct_card [of "map ep_data (aff_endpoints a)"] by (simp add: aff_inv_def)
  moreover have "card (ep_data ` set (aff_endpoints a)) + card (set ds - ep_data ` set (aff_endpoints a)) =
      card (ep_data ` set (aff_endpoints a) \<union> (set ds - ep_data ` set (aff_endpoints a)))"
    by (rule card_Un_disjoint [symmetric]) auto
  ultimately show ?thesis by (simp add: has_room_def Un_Diff_cancel)
qed

lemma merged_info:
  assumes "affs_inv (affiliates c)" and "has_room (base_affiliate (req_ID req) c) (req_Endpoints req)"
  shows "ToInfo (fst (MergeEndpoints (with_data x req (base_affiliate (req_ID req) c)) (req_Endpoints req) x)) =
    spec_info (aff_view (affiliates c)) req"
proof -
  let ?b = "base_affiliate (req_ID req) c"
  have b: "aff_inv (with_data x req ?b)" "has_room (with_data x req ?b) (req_Endpoints req)"
    using base_affiliate_inv(1) [OF assms(1)] assms(2) by simp_all
  have "aff_data (with_data x req ?b) =
      (if req_Data req \<noteq> [] then req_Data req
       else case aff_view (affiliates c) (req_ID req) of None \<Rightarrow> [] | Some info \<Rightarrow> info_Data info)"
    by (simp add: with_data_def base_affiliate_def aff_view_def ToInfo_def new_affiliate_def split: option.split)
  with base_affiliate_inv(2) [OF assms(1), of "req_ID req"] show ?thesis
    by (simp add: MergeEndpoints_ok [OF b] ToInfo_def spec_info_def known_endpoints_base map_data_merged)
qed

text \<open>The abstract errors are the guards of the code.\<close>

lemma spec_error_guards:
  assumes "affs_inv (affiliates c)"
  shows "spec_error (aff_view (affiliates c)) req =
    (if rejected req c then Some ErrTooManyAffiliates
     else if has_room (base_affiliate (req_ID req) c) (req_Endpoints req) then None else Some ErrTooManyEndpoints)"
proof -
  let ?v = "aff_view (affiliates c)"
  have rej: "rejected req c \<longleftrightarrow> ?v (req_ID req) = None \<and> AffiliatesMax \<le> card (dom ?v)"
    by (simp add: rejected_def card_dom_view [OF assms]) (simp add: aff_view_def)
  have room: "has_room (base_affiliate (req_ID req) c) (req_Endpoints req) \<longleftrightarrow>
      \<not> AffiliateEndpointsMax < card (set (known_endpoints ?v (req_ID req)) \<union> set (req_Endpoints req))"
    unfolding known_endpoints_base not_less by (rule room_card [OF base_affiliate_inv(1) [OF assms]])
  show ?thesis unfolding spec_error_def rej room by simp
qed

text \<open>The abstract effect of an update on its cluster.\<close>

lemma UpdateAffiliate_spec:
  assumes "cluster_inv c" and "range_order so"
  defines "v \<equiv> aff_view (affiliates c)"
  obtains c' where "UpdateAffiliate so now t req c = Some (c', spec_error v req)" and "cluster_inv c'"
    and "length (subs c') = length (subs c)"
    and "spec_error v req = None \<Longrightarrow> aff_view (affiliates c') = v(req_ID req \<mapsto> spec_info v req)"
    and "spec_error v req = Some ErrTooManyAffiliates \<Longrightarrow> aff_view (affiliates c') = v"
    and "\<And>k. k \<noteq> req_ID req \<Longrightarrow> aff_view (affiliates c') k = v k"
proof -
  let ?b = "base_affiliate (req_ID req) c"
  have affs: "affs_inv (affiliates c)" using assms(1) by (simp add: cluster_inv_def)
  obtain c' r where u: "UpdateAffiliate so now t req c = Some (c', r)" "cluster_inv c'"
    "affiliates c' = affiliates (fst (updateAffiliateLocked now req c))" "length (subs c') = length (subs c)"
    using UpdateAffiliate_total [OF assms(1,2), of now t req] by blast
  note err = spec_error_guards [OF affs, of req, folded v_def]
  have put: "aff_view (affiliates (put_affiliate a c)) = v(aff_id a \<mapsto> ToInfo a)" for a
    by (simp add: aff_view_update v_def)
  note info = merged_info [OF affs, of req]
  have eff: "r = spec_error v req \<and>
      (spec_error v req = None \<longrightarrow> aff_view (affiliates c') = v(req_ID req \<mapsto> spec_info v req)) \<and>
      (spec_error v req = Some ErrTooManyAffiliates \<longrightarrow> aff_view (affiliates c') = v) \<and>
      (\<forall>k. k \<noteq> req_ID req \<longrightarrow> aff_view (affiliates c') k = v k)"
    using affs
  proof (cases rule: updateAffiliateLocked_cases [where now = now and req = req])
    case rejected
    then have "c' = c" "r = Some ErrTooManyAffiliates" using u(1) by (simp_all add: UpdateAffiliate_def)
    with rejected(1) err show ?thesis by (simp add: v_def)
  next
    case (full a')
    then have "aff_view (affiliates c') = v(req_ID req \<mapsto> ToInfo a')" "r = Some ErrTooManyEndpoints"
      using u(1) put [of a'] by (auto simp: UpdateAffiliate_def)
    with full(1,2) err show ?thesis by simp
  next
    case (quiet a')
    then have "aff_view (affiliates c') = v(req_ID req \<mapsto> ToInfo a')" "r = None"
      using u(1) put [of a'] by (auto simp: UpdateAffiliate_def)
    with quiet(1,2,3) info err show ?thesis by (simp add: v_def)
  next
    case (event a')
    then have "aff_view (affiliates c') = v(req_ID req \<mapsto> ToInfo a')" "r = None"
      using u(1,3) put [of a'] by (auto simp: UpdateAffiliate_def split: option.splits)
    with event(1,2,3) info err show ?thesis by (simp add: v_def)
  qed
  show ?thesis by (rule that [of c']) (use u eff in simp_all)
qed

text \<open>The operations keep the name of the cluster.\<close>

lemma notify_id: "subs_inv c \<Longrightarrow> range_order so \<Longrightarrow> notify so t ev c = Some c' \<Longrightarrow> cl_id c' = cl_id c"
  using notify_fanout [of c so t ev] by auto

lemma UpdateAffiliate_id:
  assumes "cluster_inv c" and "range_order so" and "UpdateAffiliate so now t req c = Some (c', r)"
  shows "cl_id c' = cl_id c"
proof -
  obtain c1 q where u: "updateAffiliateLocked now req c = (c1, q)" by force
  have "cl_id c1 = cl_id c"
    using u by (auto simp: updateAffiliateLocked_def update_found_eq Let_def split: option.splits if_splits prod.splits sum.splits)
  moreover have "subs_inv c1" using updateAffiliateLocked_inv [OF assms(1), of now req] u by (simp add: cluster_inv_def)
  ultimately show ?thesis
    using assms(3) u notify_id [OF _ assms(2)] by (auto simp: UpdateAffiliate_def split: sum.splits option.splits)
qed

lemma DeleteAffiliate_id:
  assumes "cluster_inv c" and "range_order so" and "DeleteAffiliate so now t i c = Some c'"
  shows "cl_id c' = cl_id c"
proof -
  have "subs_inv (prolongExpiry now (c\<lparr>affiliates := AList.delete i (affiliates c)\<rparr>))"
    using assms(1) by (simp add: cluster_inv_def)
  from notify_id [OF this assms(2), of t "tombstone i"] assms(3) show ?thesis
    by (auto simp: DeleteAffiliate_def deleteAffiliateLocked_def split: option.splits)
qed

section \<open>Pointers\<close>

lemma discovered_put:
  assumes "state_inv X s" and "x_Load X (clusters s) i = Some p"
  shows "discovered X (put_cluster p c s) = (discovered X s)(i := aff_view (affiliates c))"
proof
  fix j
  have "p < length (heap s)" "cl_id (heap s ! p) = i" using state_invD(1) [OF assms] by auto
  moreover have "x_Load X (clusters s) j = Some q \<Longrightarrow> cl_id (heap s ! q) = j" for q
    using state_invD(1) [OF assms(1)] by blast
  ultimately have "j \<noteq> i \<Longrightarrow> x_Load X (clusters s) j = Some q \<Longrightarrow> q \<noteq> p" for q by blast
  with \<open>p < length (heap s)\<close> assms(2)
  show "discovered X (put_cluster p c s) j = ((discovered X s)(i := aff_view (affiliates c))) j"
    by (cases "j = i") (auto simp: discovered_def GetCluster_def nth_list_update split: option.split)
qed

lemma aff_view_Nil [simp]: "aff_view [] = Map.empty"
  by (auto simp: aff_view_def)

context xsync_map
begin

lemma discovered_ClusterFor:
  assumes "state_inv X s" and "ClusterFor X now i s = (p, s')"
  shows "discovered X s' = discovered X s"
proof
  fix j
  note C = ClusterFor_cases [OF assms]
  show "discovered X s' j = discovered X s j"
  proof (cases "x_Load X (clusters s) i")
    case (Some q)
    then show ?thesis using C(5) by simp
  next
    case None
    then have n: "p = length (heap s)" "heap s' = heap s @ [NewCluster now i]" using C(6) by auto
    have "x_Load X (clusters s) j = Some q \<Longrightarrow> q < length (heap s)" for q
      using state_invD(1) [OF assms(1)] by blast
    with None n C(2) C(4) [of j] show ?thesis
      by (cases "j = i") (auto simp: discovered_def GetCluster_def nth_append split: option.split)
  qed
qed

text \<open>The state after an accepted update: the cluster is there, and only it has changed.\<close>

lemma AffiliateUpdate_cases:
  assumes "state_inv X s" and "range_order (sub_order e)" and "validateUpdate AsDuration req = None"
  defines "i \<equiv> AffiliateUpdateRequest_GetClusterId req" and "ur \<equiv> update_request AsDuration req"
  obtains s1 p c where "ClusterFor X (new_at e) i s = (p, s1)" and "state_inv X s1" and "p < length (heap s1)"
    and "UpdateAffiliate (sub_order e) (now_at e) (close_at e) ur (heap s1 ! p) =
          Some (c, spec_error (discovered X s i) ur)"
    and "AffiliateUpdate X AsDuration e req s = Some (put_cluster p c s1,
          case spec_error (discovered X s i) ur of
            Some err \<Rightarrow> Inl (Status ResourceExhausted (err_Error err)) | None \<Rightarrow> Inr ())"
    and "state_inv X (put_cluster p c s1)"
    and "discovered X (put_cluster p c s1) = (discovered X s)(i := aff_view (affiliates c))"
    and "spec_error (discovered X s i) ur = None \<Longrightarrow>
          aff_view (affiliates c) = (discovered X s i)(req_ID ur \<mapsto> spec_info (discovered X s i) ur)"
    and "spec_error (discovered X s i) ur = Some ErrTooManyAffiliates \<Longrightarrow> aff_view (affiliates c) = discovered X s i"
    and "\<And>k. k \<noteq> req_ID ur \<Longrightarrow> aff_view (affiliates c) k = discovered X s i k"
proof -
  obtain p s1 where cf: "ClusterFor X (new_at e) i s = (p, s1)" by force
  note C = ClusterFor_cases [OF assms(1) cf]
  have c1: "cluster_inv (heap s1 ! p)" by (rule state_invD(2) [OF C(1,3)])
  have v: "aff_view (affiliates (heap s1 ! p)) = discovered X s i"
    using discovered_ClusterFor [OF assms(1) cf, THEN fun_cong, of i] C(2) by (simp add: discovered_def GetCluster_def)
  obtain c where c: "UpdateAffiliate (sub_order e) (now_at e) (close_at e) ur (heap s1 ! p) =
      Some (c, spec_error (discovered X s i) ur)" "cluster_inv c" "length (subs c) = length (subs (heap s1 ! p))"
    "spec_error (discovered X s i) ur = None \<Longrightarrow>
       aff_view (affiliates c) = (discovered X s i)(req_ID ur \<mapsto> spec_info (discovered X s i) ur)"
    "spec_error (discovered X s i) ur = Some ErrTooManyAffiliates \<Longrightarrow> aff_view (affiliates c) = discovered X s i"
    "\<And>k. k \<noteq> req_ID ur \<Longrightarrow> aff_view (affiliates c) k = discovered X s i k"
    using UpdateAffiliate_spec [OF c1 assms(2), unfolded v] by blast
  have id: "cl_id c = cl_id (heap s1 ! p)" by (rule UpdateAffiliate_id [OF c1 assms(2) c(1)])
  show ?thesis
  proof (rule that [OF cf C(1,3) c(1) _ _ _ c(4-6)])
    show "AffiliateUpdate X AsDuration e req s = Some (put_cluster p c s1,
        case spec_error (discovered X s i) ur of
          Some err \<Rightarrow> Inl (Status ResourceExhausted (err_Error err)) | None \<Rightarrow> Inr ())"
      using cf c(1) by (simp add: AffiliateUpdate_def assms(3) i_def [symmetric] ur_def [symmetric])
    show "state_inv X (put_cluster p c s1)" by (rule state_inv_write [OF C(1,3) c(2) id])
    show "discovered X (put_cluster p c s1) = (discovered X s)(i := aff_view (affiliates c))"
      using discovered_put [OF C(1,2)] discovered_ClusterFor [OF assms(1) cf] by simp
  qed
qed

end

section \<open>The handlers implement the specification\<close>

text \<open>
  C13: an update request. An invalid request changes nothing and reports the failed check. A valid
  one always returns: it reports ResourceExhausted exactly when the affiliate is new in a cluster
  with 1024 affiliates or its endpoints would exceed 64, and otherwise merges the request into
  the entry of its affiliate in its cluster, as specified, and touches no other entry of any
  cluster. On too many affiliates nothing changes; on too many endpoints no other entry changes.
\<close>

theorem AffiliateUpdate_refines:
  fixes AsDuration :: "'d \<Rightarrow> duration" and req :: "'d pb_AffiliateUpdateRequest option"
  assumes "xsync_map X" and "state_inv X s" and "range_order (sub_order e)"
  defines "i \<equiv> AffiliateUpdateRequest_GetClusterId req" and "ur \<equiv> update_request AsDuration req"
  shows "case validateUpdate AsDuration req of
      Some err \<Rightarrow> AffiliateUpdate X AsDuration e req s = Some (s, Inl err)
    | None \<Rightarrow> \<exists>s' r. AffiliateUpdate X AsDuration e req s = Some (s', r) \<and> state_inv X s' \<and>
        (case spec_error (discovered X s i) ur of
           None \<Rightarrow> r = Inr () \<and> discovered X s' =
             (discovered X s)(i := (discovered X s i)(req_ID ur \<mapsto> spec_info (discovered X s i) ur))
         | Some ErrTooManyAffiliates \<Rightarrow>
             r = Inl (Status ResourceExhausted ''too many affiliates in the cluster'') \<and> discovered X s' = discovered X s
         | Some ErrTooManyEndpoints \<Rightarrow>
             r = Inl (Status ResourceExhausted ''too many endpoints in the affiliate'') \<and>
             (\<forall>j k. (j, k) \<noteq> (i, req_ID ur) \<longrightarrow> discovered X s' j k = discovered X s j k))"
proof (cases "validateUpdate AsDuration req")
  case (Some err)
  then show ?thesis by (simp add: AffiliateUpdate_def)
next
  case None
  show ?thesis
    by (rule xsync_map.AffiliateUpdate_cases [OF assms(1-3) None, folded i_def ur_def])
      (auto simp: None split: option.split state_error.split)
qed

text \<open>
  C14: a deletion request. An invalid request changes nothing and reports the failed check; a valid
  one succeeds, whether or not the cluster or the affiliate exists, and afterwards the affiliate
  is gone from its cluster and every other entry is as before. No cluster is created.
\<close>

theorem AffiliateDelete_refines:
  fixes req :: "pb_AffiliateDeleteRequest option"
  assumes "xsync_map X" and "state_inv X s" and "range_order (sub_order e)"
  defines "i \<equiv> AffiliateDeleteRequest_GetClusterId req" and "k \<equiv> AffiliateDeleteRequest_GetAffiliateId req"
  shows "case (validateClusterID i, validateAffiliateID k) of
      (Some err, _) \<Rightarrow> AffiliateDelete X e req s = Some (s, Inl err)
    | (None, Some err) \<Rightarrow> AffiliateDelete X e req s = Some (s, Inl err)
    | (None, None) \<Rightarrow> \<exists>s'. AffiliateDelete X e req s = Some (s', Inr ()) \<and> state_inv X s' \<and>
        clusters s' = clusters s \<and> discovered X s' = (discovered X s)(i := (discovered X s i)(k := None))"
proof (cases "validateClusterID i = None \<and> validateAffiliateID k = None \<and> GetCluster X i s \<noteq> None")
  case True
  then obtain p where p: "x_Load X (clusters s) i = Some p" by (auto simp: GetCluster_def)
  have h: "p < length (heap s)" "cluster_inv (heap s ! p)" using state_invD [OF assms(2)] p by blast+
  obtain c where c: "DeleteAffiliate (sub_order e) (now_at e) (close_at e) k (heap s ! p) = Some c" "cluster_inv c"
    "affiliates c = AList.delete k (affiliates (heap s ! p))"
    using DeleteAffiliate_total [OF h(2) assms(3)] by blast
  have "state_inv X (put_cluster p c s)"
    by (rule state_inv_write [OF assms(2) h(1) c(2) DeleteAffiliate_id [OF h(2) assms(3) c(1)]])
  moreover have "discovered X (put_cluster p c s) = (discovered X s)(i := (discovered X s i)(k := None))"
    using discovered_put [OF assms(2) p, of c] p by (simp add: c(3) aff_view_delete discovered_def GetCluster_def)
  ultimately show ?thesis
    using True p c(1) by (simp add: AffiliateDelete_def i_def [symmetric] k_def [symmetric] GetCluster_def)
next
  case False
  have "GetCluster X i s = None \<Longrightarrow> (discovered X s)(i := (discovered X s i)(k := None)) = discovered X s"
    by (rule ext) (simp add: discovered_def)
  with False assms(2) show ?thesis
    by (auto simp: AffiliateDelete_def i_def [symmetric] k_def [symmetric] split: option.splits)
qed

definition info_of :: "pb_Affiliate \<Rightarrow> AffiliateInfo" where
  "info_of a = \<lparr>info_ID = f_Affiliate_Id a, info_Data = f_Affiliate_Data a, info_Endpoints = f_Affiliate_Endpoints a\<rparr>"

lemma info_of_toProto [simp]: "info_of (toProtoAffiliate i) = i" "f_Affiliate_Id (toProtoAffiliate i) = info_ID i"
  by (simp_all add: info_of_def toProtoAffiliate_def)

lemma list_ids:
  assumes "affs_inv (affiliates c)" and "range_order ao"
  shows "map info_ID (listAffiliatesLocked ao c) = ao (keys (affiliates c))"
proof -
  have "info_ID (ToInfo (the (map_of (affiliates c) k))) = k" if "k \<in> set (ao (keys (affiliates c)))" for k
    using that affs_invD(2) [OF assms(1), of k] assms(2) gm.ks_dom [of "affiliates c"]
    by (fastforce simp: ToInfo_def domIff)
  then show ?thesis by (simp add: listAffiliatesLocked_def map_idI)
qed

lemma List_entries:
  fixes req :: "pb_ListRequest option"
  assumes "state_inv X s" and "range_order (aff_order e)"
  defines "i \<equiv> ListRequest_GetClusterId req"
  shows "case validateClusterID i of
      Some err \<Rightarrow> List X e req s = Inl err
    | None \<Rightarrow> \<exists>as. List X e req s = Inr \<lparr>f_ListResponse_Affiliates = as\<rparr> \<and>
        distinct (map f_Affiliate_Id as) \<and> view_of_list (map info_of as) = discovered X s i"
proof (cases "GetCluster X i s")
  case None
  then show ?thesis
    by (auto simp: List_def i_def [symmetric] discovered_def view_of_list_def split: option.split)
next
  case (Some p)
  let ?c = "heap s ! p"
  have affs: "affs_inv (affiliates ?c)"
    using state_invD [OF assms(1)] Some by (auto simp: GetCluster_def cluster_inv_def)
  have "map f_Affiliate_Id (map toProtoAffiliate (ListAffiliates (aff_order e) ?c)) = aff_order e (keys (affiliates ?c))"
    using list_ids [OF affs assms(2)] by (simp add: ListAffiliates_def comp_def)
  moreover have "distinct (aff_order e (keys (affiliates ?c)))" using affs_invD(1) [OF affs] assms(2) by simp
  moreover have "view_of_list (map info_of (map toProtoAffiliate (ListAffiliates (aff_order e) ?c))) = discovered X s i"
    using list_view [OF affs assms(2)] Some by (simp add: ListAffiliates_def discovered_def comp_def)
  ultimately show ?thesis
    using Some by (auto simp: List_def i_def [symmetric] split: option.split)
qed

text \<open>
  C15: a listing. For a valid request the response has one entry per affiliate of the named cluster
  with its current public data, each once, and none for an unknown cluster; in any iteration
  order. An invalid request reports the failed check. Nothing is changed.
\<close>

theorem List_refines:
  fixes req :: "pb_ListRequest option"
  assumes "state_inv X s" and "range_order (aff_order e)"
  defines "i \<equiv> ListRequest_GetClusterId req"
  shows "case validateClusterID i of
      Some err \<Rightarrow> List X e req s = Inl err
    | None \<Rightarrow> \<exists>as. List X e req s = Inr \<lparr>f_ListResponse_Affiliates = as\<rparr> \<and>
        distinct (map f_Affiliate_Id as) \<and> view_of_list (map info_of as) = discovered X s i"
  unfolding i_def by (rule List_entries [OF assms(1,2)])

section \<open>Witnesses\<close>

definition demo_env :: env where
  "demo_env = \<lparr>new_at = 7, now_at = 8, close_at = 9, sub_order = rev, aff_order = rev\<rparr>"

definition demo_update :: "duration pb_AffiliateUpdateRequest option" where
  "demo_update = Some \<lparr>f_AffiliateUpdateRequest_ClusterId = ''c'', f_AffiliateUpdateRequest_AffiliateId = ''n'',
     f_AffiliateUpdateRequest_AffiliateData = [7], f_AffiliateUpdateRequest_AffiliateEndpoints = [[1], [2], [1]],
     f_AffiliateUpdateRequest_Ttl = Some 60\<rparr>"

definition demo_delete :: "pb_AffiliateDeleteRequest option" where
  "demo_delete = Some \<lparr>f_AffiliateDeleteRequest_ClusterId = ''c'', f_AffiliateDeleteRequest_AffiliateId = ''n''\<rparr>"

definition demo_list :: "pb_ListRequest option" where
  "demo_list = Some \<lparr>f_ListRequest_ClusterId = ''c''\<rparr>"

lemma demo_env_simps [simp]: "sub_order demo_env = rev" "aff_order demo_env = rev"
  by (simp_all add: demo_env_def)

lemma demo_discovered: "discovered alist_xsync demo_state ''c'' = Map.empty"
  using demo_state_get by (simp add: discovered_def)

lemma demo_valid: "validateUpdate id demo_update = None" "validateClusterID ''c'' = None" "validateAffiliateID ''n'' = None"
  by code_simp+

lemma demo_update_simps:
  "AffiliateUpdateRequest_GetClusterId demo_update = ''c''"
  "update_request id demo_update = \<lparr>req_ID = ''n'', req_Data = [7], req_Endpoints = [[1], [2], [1]], req_TTL = 60\<rparr>"
  by (simp_all add: demo_update_def update_request_def go_defs)

theorem AffiliateUpdate_refines_witness:
  "\<exists>s'. AffiliateUpdate alist_xsync id demo_env demo_update demo_state = Some (s', Inr ()) \<and>
     discovered alist_xsync s' ''c'' ''n'' = Some \<lparr>info_ID = ''n'', info_Data = [7], info_Endpoints = [[1], [2]]\<rparr>"
proof -
  have "spec_error Map.empty \<lparr>req_ID = ''n'', req_Data = [7], req_Endpoints = [[1], [2], [1]], req_TTL = 60\<rparr> = None"
    by (simp add: spec_error_def AffiliatesMax_def AffiliateEndpointsMax_def known_endpoints_def card_insert_if)
  then show ?thesis
    using AffiliateUpdate_refines [OF axs.xsync_map_axioms demo_state_inv, of demo_env id demo_update]
    by (auto simp: demo_valid demo_update_simps demo_discovered spec_info_def known_endpoints_def)
qed

theorem AffiliateDelete_refines_witness:
  "\<exists>s'. AffiliateDelete alist_xsync demo_env demo_delete demo_state = Some (s', Inr ()) \<and>
     discovered alist_xsync s' ''c'' = Map.empty"
  using AffiliateDelete_refines [OF axs.xsync_map_axioms demo_state_inv, of demo_env demo_delete]
  by (auto simp: demo_valid demo_delete_def go_defs demo_discovered)

theorem List_refines_witness:
  "\<exists>as. List alist_xsync demo_env demo_list demo_state = Inr \<lparr>f_ListResponse_Affiliates = as\<rparr> \<and>
     view_of_list (map info_of as) = Map.empty"
  using List_refines [OF demo_state_inv, of demo_env demo_list]
  by (auto simp: demo_valid demo_list_def go_defs demo_discovered)

end
