(* ===== verification/Server_Runs.thy ===== *)
theory Server_Runs
  imports Server_Spec
begin

text \<open>
  Whole executions of the discovery server: any number of clients send requests, open watch
  streams and drop them, the streams make their steps, the cleanup runs, in any order. The
  theorems hold of every such execution: nothing panics, the limits on the stored data hold at
  every moment, no stored entry outlives its maximal time to live, and a stream that has returned
  has given its subscription back.
\<close>

section \<open>The server as a machine\<close>

record 'm server =
  sv_state :: "'m State"
  sv_watches :: "watch list"

datatype 'd server_op =
    DoUpdate env "'d pb_AffiliateUpdateRequest option"
  | DoDelete env "pb_AffiliateDeleteRequest option"
  | DoWatch env "pb_WatchRequest option"
  | DoWatchStep nat time watch_choice
  | DoCtxClose nat time
  | DoCleanup env cleanup_clock

text \<open>
  \<open>DoWatchStep\<close> is a step of a stream, \<open>DoCtxClose\<close> the goroutine that \<open>SubscribeWithSnapshot\<close>
  starts, which closes the subscription once the context of its stream is done. Steps of streams
  that were never opened do nothing.
\<close>

fun serve :: "'m xsync \<Rightarrow> ('d \<Rightarrow> duration) \<Rightarrow> 'm server \<Rightarrow> 'd server_op \<Rightarrow> 'm server option" where
  "serve X AsDuration sv (DoUpdate e req) =
     map_option (\<lambda>(s, r). sv\<lparr>sv_state := s\<rparr>) (AffiliateUpdate X AsDuration e req (sv_state sv))"
| "serve X AsDuration sv (DoDelete e req) =
     map_option (\<lambda>(s, r). sv\<lparr>sv_state := s\<rparr>) (AffiliateDelete X e req (sv_state sv))"
| "serve X AsDuration sv (DoWatch e req) =
     (case Watch_start X e req (sv_state sv) of
        (s, Inl err) \<Rightarrow> Some (sv\<lparr>sv_state := s\<rparr>)
      | (s, Inr w) \<Rightarrow> Some (sv\<lparr>sv_state := s, sv_watches := sv_watches sv @ [w]\<rparr>))"
| "serve X AsDuration sv (DoWatchStep i t ch) =
     (if i < length (sv_watches sv)
      then map_option (\<lambda>(w, s). sv\<lparr>sv_state := s, sv_watches := (sv_watches sv)[i := w]\<rparr>)
             (Watch_step t ch (sv_watches sv ! i) (sv_state sv))
      else Some sv)"
| "serve X AsDuration sv (DoCtxClose i t) =
     (if i < length (sv_watches sv)
      then map_option (\<lambda>s. sv\<lparr>sv_state := s\<rparr>)
             (on_cluster (w_cluster (sv_watches sv ! i)) (Close t (w_sub (sv_watches sv ! i))) (sv_state sv))
      else Some sv)"
| "serve X AsDuration sv (DoCleanup e clk) =
     map_option (\<lambda>s. sv\<lparr>sv_state := s\<rparr>) (Cleanup X (sub_order e) (aff_order e) clk (sv_state sv))"

definition start_server :: "'m xsync \<Rightarrow> 'm server" where
  "start_server X = \<lparr>sv_state = empty_state X, sv_watches = []\<rparr>"

text \<open>Operations whose iteration orders are permutations and whose updates happen by instant \<open>T\<close>.\<close>

fun op_ok :: "time \<Rightarrow> 'd server_op \<Rightarrow> bool" where
  "op_ok T (DoUpdate e req) \<longleftrightarrow> range_order (sub_order e) \<and> now_at e \<le> T"
| "op_ok T (DoDelete e req) \<longleftrightarrow> range_order (sub_order e)"
| "op_ok T (DoWatch e req) \<longleftrightarrow> range_order (aff_order e)"
| "op_ok T (DoCleanup e clk) \<longleftrightarrow> range_order (sub_order e) \<and> range_order (aff_order e)"
| "op_ok T _ \<longleftrightarrow> True"

section \<open>Limits of one cluster\<close>

definition aff_limits :: "time \<Rightarrow> string \<Rightarrow> Affiliate \<Rightarrow> bool" where
  "aff_limits T k a \<longleftrightarrow> validateAffiliateID k = None \<and> length (aff_data a) \<le> AffiliateDataMax \<and>
     aff_expiry a \<le> time_Add T TTLMax \<and>
     (\<forall>e \<in> set (aff_endpoints a). length (ep_data e) \<le> AffiliateEndpointMax \<and> ep_expiry e \<le> time_Add T TTLMax)"

definition limits :: "time \<Rightarrow> Cluster \<Rightarrow> bool" where
  "limits T c \<longleftrightarrow> (\<forall>(k, a) \<in> set (affiliates c). aff_limits T k a)"

definition req_limits :: "AffiliateUpdateRequest \<Rightarrow> bool" where
  "req_limits req \<longleftrightarrow> validateAffiliateID (req_ID req) = None \<and> length (req_Data req) \<le> AffiliateDataMax \<and>
     (\<forall>d \<in> set (req_Endpoints req). length d \<le> AffiliateEndpointMax) \<and> sint (req_TTL req) \<le> sint TTLMax"

lemma validateAffiliateEndpoints_None:
  "validateAffiliateEndpoints ds = None \<longleftrightarrow> (\<forall>d \<in> set ds. length d \<le> AffiliateEndpointMax)"
  by (induction ds) (auto simp: not_less)

lemma validateUpdate_limits:
  "validateUpdate AsDuration req = None \<Longrightarrow> req_limits (update_request AsDuration req)"
  by (auto simp: validateUpdate_def req_limits_def update_request_def validateAffiliateEndpoints_None
      validateAffiliateData_def validateAffiliateTTL_def validateTTL_def split: option.splits if_splits)

lemma merged_limits:
  assumes "e \<in> set (merged_endpoints es ds x)" and "\<forall>e \<in> set es. length (ep_data e) \<le> n \<and> ep_expiry e \<le> b"
    and "\<forall>d \<in> set ds. length d \<le> n" and "x \<le> b"
  shows "length (ep_data e) \<le> n \<and> ep_expiry e \<le> b"
  using assms by (auto simp: merged_endpoints_def prolong_def set_fresh)

lemma Merge_limits:
  assumes "aff_inv a" and "aff_limits T k a" and "\<forall>d \<in> set ds. length d \<le> AffiliateEndpointMax"
    and "x \<le> time_Add T TTLMax"
  shows "aff_limits T k (fst (MergeEndpoints a ds x))"
  using assms(1)
proof (cases rule: MergeEndpoints_cases [where ds = ds and t = x])
  case ok
  with assms merged_limits [of _ "aff_endpoints a" ds x] show ?thesis by (auto simp: aff_limits_def)
next
  case (full xs d ys)
  with assms merged_limits [of _ "aff_endpoints a" xs x] show ?thesis by (auto simp: aff_limits_def)
qed

lemma limits_update:
  assumes "affs_inv (affiliates c)" and "limits T c" and "req_limits req" and "now \<le> T" and "0 \<le> T"
  shows "limits T (fst (updateAffiliateLocked now req c))"
proof -
  let ?b = "base_affiliate (req_ID req) c" and ?x = "time_Add now (req_TTL req)"
  have x: "?x \<le> time_Add T TTLMax" using assms(3,4) by (simp add: req_limits_def time_Add_def)
  have "aff_limits T (req_ID req) ?b"
    using assms(2,3,5) by (auto simp: base_affiliate_def limits_def aff_limits_def req_limits_def new_affiliate_def
        zero_time_def time_Add_def dest!: map_of_SomeD split: option.split)
  then have w: "aff_limits T (req_ID req) (with_data ?x req ?b)"
    using assms(3) x by (simp add: with_data_def aff_limits_def req_limits_def)
  have a: "aff_limits T (req_ID req) (fst (MergeEndpoints (with_data ?x req ?b) (req_Endpoints req) ?x))"
    by (rule Merge_limits [OF _ w]) (use assms x base_affiliate_inv in \<open>auto simp: req_limits_def\<close>)
  have put: "limits T (c\<lparr>affiliates := AList.update k a' (affiliates c)\<rparr>)" if "aff_limits T k a'" for k a'
    unfolding limits_def using all_update [OF affs_invD(1) [OF assms(1)], of "\<lambda>(k, a). aff_limits T k a"]
      assms(2) that by (simp add: limits_def)
  show ?thesis
    using assms(1)
    by (cases rule: updateAffiliateLocked_cases [where now = now and req = req]) (use assms(2) put a in auto)
qed

lemma limits_expiry: "limits T c \<Longrightarrow> map_of (affiliates c) k = Some a \<Longrightarrow> aff_expiry a \<le> T + 1800000000000"
  by (auto simp: limits_def aff_limits_def time_Add_def dest!: map_of_SomeD)

lemma limits_prune:
  assumes "affs_inv (affiliates c)" and "limits T c" and "range_order ao"
  shows "limits T (fst (pruneAffiliates ao now c))"
proof -
  let ?c = "fst (pruneAffiliates ao now c)"
  have d: "distinct (keys (affiliates ?c))"
    using prune_loop_inv [OF assms(1), of now "ao (keys (affiliates c))" "[]"]
    by (auto simp: pruneAffiliates_def affs_inv_def split: prod.splits)
  show ?thesis unfolding limits_def
  proof clarify
    fix k a assume "(k, a) \<in> set (affiliates ?c)"
    then have "map_of (affiliates ?c) k = Some a" using d by simp
    then obtain a0 where "map_of (affiliates c) k = Some a0" "a = prune_endpoints now a0"
      by (auto simp: pruneAffiliates_lookup [OF assms(1,3)] split: option.splits if_splits)
    with assms(2) show "aff_limits T k a"
      by (auto simp: limits_def aff_limits_def prune_endpoints_def dest!: map_of_SomeD)
  qed
qed

section \<open>What the operations on one cluster keep\<close>

text \<open>
  The relation between a cluster before and after operations that do not subscribe: invariant,
  limits, name and store size are kept, and no subscription comes back.
\<close>

definition keeps :: "time \<Rightarrow> Cluster \<Rightarrow> Cluster \<Rightarrow> bool" where
  "keeps T c c' \<longleftrightarrow> (cluster_budget 1 c \<and> limits T c \<longrightarrow>
     cluster_budget 1 c' \<and> limits T c' \<and> cl_id c' = cl_id c \<and> length (subs c') = length (subs c) \<and>
     (\<forall>p < length (subs c). \<not> registered c p \<longrightarrow> \<not> registered c' p))"

lemma keepsD:
  assumes "keeps T c c'" and "cluster_budget 1 c" and "limits T c"
  shows "cluster_budget 1 c'" and "limits T c'" and "cl_id c' = cl_id c" and "length (subs c') = length (subs c)"
    and "p < length (subs c) \<Longrightarrow> \<not> registered c p \<Longrightarrow> \<not> registered c' p"
  using assms by (auto simp: keeps_def)

lemma keeps_refl [simp]: "keeps T c c"
  by (simp add: keeps_def)

lemma keeps_trans: "keeps T c c1 \<Longrightarrow> keeps T c1 c2 \<Longrightarrow> keeps T c c2"
  by (auto simp: keeps_def)

fun cluster_op_ok :: "time \<Rightarrow> cluster_op \<Rightarrow> bool" where
  "cluster_op_ok T (OpUpdate now t req) \<longleftrightarrow> req_limits req \<and> now \<le> T"
| "cluster_op_ok T OpSubscribe \<longleftrightarrow> False"
| "cluster_op_ok T _ \<longleftrightarrow> True"

lemma Close_frame:
  assumes "subs_inv c" and "p < length (subs c)" and "Close t p c = Some c'"
  shows "length (subs c') = length (subs c)" and "cl_id c' = cl_id c" and "\<not> registered c' p"
proof -
  show "length (subs c') = length (subs c)" "cl_id c' = cl_id c" "\<not> registered c' p"
    using assms Close_registered [OF assms(1), of p t] Close_shut [OF assms(1,2), of t]
    by (cases "registered c p"; auto simp: unregister_def prolongExpiry_def registered_def)+
qed

lemma exec_op_frame:
  assumes "cluster_budget 1 c" and "limits T c" and "range_order so" and "range_order ao"
    and "cluster_op_ok T x" and "0 \<le> T" and "exec_op so ao c x = Some c'"
  shows "length (subs c') = length (subs c)" and "cl_id c' = cl_id c" and "limits T c'"
proof -
  have inv: "cluster_inv c" "affs_inv (affiliates c)" "subs_inv c"
    using assms(1) by (simp_all add: cluster_budget_def cluster_inv_def)
  have "length (subs c') = length (subs c) \<and> cl_id c' = cl_id c \<and> limits T c'"
  proof (cases x)
    case (OpUpdate now t req)
    then obtain r where u: "UpdateAffiliate so now t req c = Some (c', r)" "req_limits req" "now \<le> T"
      using assms(5,7) by (auto split: option.splits)
    with UpdateAffiliate_total [OF inv(1) assms(3), of now t req] limits_update [OF inv(2) assms(2) u(2,3) assms(6)]
      UpdateAffiliate_id [OF inv(1) assms(3) u(1)]
    show ?thesis by (auto simp: limits_def)
  next
    case (OpDelete now t i)
    with assms(7) DeleteAffiliate_total [OF inv(1) assms(3), of now t i] DeleteAffiliate_id [OF inv(1) assms(3), of now t i c'] assms(2)
    show ?thesis by (auto simp: limits_def set_delete)
  next
    case (OpPrune now t)
    with assms(7) Prune_total [OF inv(1) assms(3), of ao now t] Prune_id [OF inv(1) assms(3), of ao now t c']
      limits_prune [OF inv(2) assms(2,4), of now]
    show ?thesis by (auto simp: limits_def)
  next
    case (OpClose t p)
    with assms(2,7) Close_frame [OF inv(3), of p t c'] subs_inv_Close [OF inv(3), of p t] show ?thesis
      by (auto simp: limits_def split: if_splits)
  next
    case (OpRecv p)
    with assms(2,7) show ?thesis by (auto simp: limits_def recv_event_def Let_def split: if_splits prod.splits)
  next
    case (OpRecvErr p)
    with assms(2,7) show ?thesis by (auto simp: limits_def recv_error_def Let_def split: if_splits prod.splits)
  qed (use assms(5) in simp)
  then show "length (subs c') = length (subs c)" "cl_id c' = cl_id c" "limits T c'" by auto
qed

lemma exec_op_keeps:
  assumes "range_order so" and "range_order ao" and "cluster_op_ok T x" and "0 \<le> T"
    and "exec_op so ao c x = Some c'"
  shows "keeps T c c'"
  unfolding keeps_def
proof (intro impI, elim conjE)
  assume c: "cluster_budget 1 c" "limits T c"
  note F = exec_op_frame [OF c assms]
  have "cluster_budget 1 c'"
    using exec_op_inv(1) [of 0 c so ao x c'] c(1) assms(1,5) F(1) by (simp add: cluster_budget_def)
  moreover have "\<not> registered c' p" if "p < length (subs c)" "\<not> registered c p" for p
    using exec_op_queue [of 0 c so p ao x c'] c(1) assms(1,5) that by (auto simp: queue_step_def)
  ultimately show "cluster_budget 1 c' \<and> limits T c' \<and> cl_id c' = cl_id c \<and> length (subs c') = length (subs c) \<and>
      (\<forall>p < length (subs c). \<not> registered c p \<longrightarrow> \<not> registered c' p)"
    using F by blast
qed

section \<open>Invariant of the server\<close>

definition watch_ok :: "'m State \<Rightarrow> watch \<Rightarrow> bool" where
  "watch_ok s w \<longleftrightarrow> w_cluster w < length (heap s) \<and> w_sub w < length (subs (heap s ! w_cluster w)) \<and>
     (\<forall>r. w_pc w = Returned r \<longrightarrow> \<not> registered (heap s ! w_cluster w) (w_sub w))"

definition good :: "'m xsync \<Rightarrow> time \<Rightarrow> nat \<Rightarrow> 'm State \<Rightarrow> bool" where
  "good X T n s \<longleftrightarrow> state_inv X s \<and> Suc n < 2 ^ 64 \<and>
     (\<forall>p < length (heap s). limits T (heap s ! p) \<and> length (subs (heap s ! p)) + Suc n < 2 ^ 64)"

definition server_inv :: "'m xsync \<Rightarrow> time \<Rightarrow> nat \<Rightarrow> 'm server \<Rightarrow> bool" where
  "server_inv X T n sv \<longleftrightarrow> good X T n (sv_state sv) \<and> (\<forall>w \<in> set (sv_watches sv). watch_ok (sv_state sv) w)"

lemma goodD:
  assumes "good X T n s"
  shows "state_inv X s" and "Suc n < 2 ^ 64"
    and "p < length (heap s) \<Longrightarrow> cluster_budget 1 (heap s ! p)" and "p < length (heap s) \<Longrightarrow> limits T (heap s ! p)"
    and "p < length (heap s) \<Longrightarrow> cluster_inv (heap s ! p)"
    and "p < length (heap s) \<Longrightarrow> length (subs (heap s ! p)) + Suc n < 2 ^ 64"
  using assms state_invD(2) [of X s p] by (auto simp: good_def cluster_budget_def)

lemma good_mono: "good X T n s \<Longrightarrow> m \<le> n \<Longrightarrow> good X T m s"
  by (fastforce simp: good_def)

text \<open>The two ways a state changes: a cluster is replaced by one that keeps its contract, or created.\<close>

definition safe :: "'m xsync \<Rightarrow> time \<Rightarrow> nat \<Rightarrow> 'm State \<Rightarrow> 'm State \<Rightarrow> bool" where
  "safe X T n s s' \<longleftrightarrow> good X T n s' \<and> (\<forall>w. watch_ok s w \<longrightarrow> watch_ok s' w)"

lemma safe_trans: "safe X T n s s1 \<Longrightarrow> safe X T n s1 s2 \<Longrightarrow> safe X T n s s2"
  by (simp add: safe_def)

lemma safe_pointwise:
  assumes "good X T n s" and "state_inv X s'" and "length (heap s') = length (heap s)"
    and "\<And>p. p < length (heap s) \<Longrightarrow> keeps T (heap s ! p) (heap s' ! p)"
  shows "safe X T n s s'"
proof -
  have k: "limits T (heap s' ! p)" "length (subs (heap s' ! p)) = length (subs (heap s ! p))"
    "q < length (subs (heap s ! p)) \<Longrightarrow> \<not> registered (heap s ! p) q \<Longrightarrow> \<not> registered (heap s' ! p) q"
    if "p < length (heap s)" for p q
    using keepsD [OF assms(4) [OF that] goodD(3,4) [OF assms(1) that]] by auto
  then show ?thesis
    using assms(1-3) by (auto simp: safe_def good_def watch_ok_def)
qed

lemma safe_put:
  assumes "good X T n s" and "p < length (heap s)" and "keeps T (heap s ! p) c"
  shows "safe X T n s (put_cluster p c s)"
proof (rule safe_pointwise [OF assms(1)])
  show "state_inv X (put_cluster p c s)"
    using keepsD [OF assms(3) goodD(3,4) [OF assms(1,2)]]
    by (intro state_inv_write goodD(1) [OF assms(1)] assms(2)) (auto simp: cluster_budget_def)
qed (use assms(2,3) in \<open>auto simp: nth_list_update\<close>)

lemma limits_New [simp]: "limits T (NewCluster now i)"
  by (simp add: limits_def)

context xsync_map
begin

lemma safe_ClusterFor:
  assumes "good X T n s" and "ClusterFor X now i s = (p, s')"
  shows "safe X T n s s'" and "p < length (heap s')"
proof -
  note C = ClusterFor_cases [OF goodD(1) [OF assms(1)] assms(2)]
  show "p < length (heap s')" by (rule C(3))
  show "safe X T n s s'"
  proof (cases "x_Load X (clusters s) i")
    case None
    then have h: "heap s' = heap s @ [NewCluster now i]" using C(6) by simp
    have "good X T n s'" using assms(1) C(1) by (auto simp: good_def h nth_append less_Suc_eq)
    moreover have "watch_ok s w \<Longrightarrow> watch_ok s' w" for w by (auto simp: watch_ok_def h nth_append)
    ultimately show ?thesis by (simp add: safe_def)
  next
    case (Some q)
    with C(5) assms(1) show ?thesis by (simp add: safe_def)
  qed
qed

end

lemma safe_exec:
  assumes "good X T n s" and "p < length (heap s)" and "range_order so" and "range_order ao"
    and "cluster_op_ok T x" and "0 \<le> T"
  obtains c where "exec_op so ao (heap s ! p) x = Some c" and "safe X T n s (put_cluster p c s)"
proof -
  obtain c where c: "exec_op so ao (heap s ! p) x = Some c"
    using exec_op_total [of 0 "heap s ! p" so ao x] goodD(3) [OF assms(1,2)] assms(3) by auto
  with that safe_put [OF assms(1,2) exec_op_keeps [OF assms(3-6) c]] show ?thesis by blast
qed

lemma safe_subscribe:
  assumes "good X T (Suc n) s" and "p < length (heap s)" and "SubscribeWithSnapshot ao (heap s ! p) = (snap, q, c)"
  shows "safe X T n s (put_cluster p c s)" and "q < length (subs c)"
proof -
  let ?h = "heap s ! p"
  have c: "c = snd (snd (SubscribeWithSnapshot ao ?h))" "q = length (subs ?h)"
    using assms(3) by (auto simp: SubscribeWithSnapshot_def Let_def)
  show "q < length (subs c)" using c by simp
  have h: "cluster_inv ?h" "length (subs ?h) + Suc (Suc n) < 2 ^ 64" using goodD(5,6) [OF assms(1,2)] by auto
  have inv: "cluster_inv c" "cl_id c = cl_id ?h" "limits T c"
    using h SubscribeWithSnapshot_inv [of ?h ao] goodD(4) [OF assms(1,2)]
    by (auto simp: c(1) cluster_inv_def limits_def) (simp add: SubscribeWithSnapshot_def Let_def)
  have "state_inv X (put_cluster p c s)"
    by (rule state_inv_write [OF goodD(1) [OF assms(1)] assms(2) inv(1,2)])
  moreover have "length (subs c) = Suc (length (subs ?h))" by (simp add: c(1))
  moreover have "\<not> registered c r" if "r < length (subs ?h)" "\<not> registered ?h r" for r
    using queue_step_Subscribe [of ?h r ao] h that by (auto simp: queue_step_def c(1) cluster_inv_def)
  ultimately show "safe X T n s (put_cluster p c s)"
    using assms(1,2) inv(3) h(2)
    by (auto simp: safe_def good_def watch_ok_def nth_list_update less_SucI)
qed

lemma safe_Close:
  assumes "good X T n s" and "p < length (heap s)" and "q < length (subs (heap s ! p))" and "0 \<le> T"
  obtains c where "Close t q (heap s ! p) = Some c" and "safe X T n s (put_cluster p c s)"
    and "\<not> registered c q" and "length (subs c) = length (subs (heap s ! p))"
proof -
  obtain c where c: "exec_op (\<lambda>ks. ks) (\<lambda>ks. ks) (heap s ! p) (OpClose t q) = Some c" "safe X T n s (put_cluster p c s)"
    by (rule safe_exec [OF assms(1,2) _ _ _ assms(4), of "\<lambda>ks. ks" "\<lambda>ks. ks" "OpClose t q"]) auto
  moreover have "subs_inv (heap s ! p)" using goodD(5) [OF assms(1,2)] by (simp add: cluster_inv_def)
  ultimately show ?thesis using assms(3) Close_frame [of "heap s ! p" q t c] by (intro that [of c]) auto
qed

text \<open>A stream that returns leaves its subscription closed.\<close>

lemma Watch_return_safe:
  assumes "good X T n s" and "watch_ok s w" and "0 \<le> T"
  shows "\<exists>s'. Watch_return t r w s = Some (w\<lparr>w_pc := Returned r\<rparr>, s') \<and> safe X T n s s' \<and>
    watch_ok s' (w\<lparr>w_pc := Returned r\<rparr>)"
proof -
  have w: "w_cluster w < length (heap s)" "w_sub w < length (subs (heap s ! w_cluster w))"
    using assms(2) by (simp_all add: watch_ok_def)
  obtain c where "Close t (w_sub w) (heap s ! w_cluster w) = Some c" "safe X T n s (put_cluster (w_cluster w) c s)"
    "\<not> registered c (w_sub w)" "length (subs c) = length (subs (heap s ! w_cluster w))"
    by (rule safe_Close [OF assms(1) w assms(3)])
  with w show ?thesis by (simp add: Watch_return_def on_cluster_def watch_ok_def)
qed

lemma safe_recv:
  assumes "good X T n s" and "p < length (heap s)" and "0 \<le> T" and "q < length (subs (heap s ! p))"
  shows "safe X T n s (put_cluster p (snd (recv_event q (heap s ! p))) s)"
    and "safe X T n s (put_cluster p (snd (recv_error q (heap s ! p))) s)"
proof -
  show "safe X T n s (put_cluster p (snd (recv_event q (heap s ! p))) s)"
    by (rule safe_exec [OF assms(1,2) _ _ _ assms(3), of "\<lambda>ks. ks" "\<lambda>ks. ks" "OpRecv q"]) (use assms(4) in auto)
  show "safe X T n s (put_cluster p (snd (recv_error q (heap s ! p))) s)"
    by (rule safe_exec [OF assms(1,2) _ _ _ assms(3), of "\<lambda>ks. ks" "\<lambda>ks. ks" "OpRecvErr q"]) (use assms(4) in auto)
qed

lemma Watch_select_safe:
  assumes "good X T n s" and "watch_ok s w" and "w_pc w = Selecting" and "0 \<le> T"
  shows "\<exists>w' s'. Watch_select t ch w s = Some (w', s') \<and> safe X T n s s' \<and> watch_ok s' w'"
proof -
  let ?p = "w_cluster w" and ?q = "w_sub w"
  have w: "?p < length (heap s)" "?q < length (subs (heap s ! ?p))" using assms(2) by (simp_all add: watch_ok_def)
  have stay: "safe X T n s s" using assms(1) by (simp add: safe_def)
  have go: "\<exists>w' s'. Watch_return t r w s1 = Some (w', s') \<and> safe X T n s s' \<and> watch_ok s' w'"
    if "safe X T n s s1" for r s1
  proof -
    have "good X T n s1" "watch_ok s1 w" using that assms(2) by (simp_all add: safe_def)
    from Watch_return_safe [OF this assms(4)] safe_trans [OF that] show ?thesis by blast
  qed
  obtain ev ce where e: "recv_event ?q (heap s ! ?p) = (ev, ce)" by force
  obtain er cr where r: "recv_error ?q (heap s ! ?p) = (er, cr)" by force
  have s: "safe X T n s (put_cluster ?p ce s)" "safe X T n s (put_cluster ?p cr s)"
    using safe_recv [OF assms(1) w(1) assms(4) w(2)] by (simp_all add: e r)
  have sel: "watch_ok (put_cluster ?p ce s) (w\<lparr>w_pc := Sending m\<rparr>)" for m
    using s(1) assms(2) by (auto simp: safe_def watch_ok_def)
  show ?thesis
    using go [OF stay] go [OF s(1)] go [OF s(2)] s sel stay assms(2) e r
    by (cases ch) (auto simp: Watch_select_def split: recv.splits sub_error.splits)
qed

lemma Watch_step_safe:
  assumes "good X T n s" and "watch_ok s w" and "0 \<le> T"
  shows "\<exists>w' s'. Watch_step t ch w s = Some (w', s') \<and> safe X T n s s' \<and> watch_ok s' w'"
proof -
  have stay: "safe X T n s s" using assms(1) by (simp add: safe_def)
  have sent: "\<exists>w' s'. Watch_sent t r w s = Some (w', s') \<and> safe X T n s s' \<and> watch_ok s' w'" for r
  proof (cases r)
    case None
    with stay assms(2) show ?thesis by (auto simp: Watch_sent_def watch_ok_def)
  next
    case (Some err)
    with Watch_return_safe [OF assms, of t None] Watch_return_safe [OF assms, of t "Some err"]
    show ?thesis by (auto simp: Watch_sent_def)
  qed
  show ?thesis
    using sent stay assms(2) Watch_select_safe [OF assms(1,2) _ assms(3)]
    by (cases "w_pc w"; cases ch) (simp_all add: Watch_step_def)
qed

context xsync_map
begin

lemma Cleanup_safe:
  assumes "good X T n s" and "range_order so" and "range_order ao" and "0 \<le> T"
  shows "\<exists>s'. Cleanup X so ao clk s = Some s' \<and> safe X T n s s'"
proof -
  obtain s' where s': "Cleanup X so ao clk s = Some s'" "state_inv X s'"
    "\<forall>i p. x_Load X (clusters s) i = Some p \<longrightarrow> cleaned so ao clk s s' i p"
    "length (heap s') = length (heap s)" "\<forall>p. (\<forall>i. x_Load X (clusters s) i \<noteq> Some p) \<longrightarrow> heap s' ! p = heap s ! p"
    using Cleanup_total [OF goodD(1) [OF assms(1)] assms(2), of ao clk] by blast
  have "keeps T (heap s ! p) (heap s' ! p)" for p
  proof (cases "\<exists>i. x_Load X (clusters s) i = Some p")
    case True
    then obtain i where "cleaned so ao clk s s' i p" using s'(3) by blast
    then have "exec_op so ao (heap s ! p) (OpPrune (at_prune clk i) (at_close clk i)) = Some (heap s' ! p)"
      using cleanedD(1) by simp
    then show ?thesis by (rule exec_op_keeps [OF assms(2,3) _ assms(4), rotated]) simp
  next
    case False
    with s'(5) show ?thesis by simp
  qed
  with safe_pointwise [OF assms(1) s'(2,4)] s'(1) show ?thesis by blast
qed

lemma AffiliateUpdate_safe:
  assumes "good X T n s" and "range_order (sub_order e)" and "now_at e \<le> T" and "0 \<le> T"
  shows "\<exists>s' r. AffiliateUpdate X AsDuration e req s = Some (s', r) \<and> safe X T n s s'"
proof (cases "validateUpdate AsDuration req")
  case (Some err)
  with assms(1) show ?thesis by (simp add: AffiliateUpdate_def safe_def)
next
  case None
  let ?x = "OpUpdate (now_at e) (close_at e) (update_request AsDuration req)"
  obtain p s1 where cf: "ClusterFor X (new_at e) (AffiliateUpdateRequest_GetClusterId req) s = (p, s1)" by force
  note C = safe_ClusterFor [OF assms(1) cf]
  have g: "good X T n s1" using C(1) by (simp add: safe_def)
  have ok: "cluster_op_ok T ?x" using validateUpdate_limits [OF None] assms(3) by simp
  obtain c where c: "exec_op (sub_order e) (\<lambda>ks. ks) (heap s1 ! p) ?x = Some c" "safe X T n s1 (put_cluster p c s1)"
    by (rule safe_exec [OF g C(2) assms(2) _ ok assms(4), of "\<lambda>ks. ks"]) auto
  then obtain r where "UpdateAffiliate (sub_order e) (now_at e) (close_at e) (update_request AsDuration req) (heap s1 ! p) = Some (c, r)"
    by (auto split: option.splits)
  with None cf safe_trans [OF C(1) c(2)] show ?thesis by (simp add: AffiliateUpdate_def)
qed

lemma AffiliateDelete_safe:
  assumes "good X T n s" and "range_order (sub_order e)" and "0 \<le> T"
  shows "\<exists>s' r. AffiliateDelete X e req s = Some (s', r) \<and> safe X T n s s'"
proof -
  let ?i = "AffiliateDeleteRequest_GetClusterId req" and ?k = "AffiliateDeleteRequest_GetAffiliateId req"
  have "\<exists>c. DeleteAffiliate (sub_order e) (now_at e) (close_at e) ?k (heap s ! p) = Some c \<and> safe X T n s (put_cluster p c s)"
    if "GetCluster X ?i s = Some p" for p
  proof -
    have "p < length (heap s)" using state_invD(1) [OF goodD(1) [OF assms(1)]] that by (auto simp: GetCluster_def)
    from safe_exec [OF assms(1) this assms(2) _ _ assms(3), of "\<lambda>ks. ks" "OpDelete (now_at e) (close_at e) ?k"]
    show ?thesis by auto
  qed
  moreover have "safe X T n s s" using assms(1) by (simp add: safe_def)
  ultimately show ?thesis by (fastforce simp: AffiliateDelete_def split: option.split)
qed

end

section \<open>Every execution completes\<close>

lemma watches_safe:
  "safe X T n (sv_state sv) s \<Longrightarrow> \<forall>w \<in> set (sv_watches sv). watch_ok (sv_state sv) w \<Longrightarrow>
     server_inv X T n (sv\<lparr>sv_state := s\<rparr>)"
  by (simp add: server_inv_def safe_def)

lemma watches_safe_add:
  assumes "safe X T n (sv_state sv) s" and "\<forall>w \<in> set (sv_watches sv). watch_ok (sv_state sv) w" and "watch_ok s w"
  shows "server_inv X T n (sv\<lparr>sv_state := s, sv_watches := sv_watches sv @ [w]\<rparr>)"
    and "server_inv X T n (sv\<lparr>sv_state := s, sv_watches := (sv_watches sv)[i := w]\<rparr>)"
proof -
  have "\<forall>v \<in> set ((sv_watches sv)[i := w]). watch_ok s v"
    using assms set_update_subset_insert [of "sv_watches sv" i w] by (auto simp: safe_def)
  with assms show "server_inv X T n (sv\<lparr>sv_state := s, sv_watches := sv_watches sv @ [w]\<rparr>)"
    "server_inv X T n (sv\<lparr>sv_state := s, sv_watches := (sv_watches sv)[i := w]\<rparr>)"
    by (auto simp: server_inv_def safe_def)
qed

locale server_setup = xsync_map X for X :: "'m xsync" +
  fixes AsDuration :: "'d \<Rightarrow> duration" and T :: time
  assumes T_pos: "0 \<le> T"
begin

lemma start_inv: "Suc n < 2 ^ 64 \<Longrightarrow> server_inv X T n (start_server X)"
  using state_inv_empty by (simp add: server_inv_def start_server_def good_def empty_state_def)

lemma DoWatch_total:
  assumes "server_inv X T (Suc n) sv" and "op_ok T (DoWatch e req)"
  shows "\<exists>sv'. serve X AsDuration sv (DoWatch e req) = Some sv' \<and> server_inv X T n sv'"
proof (cases "validateClusterID (WatchRequest_GetClusterId req)")
  case (Some err)
  have "server_inv X T n sv" using assms(1) good_mono [of X T "Suc n" _ n] by (auto simp: server_inv_def)
  with Some show ?thesis by (simp add: Watch_start_def)
next
  case None
  have g: "good X T (Suc n) (sv_state sv)" "\<forall>w \<in> set (sv_watches sv). watch_ok (sv_state sv) w"
    using assms(1) by (simp_all add: server_inv_def)
  obtain p s1 where cf: "ClusterFor X (new_at e) (WatchRequest_GetClusterId req) (sv_state sv) = (p, s1)" by force
  obtain snap q c where sub: "SubscribeWithSnapshot (aff_order e) (heap s1 ! p) = (snap, q, c)"
    by (metis prod_cases3)
  note C = safe_ClusterFor [OF g(1) cf]
  have g1: "good X T (Suc n) s1" using C(1) by (simp add: safe_def)
  note S = safe_subscribe [OF g1 C(2) sub]
  have safe: "safe X T n (sv_state sv) (put_cluster p c s1)" using C(1) S(1) by (simp add: safe_def)
  have "watch_ok (put_cluster p c s1)
      \<lparr>w_cluster = p, w_sub = q, w_pc = if 0 < length snap then Sending (snapshot_response snap) else Selecting\<rparr>"
    using C(2) S(2) by (simp add: watch_ok_def)
  from watches_safe_add(1) [OF safe g(2) this] show ?thesis
    by (simp add: Watch_start_def None cf sub)
qed

lemma serve_total:
  assumes "server_inv X T (Suc n) sv" and "op_ok T x"
  shows "\<exists>sv'. serve X AsDuration sv x = Some sv' \<and> server_inv X T n sv'"
proof -
  have g: "good X T n (sv_state sv)" "\<forall>w \<in> set (sv_watches sv). watch_ok (sv_state sv) w"
    using assms(1) good_mono [of X T "Suc n" _ n] by (auto simp: server_inv_def)
  have same: "server_inv X T n sv" using g by (simp add: server_inv_def)
  note put = watches_safe [OF _ g(2)]
  show ?thesis
  proof (cases x)
    case (DoUpdate e req)
    with assms(2) put AffiliateUpdate_safe [OF g(1), of e AsDuration req] T_pos show ?thesis by fastforce
  next
    case (DoDelete e req)
    with assms(2) put AffiliateDelete_safe [OF g(1), of e req] T_pos show ?thesis by fastforce
  next
    case (DoWatch e req)
    with assms DoWatch_total show ?thesis by blast
  next
    case (DoWatchStep i t ch)
    show ?thesis
    proof (cases "i < length (sv_watches sv)")
      case True
      then have "watch_ok (sv_state sv) (sv_watches sv ! i)" using g(2) by simp
      with Watch_step_safe [OF g(1) _ T_pos] obtain w s where
        "Watch_step t ch (sv_watches sv ! i) (sv_state sv) = Some (w, s)" "safe X T n (sv_state sv) s" "watch_ok s w"
        by blast
      with True DoWatchStep watches_safe_add(2) [OF _ g(2)] show ?thesis by simp
    qed (use DoWatchStep same in simp)
  next
    case (DoCtxClose i t)
    show ?thesis
    proof (cases "i < length (sv_watches sv)")
      case True
      let ?w = "sv_watches sv ! i"
      have "w_cluster ?w < length (heap (sv_state sv))" "w_sub ?w < length (subs (heap (sv_state sv) ! w_cluster ?w))"
        using g(2) True by (simp_all add: watch_ok_def)
      from safe_Close [OF g(1) this T_pos] obtain c where
        "Close t (w_sub ?w) (heap (sv_state sv) ! w_cluster ?w) = Some c"
        "safe X T n (sv_state sv) (put_cluster (w_cluster ?w) c (sv_state sv))" by blast
      with True DoCtxClose put show ?thesis by (simp add: on_cluster_def)
    qed (use DoCtxClose same in simp)
  next
    case (DoCleanup e clk)
    with assms(2) put Cleanup_safe [OF g(1), of "sub_order e" "aff_order e" clk] T_pos show ?thesis by fastforce
  qed
qed

end

sublocale server_setup \<subseteq> sm: total_machine "serve X AsDuration" "op_ok T" "server_inv X T"
  by unfold_locales (rule serve_total)

interpretation demo_server: server_setup alist_xsync "\<lambda>d. d" 100
  by unfold_locales simp

context server_setup
begin

lemma served:
  assumes "\<forall>x \<in> set ops. op_ok T x" and "Suc (length ops) < 2 ^ 64"
  shows "\<exists>sv. run (serve X AsDuration) (start_server X) ops = Some sv \<and> server_inv X T 0 sv"
  using sm.run_total [of 0 ops "start_server X"] start_inv assms by simp

lemma served_inv:
  assumes "\<forall>x \<in> set ops. op_ok T x" and "Suc (length ops) < 2 ^ 64"
    and "run (serve X AsDuration) (start_server X) ops = Some sv"
  shows "server_inv X T 0 sv"
  using served [OF assms(1,2)] assms(3) by auto

end

section \<open>Properties of every execution\<close>

lemma server_setupI: "xsync_map X \<Longrightarrow> 0 \<le> T \<Longrightarrow> server_setup X T"
  by (simp add: server_setup_def server_setup_axioms_def)

text \<open>
  C18: the server does not panic. From the empty state, every sequence of updates, deletions, watch
  streams opening and stepping, contexts ending and cleanups runs to completion, whatever the
  requests contain and in whatever order the parts interleave, and leaves the state consistent:
  each name in the map leads to the cluster of that name, and every cluster invariant holds. The
  bound on the number of operations keeps the 64-bit subscription counters from wrapping.
\<close>

theorem server_never_panics:
  assumes "xsync_map X" and "0 \<le> T" and "\<forall>x \<in> set ops. op_ok T x" and "Suc (length ops) < 2 ^ 64"
  shows "\<exists>sv. run (serve X AsDuration) (start_server X) ops = Some sv \<and> state_inv X (sv_state sv)"
  using server_setup.served [OF server_setupI [OF assms(1,2)] assms(3,4), of AsDuration]
  by (auto simp: server_inv_def good_def)

definition demo_requests :: "duration server_op list" where
  "demo_requests = [DoUpdate demo_env demo_update, DoWatch demo_env (Some \<lparr>f_WatchRequest_ClusterId = ''c''\<rparr>),
     DoWatchStep 0 5 (Sent None), DoDelete demo_env demo_delete, DoWatchStep 0 6 Events,
     DoWatchStep 0 7 (Sent (Some (Status Canceled ''gone''))), DoCtxClose 0 8, DoCleanup demo_env late_clock]"

lemma demo_requests_ok: "\<forall>x \<in> set demo_requests. op_ok 100 x" "length demo_requests = 8"
  by (simp_all add: demo_requests_def demo_env_def)

theorem server_never_panics_witness:
  "\<exists>sv. run (serve alist_xsync (\<lambda>d. d)) (start_server alist_xsync) demo_requests = Some sv \<and>
     state_inv alist_xsync (sv_state sv)"
  by (rule server_never_panics [OF axs.xsync_map_axioms _ demo_requests_ok(1)]) (simp_all add: demo_requests_ok(2))


lemma demo_first: "\<exists>sv. run (serve alist_xsync (\<lambda>d. d)) (start_server alist_xsync) (take 1 demo_requests) = Some sv \<and>
    GetCluster alist_xsync ''c'' (sv_state sv) = Some 0 \<and> map fst (affiliates (heap (sv_state sv) ! 0)) = [''n'']"
proof -
  let ?r = "run (serve alist_xsync (\<lambda>d. d)) (start_server alist_xsync) (take 1 demo_requests)"
  have "(case ?r of None \<Rightarrow> False | Some sv \<Rightarrow> GetCluster alist_xsync ''c'' (sv_state sv) = Some 0 \<and>
      map fst (affiliates (heap (sv_state sv) ! 0)) = [''n''])"
    by code_simp
  then show ?thesis by (auto split: option.splits)
qed


text \<open>
  C20: a silent service forgets everything. After any execution in which the last update happened
  by instant \<open>T\<close>, a cleanup that prunes later than 30 minutes after \<open>T\<close> completes and leaves no
  affiliate in any cluster, because the requested lifetimes are capped.
\<close>

theorem idle_service_forgets:
  assumes "xsync_map X" and "0 \<le> T" and "\<forall>x \<in> set ops. op_ok T x" and "Suc (length ops) < 2 ^ 64"
    and "run (serve X AsDuration) (start_server X) ops = Some sv"
    and "range_order so" and "range_order ao" and "\<forall>i. T + 30 * 60 * 1000000000 \<le> at_prune clk i"
  shows "\<exists>s'. Cleanup X so ao clk (sv_state sv) = Some s' \<and> (\<forall>i. discovered X s' i = Map.empty)"
proof -
  let ?s = "sv_state sv"
  have g: "good X T 0 ?s"
    using server_setup.served_inv [OF server_setupI [OF assms(1,2)] assms(3-5)] by (simp add: server_inv_def)
  obtain s' where s': "Cleanup X so ao clk ?s = Some s'"
    "\<forall>i p. x_Load X (clusters ?s) i = Some p \<longrightarrow> xsync_map.cleaned X so ao clk ?s s' i p"
    "\<forall>k. x_Load X (clusters ?s) k = None \<longrightarrow> x_Load X (clusters s') k = None"
    using xsync_map.Cleanup_total [OF assms(1) goodD(1) [OF g] assms(6), of ao clk] by blast
  have "discovered X s' i = Map.empty" for i
  proof (cases "x_Load X (clusters ?s) i")
    case None
    with s'(3) show ?thesis by (simp add: discovered_def GetCluster_def)
  next
    case (Some p)
    let ?c = "heap ?s ! p"
    have p: "p < length (heap ?s)" using state_invD(1) [OF goodD(1) [OF g] Some] by simp
    have cl: "xsync_map.cleaned X so ao clk ?s s' i p" using s'(2) Some by blast
    then have "Prune so ao (at_prune clk i) (at_close clk i) ?c = Some (heap s' ! p)"
      by (rule xsync_map.cleanedD(1) [OF assms(1)])
    with Prune_total [OF goodD(5) [OF g p] assms(6), of ao "at_prune clk i" "at_close clk i"]
    have "affiliates (heap s' ! p) = affiliates (fst (pruneAffiliates ao (at_prune clk i) ?c))" by auto
    moreover have "\<forall>k a. map_of (affiliates ?c) k = Some a \<longrightarrow> aff_expiry a \<le> at_prune clk i"
    proof (intro allI impI)
      fix k a assume "map_of (affiliates ?c) k = Some a"
      then have "aff_expiry a \<le> T + 1800000000000" by (rule limits_expiry [OF goodD(4) [OF g p]])
      also have "\<dots> \<le> at_prune clk i" using spec [OF assms(8), of i] by simp
      finally show "aff_expiry a \<le> at_prune clk i" .
    qed
    moreover have "affs_inv (affiliates ?c)" using goodD(5) [OF g p] by (simp add: cluster_inv_def)
    ultimately have "affiliates (heap s' ! p) = []"
      using affiliates_empty_iff [OF _ assms(7), of ?c "at_prune clk i"] by simp
    moreover have "x_Load X (clusters s') i = Some p \<or> x_Load X (clusters s') i = None"
      using xsync_map.cleanedD(2) [OF assms(1) cl] by simp
    ultimately show ?thesis by (auto simp: discovered_def GetCluster_def)
  qed
  with s'(1) show ?thesis by blast
qed

theorem idle_service_forgets_witness:
  "\<exists>sv s'. run (serve alist_xsync (\<lambda>d. d)) (start_server alist_xsync) (take 1 demo_requests) = Some sv \<and>
     Cleanup alist_xsync rev rev (late_clock\<lparr>at_prune := \<lambda>_. 1800000000100\<rparr>) (sv_state sv) = Some s' \<and>
     discovered alist_xsync s' ''c'' = Map.empty"
proof -
  obtain sv where sv: "run (serve alist_xsync (\<lambda>d. d)) (start_server alist_xsync) (take 1 demo_requests) = Some sv"
    by (rule exE [OF demo_first]) (elim conjE, rule that)
  have "\<forall>x \<in> set (take 1 demo_requests). op_ok 100 x" using demo_requests_ok(1) by (meson in_set_takeD)
  from idle_service_forgets [OF axs.xsync_map_axioms _ this _ sv range_order_rev range_order_rev,
      of "late_clock\<lparr>at_prune := \<lambda>_. 1800000000100\<rparr>"]
  show ?thesis using sv by (auto simp: demo_requests_ok(2))
qed

text \<open>
  C21: a watch that has returned holds no resources. Whatever made the stream end (its context, a
  failed send, a lost update, a closed subscription), in every later state of every execution its
  subscription is closed, both its channels are closed, and the cluster no longer lists it as a
  subscriber.
\<close>

theorem returned_watch_unsubscribed:
  assumes "xsync_map X" and "0 \<le> T" and "\<forall>x \<in> set ops. op_ok T x" and "Suc (length ops) < 2 ^ 64"
    and "run (serve X AsDuration) (start_server X) ops = Some sv"
    and "w \<in> set (sv_watches sv)" and "w_pc w = Returned r"
  shows "let c = heap (sv_state sv) ! w_cluster w; s = subs c ! w_sub w in
    sub_closed s \<and> ch_closed (sub_ch s) \<and> ch_closed (sub_errCh s) \<and> w_sub w \<notin> snd ` set (subscribers c)"
proof -
  let ?c = "heap (sv_state sv) ! w_cluster w"
  have inv: "server_inv X T 0 sv" by (rule server_setup.served_inv [OF server_setupI [OF assms(1,2)] assms(3-5)])
  then have g: "good X T 0 (sv_state sv)" by (simp add: server_inv_def)
  have w: "w_cluster w < length (heap (sv_state sv))" "w_sub w < length (subs ?c)" "\<not> registered ?c (w_sub w)"
    using inv assms(6,7) by (auto simp: server_inv_def watch_ok_def)
  have s: "subs_inv ?c" using goodD(5) [OF g w(1)] by (simp add: cluster_inv_def)
  have "sub_shut (sub_key (w_sub w)) (subs ?c ! w_sub w)" by (rule subs_invD(6) [OF s w(2,3)])
  moreover have "w_sub w \<notin> snd ` set (subscribers ?c)" using subs_invD(4) [OF s] w(3) by auto
  ultimately show ?thesis by (simp add: sub_shut_def Let_def)
qed

lemma demo_served: "\<exists>sv w. run (serve alist_xsync (\<lambda>d. d)) (start_server alist_xsync) demo_requests = Some sv \<and>
    sv_watches sv = [w] \<and> w_pc w = Returned None \<and> w_cluster w = 0 \<and> w_sub w = 0"
proof -
  let ?r = "run (serve alist_xsync (\<lambda>d. d)) (start_server alist_xsync) demo_requests"
  have "(case ?r of None \<Rightarrow> False
     | Some sv \<Rightarrow> map w_pc (sv_watches sv) = [Returned None] \<and> map w_cluster (sv_watches sv) = [0] \<and>
         map w_sub (sv_watches sv) = [0])"
    by code_simp
  then show ?thesis by (auto split: option.splits simp: map_eq_Cons_conv)
qed

theorem returned_watch_unsubscribed_witness:
  "\<exists>sv. run (serve alist_xsync (\<lambda>d. d)) (start_server alist_xsync) demo_requests = Some sv \<and>
     sub_closed (subs (heap (sv_state sv) ! 0) ! 0) \<and> 0 \<notin> snd ` set (subscribers (heap (sv_state sv) ! 0))"
proof -
  obtain sv w where sv: "run (serve alist_xsync (\<lambda>d. d)) (start_server alist_xsync) demo_requests = Some sv"
    "sv_watches sv = [w]" "w_pc w = Returned None" "w_cluster w = 0" "w_sub w = 0"
    by (rule exE [OF demo_served]) (elim exE conjE, rule that)
  from returned_watch_unsubscribed [OF axs.xsync_map_axioms _ demo_requests_ok(1) _ sv(1) _ sv(3)] sv
  show ?thesis by (auto simp: demo_requests_ok(2) Let_def)
qed

end
