(* ===== verification/Watch_Stream.thy ===== *)
theory Watch_Stream
  imports Server_Runs
begin

text \<open>
  What the client of a watch stream sees: the first response rebuilds the cluster, each further
  response carries one event, and how the stream ends when the client was too slow.
\<close>

section \<open>The client's copy\<close>

definition client_apply :: "pb_WatchResponse \<Rightarrow> aff_map \<Rightarrow> aff_map" where
  "client_apply resp v =
     fold (\<lambda>a u. if f_WatchResponse_Deleted resp then u(f_Affiliate_Id a := None)
                 else u(f_Affiliate_Id a \<mapsto> info_of a))
       (f_WatchResponse_Affiliates resp) v"

lemma client_apply_event: "client_apply (event_response ev) v = apply_event ev v"
  by (cases "ev_Type ev") (simp_all add: client_apply_def event_response_def apply_event_def)

lemma fold_upsert:
  "distinct (map info_ID is) \<Longrightarrow> fold (\<lambda>a u. u(f_Affiliate_Id a \<mapsto> info_of a)) (map toProtoAffiliate is) v = v ++ view_of_list is"
proof (induction "is" arbitrary: v)
  case (Cons i "is")
  then have "view_of_list is (info_ID i) = None" by (auto simp: view_of_list_def map_of_eq_None_iff image_image)
  with Cons show ?case by (auto simp: view_of_list_def map_add_def fun_eq_iff split: option.splits)
qed (simp add: view_of_list_def)

lemma client_apply_snapshot:
  "distinct (map info_ID snap) \<Longrightarrow> client_apply (snapshot_response snap) Map.empty = view_of_list snap"
  by (simp add: client_apply_def snapshot_response_def fold_upsert)

text \<open>
  A watch stream carries the cluster. A request with an invalid name fails and changes
  nothing. Otherwise the stream subscribes, which changes no entry of the service; its first
  response, sent when the cluster has affiliates, gives the client exactly the current affiliates
  of the cluster, and an empty cluster sends nothing and goes to the select. Each event then
  becomes one response that has on the client's copy the effect of the event on the cluster.
\<close>

theorem Watch_starts_from_state:
  fixes req :: "pb_WatchRequest option"
  assumes "xsync_map X" and "state_inv X s" and "range_order (aff_order e)"
    and "Watch_start X e req s = (s', r)"
  defines "i \<equiv> WatchRequest_GetClusterId req"
  assumes bound: "\<forall>p. GetCluster X i s = Some p \<longrightarrow> Suc (length (subs (heap s ! p))) < 2 ^ 64"
  shows "(case validateClusterID i of
      Some err \<Rightarrow> s' = s \<and> r = Inl err
    | None \<Rightarrow> state_inv X s' \<and> discovered X s' = discovered X s \<and>
        (\<exists>w. r = Inr w \<and> GetCluster X i s' = Some (w_cluster w) \<and>
           (if discovered X s i = Map.empty then w_pc w = Selecting
            else \<exists>resp. w_pc w = Sending resp \<and> client_apply resp Map.empty = discovered X s i))) \<and>
    (\<forall>ev v. client_apply (event_response ev) v = apply_event ev v)"
proof (cases "validateClusterID i")
  case (Some err)
  with assms(4) show ?thesis by (simp add: Watch_start_def i_def client_apply_event)
next
  case None
  obtain p s1 where cf: "ClusterFor X (new_at e) i s = (p, s1)" by force
  note C = xsync_map.ClusterFor_cases [OF assms(1,2) cf]
  obtain snap q c where sub: "SubscribeWithSnapshot (aff_order e) (heap s1 ! p) = (snap, q, c)" by (metis prod_cases3)
  let ?h = "heap s1 ! p"
  have h: "cluster_inv ?h" by (rule state_invD(2) [OF C(1,3)])
  then have affs: "affs_inv (affiliates ?h)" and hs: "subs_inv ?h" by (simp_all add: cluster_inv_def)
  have budget: "Suc (length (subs ?h)) < 2 ^ 64"
    using C(5,6) bound by (cases "x_Load X (clusters s) i") (auto simp: GetCluster_def nth_append)
  have c: "c = snd (snd (SubscribeWithSnapshot (aff_order e) ?h))" "snap = listAffiliatesLocked (aff_order e) ?h"
    using sub by (auto simp: SubscribeWithSnapshot_def Let_def)
  have inv: "state_inv X (put_cluster p c s1)"
    by (rule state_inv_write [OF C(1,3)])
      (use h SubscribeWithSnapshot_inv [OF hs budget] in \<open>auto simp: c(1) cluster_inv_def\<close>,
        simp add: SubscribeWithSnapshot_def Let_def)
  have d1: "discovered X s1 = discovered X s" by (rule xsync_map.discovered_ClusterFor [OF assms(1,2) cf])
  have view: "aff_view (affiliates ?h) = discovered X s i"
    using d1 [THEN fun_cong, of i] C(2) by (simp add: discovered_def GetCluster_def)
  have "affiliates c = affiliates ?h" by (simp add: c(1))
  then have d: "discovered X (put_cluster p c s1) = discovered X s"
    using discovered_put [OF C(1,2), of c] view d1 by simp
  have snap: "view_of_list snap = discovered X s i" using list_view [OF affs assms(3)] by (simp add: c(2) view)
  have ids: "distinct (map info_ID snap)"
    using list_ids [OF affs assms(3)] affs_invD(1) [OF affs] assms(3) by (simp add: c(2))
  have empty: "discovered X s i = Map.empty \<longleftrightarrow> snap = []"
    unfolding snap [symmetric] by (cases snap) (auto simp: view_of_list_def)
  have "s' = put_cluster p c s1" "r = Inr \<lparr>w_cluster = p, w_sub = q,
      w_pc = (if 0 < length snap then Sending (snapshot_response snap) else Selecting)\<rparr>"
    using assms(4) None cf sub by (simp_all add: Watch_start_def i_def)
  with None inv d empty C(2) client_apply_snapshot [OF ids] snap show ?thesis
    by (auto simp: client_apply_event GetCluster_def)
qed

theorem Watch_starts_from_state_witness:
  "\<exists>w. snd (Watch_start alist_xsync demo_env (Some \<lparr>f_WatchRequest_ClusterId = ''c''\<rparr>) demo_state) = Inr w \<and>
     w_pc w = Selecting"
proof -
  let ?r = "Watch_start alist_xsync demo_env (Some \<lparr>f_WatchRequest_ClusterId = ''c''\<rparr>) demo_state"
  have "?r = (fst ?r, snd ?r)" by simp
  from Watch_starts_from_state [OF axs.xsync_map_axioms demo_state_inv _ this] show ?thesis
    by (auto simp: demo_state_get demo_valid demo_discovered go_defs)
qed

section \<open>A client that was too slow\<close>

text \<open>A stream alone: the steps it makes while nothing else touches its cluster.\<close>

abbreviation stream_step :: "time \<Rightarrow> watch \<times> 'm State \<Rightarrow> watch_choice \<Rightarrow> (watch \<times> 'm State) option" where
  "stream_step t x ch \<equiv> Watch_step t ch (fst x) (snd x)"

text \<open>Taking every buffered event, each followed by a successful send.\<close>

lemma stream_drains:
  assumes "p < length (heap s)" and "q < length (subs (heap s ! p))" and "cluster_inv (heap s ! p)"
    and "\<not> registered (heap s ! p) q" and "ch_buf (sub_ch (subs (heap s ! p) ! q)) = evs"
  shows "\<exists>c. run (stream_step t) (\<lparr>w_cluster = p, w_sub = q, w_pc = Selecting\<rparr>, s)
      (concat (replicate (length evs) [Events, Sent None])) =
        Some (\<lparr>w_cluster = p, w_sub = q, w_pc = Selecting\<rparr>, put_cluster p c s) \<and>
    cluster_inv c \<and> \<not> registered c q \<and> length (subs c) = length (subs (heap s ! p)) \<and> ch_buf (sub_ch (subs c ! q)) = []"
  using assms
proof (induction evs arbitrary: s)
  case Nil
  then show ?case by (intro exI [of _ "heap s ! p"]) simp
next
  case (Cons ev evs)
  let ?h = "heap s ! p" and ?w = "\<lparr>w_cluster = p, w_sub = q, w_pc = Selecting\<rparr>"
  define c where "c = upd_sub q ((subs ?h ! q)\<lparr>sub_ch := (sub_ch (subs ?h ! q))\<lparr>ch_buf := evs\<rparr>\<rparr>) ?h"
  have rc: "recv_event q ?h = (Got ev, c)"
    using Cons.prems(5) by (simp add: recv_event_def recv_chan_def Let_def c_def)
  have inv: "cluster_inv c"
    using recv_inv(1) [of ?h q] rc Cons.prems(2,3) by (simp add: cluster_inv_def c_def)
  have c: "\<not> registered c q" "length (subs c) = length (subs ?h)" "ch_buf (sub_ch (subs c ! q)) = evs"
    using Cons.prems(2,4) by (simp_all add: c_def registered_def)
  let ?s = "put_cluster p c s"
  have h1: "heap ?s ! p = c" "p < length (heap ?s)" using Cons.prems(1) by simp_all
  have two: "run (stream_step t) (?w, s) (Events # Sent None # xs) = run (stream_step t) (?w, ?s) xs" for xs
    by (simp add: Watch_step_def Watch_select_def Watch_sent_def rc)
  obtain c' where "run (stream_step t) (?w, ?s) (concat (replicate (length evs) [Events, Sent None])) =
      Some (?w, put_cluster p c' ?s)" "cluster_inv c'" "\<not> registered c' q"
    "length (subs c') = length (subs c)" "ch_buf (sub_ch (subs c' ! q)) = []"
    using Cons.IH [of ?s] Cons.prems(2) inv c h1 by auto
  with two c(2) show ?case by (intro exI [of _ c']) simp
qed

lemma Watch_return_shut:
  assumes "p < length (heap s)" and "cluster_inv (heap s ! p)" and "q < length (subs (heap s ! p))"
    and "\<not> registered (heap s ! p) q"
  shows "Watch_return t r \<lparr>w_cluster = p, w_sub = q, w_pc = pc\<rparr> s = Some (\<lparr>w_cluster = p, w_sub = q, w_pc = Returned r\<rparr>, s)"
proof -
  have "Close t q (heap s ! p) = Some (heap s ! p)"
    by (rule Close_shut) (use assms in \<open>simp_all add: cluster_inv_def\<close>)
  then show ?thesis by (simp add: Watch_return_def on_cluster_def)
qed

text \<open>
  C22: a lost update can look like a normal end of the stream. When an event arrives for a client
  whose 64 slots are taken, the subscription is closed with the error queued. From then on both
  channels of the stream's select are ready: taking the error ends the stream with the error
  \<^verbatim>\<open>lost update\<close>, but a select that keeps taking the event channel delivers the 64 queued
  events, finds the channel closed, and ends the stream without an error. Which one the client
  gets is the runtime's random choice.
\<close>

theorem lost_update_may_end_cleanly:
  assumes "p < length (heap s)" and "cluster_inv (heap s ! p)" and "range_order so"
    and "q < length (subs (heap s ! p))" and "\<not> sub_closed (subs (heap s ! p) ! q)"
    and "length (ch_buf (sub_ch (subs (heap s ! p) ! q))) = 64"
  defines "w \<equiv> \<lambda>pc. \<lparr>w_cluster = p, w_sub = q, w_pc = pc\<rparr>"
  shows "\<exists>c s2 s3. notify so t ev (heap s ! p) = Some c \<and>
    Watch_step t Errors (w Selecting) (put_cluster p c s) = Some (w (Returned (Some (Plain ''lost update''))), s2) \<and>
    run (stream_step t) (w Selecting, put_cluster p c s) (concat (replicate 64 [Events, Sent None]) @ [Events]) =
      Some (w (Returned None), s3)"
proof -
  let ?h = "heap s ! p" and ?c = "fanout t ev (heap s ! p)"
  let ?s1 = "put_cluster p ?c s"
  have hs: "subs_inv ?h" using assms(2) by (simp add: cluster_inv_def)
  note N = notify_fanout [OF hs assms(3), of t ev]
  have full: "sub_full (subs ?h ! q)" using assms(5,6) by (simp add: sub_full_def affiliateSubBuffer_def)
  have inv: "cluster_inv ?c" using assms(2) N by (simp add: cluster_inv_def)
  have reg: "\<not> registered ?c q" using registered_fanout [OF hs] full by simp
  have len: "q < length (subs ?c)" using assms(4) by simp
  have q: "subs ?c ! q = shut ((subs ?h ! q)\<lparr>sub_errCh := (sub_errCh (subs ?h ! q))\<lparr>ch_buf := [LostUpdate]\<rparr>\<rparr>)"
    using assms(4,5) full by (simp add: fanout_def deliver_def)
  have h1: "heap ?s1 ! p = ?c" "p < length (heap ?s1)" using assms(1) by simp_all
  obtain cr where rc: "recv_error q ?c = (Got LostUpdate, cr)" "cr = snd (recv_error q ?c)"
    by (simp add: recv_error_def recv_chan_def Let_def q shut_def)
  have cr: "cluster_inv cr" "\<not> registered cr q" "length (subs cr) = length (subs ?c)"
    using inv reg recv_inv(2) [of ?c q] len
    by (auto simp: rc(2) cluster_inv_def registered_def) (simp add: recv_error_def Let_def case_prod_unfold)
  have err: "Watch_step t Errors (w Selecting) ?s1 = Some (w (Returned (Some (Plain ''lost update''))), put_cluster p cr ?s1)"
    using Watch_return_shut [of p "put_cluster p cr ?s1" q t _ Selecting] cr len h1(2)
    by (simp add: Watch_step_def Watch_select_def w_def rc(1) h1(1))
  have buf: "length (ch_buf (sub_ch (subs (heap ?s1 ! p) ! q))) = 64"
    unfolding h1(1) q using assms(6) by (simp add: shut_def)
  obtain c' where drained: "run (stream_step t) (w Selecting, ?s1) (concat (replicate 64 [Events, Sent None])) =
      Some (w Selecting, put_cluster p c' ?s1)" "cluster_inv c'" "\<not> registered c' q"
    "length (subs c') = length (subs ?c)" "ch_buf (sub_ch (subs c' ! q)) = []"
    using stream_drains [OF h1(2), of q _ t, OF _ _ _ refl, unfolded buf] inv reg len assms(1) by (auto simp: w_def)
  have "ch_closed (sub_ch (subs c' ! q))"
    using subs_invD(6) [of c' q] drained(2-4) len by (simp add: cluster_inv_def sub_shut_def)
  then have "recv_event q c' = (Drained, c')" using drained(5) by (simp add: recv_event_def recv_chan_def Let_def)
  then have fin: "Watch_step t Events (w Selecting) (put_cluster p c' ?s1) = Some (w (Returned None), put_cluster p c' ?s1)"
    using Watch_return_shut [of p "put_cluster p c' ?s1" q t None Selecting] drained(2-4) len h1(2)
    by (simp add: Watch_step_def Watch_select_def w_def)
  have "run (stream_step t) (w Selecting, ?s1) (concat (replicate 64 [Events, Sent None]) @ [Events]) =
      Some (w (Returned None), put_cluster p c' ?s1)"
    unfolding run_snoc drained(1) using fin by simp
  with N(1) err show ?thesis by blast
qed

definition slow_cluster :: Cluster where
  "slow_cluster = (let c = snd (snd (SubscribeWithSnapshot rev (NewCluster 0 ''c'')));
     s = subs c ! 0 in upd_sub 0 (s\<lparr>sub_ch := (sub_ch s)\<lparr>ch_buf := replicate 64 (tombstone ''n'')\<rparr>\<rparr>) c)"

lemma slow_cluster_inv: "cluster_inv slow_cluster"
proof -
  let ?c = "snd (snd (SubscribeWithSnapshot rev (NewCluster 0 ''c'')))"
  have "subs_inv ?c" using SubscribeWithSnapshot_inv [of "NewCluster 0 ''c''" rev] cluster_inv_New [of 0 "''c''"]
    by (simp add: cluster_inv_def)
  then have "subs_inv slow_cluster" unfolding slow_cluster_def Let_def
    by (rule subs_inv_upd_same) (auto simp: sub_open_def sub_shut_def affiliateSubBuffer_def)
  then show ?thesis by (simp add: cluster_inv_def slow_cluster_def Let_def affs_inv_def)
qed

theorem lost_update_may_end_cleanly_witness:
  "\<exists>c s3. notify rev 5 (tombstone ''n'') slow_cluster = Some c \<and>
     run (stream_step 5) (\<lparr>w_cluster = 0, w_sub = 0, w_pc = Selecting\<rparr>, demo_state\<lparr>heap := [c]\<rparr>)
       (concat (replicate 64 [Events, Sent None]) @ [Events]) =
     Some (\<lparr>w_cluster = 0, w_sub = 0, w_pc = Returned None\<rparr>, s3)"
proof -
  have slow: "length (subs slow_cluster) = 1" "\<not> sub_closed (subs slow_cluster ! 0)"
    "length (ch_buf (sub_ch (subs slow_cluster ! 0))) = 64"
    by (simp_all add: slow_cluster_def SubscribeWithSnapshot_def Let_def)
  from lost_update_may_end_cleanly [of 0 "demo_state\<lparr>heap := [slow_cluster]\<rparr>" rev 0 5 "tombstone ''n''"]
  obtain c s3 where "notify rev 5 (tombstone ''n'') slow_cluster = Some c"
    "run (stream_step 5) (\<lparr>w_cluster = 0, w_sub = 0, w_pc = Selecting\<rparr>, demo_state\<lparr>heap := [c]\<rparr>)
       (concat (replicate 64 [Events, Sent None]) @ [Events]) =
     Some (\<lparr>w_cluster = 0, w_sub = 0, w_pc = Returned None\<rparr>, s3)"
    using slow slow_cluster_inv by auto
  then show ?thesis by (intro exI [of _ c] exI [of _ s3] conjI)
qed

end
