(* ===== verification/Stream_Copies.thy ===== *)
theory Stream_Copies
  imports Watch_Stream
begin

text \<open>
  The clients of the watch streams beside the server: each keeps the copy that it makes of the
  responses it has been sent. In every execution of the server the copy of an open stream, with
  the response in hand and the queued events applied, is what the service holds for the cluster
  that the client asked for; and a stream that is given its steps catches up.
\<close>

section \<open>Clients beside the server\<close>

text \<open>A client is the name of the cluster it asked for and its copy.\<close>

type_synonym client = "string \<times> aff_map"

fun received :: "'m server \<Rightarrow> 'd server_op \<Rightarrow> client list \<Rightarrow> client list" where
  "received sv (DoWatch e req) cs =
     (if validateClusterID (WatchRequest_GetClusterId req) = None
      then cs @ [(WatchRequest_GetClusterId req, Map.empty)] else cs)"
| "received sv (DoWatchStep i t (Sent None)) cs =
     (if i < length (sv_watches sv)
      then (case w_pc (sv_watches sv ! i) of
              Sending resp \<Rightarrow> cs[i := (fst (cs ! i), client_apply resp (snd (cs ! i)))]
            | _ \<Rightarrow> cs)
      else cs)"
| "received sv _ cs = cs"

fun serve_clients ::
  "'m xsync \<Rightarrow> ('d \<Rightarrow> duration) \<Rightarrow> 'm server \<times> client list \<Rightarrow> 'd server_op \<Rightarrow> ('m server \<times> client list) option" where
  "serve_clients X AsDuration (sv, cs) x =
     map_option (\<lambda>sv'. (sv', received sv x cs)) (serve X AsDuration sv x)"

text \<open>
  The updates that the code announces, on the abstract level: those that do not fail with too many
  endpoints and do not create an entry without data and endpoints.
\<close>

fun announced_request :: "'m xsync \<Rightarrow> ('d \<Rightarrow> duration) \<Rightarrow> 'm server \<times> client list \<Rightarrow> 'd server_op \<Rightarrow> bool" where
  "announced_request X AsDuration svc (DoUpdate e req) \<longleftrightarrow>
     (let v = discovered X (sv_state (fst svc)) (AffiliateUpdateRequest_GetClusterId req);
          ur = update_request AsDuration req
      in validateUpdate AsDuration req = None \<longrightarrow>
         spec_error v ur \<noteq> Some ErrTooManyEndpoints \<and>
         (v (req_ID ur) \<noteq> None \<or> req_Data ur \<noteq> [] \<or> req_Endpoints ur \<noteq> []))"
| "announced_request X AsDuration svc _ \<longleftrightarrow> True"

lemma announced_spec:
  assumes "affs_inv (affiliates c)"
  shows "announced c (OpUpdate now t req) \<longleftrightarrow>
    spec_error (aff_view (affiliates c)) req \<noteq> Some ErrTooManyEndpoints \<and>
    (aff_view (affiliates c) (req_ID req) \<noteq> None \<or> req_Data req \<noteq> [] \<or> req_Endpoints req \<noteq> [])"
  unfolding spec_error_guards [OF assms] by (auto simp: aff_view_def)

section \<open>What one cluster tells its watchers\<close>

text \<open>
  A step of a cluster queues events at every subscription that is still registered, and nothing
  at the others. It tells its watchers everything (\<open>full\<close>) when the change of the affiliates is the
  effect of these events.
\<close>

definition tells :: "bool \<Rightarrow> Cluster \<Rightarrow> Cluster \<Rightarrow> bool" where
  "tells full c c' \<longleftrightarrow> length (subs c) \<le> length (subs c') \<and> cl_id c' = cl_id c \<and>
     (\<exists>evs. (full \<longrightarrow> aff_view (affiliates c') = fold apply_event evs (aff_view (affiliates c))) \<and>
        (\<forall>q < length (subs c). queue_step q evs [] c c'))"

lemma tells_weaken: "tells True c c' \<Longrightarrow> tells full c c'"
  by (auto simp: tells_def)

lemma tells_refl [simp]: "tells full c c"
  by (auto simp: tells_def queue_step_id intro!: exI [of _ "[]"])

lemma tells_trans:
  assumes "tells True c c1" and "tells True c1 c2"
  shows "tells True c c2"
proof -
  obtain evs evs' where e: "aff_view (affiliates c1) = fold apply_event evs (aff_view (affiliates c))"
    "\<forall>q < length (subs c). queue_step q evs [] c c1"
    "aff_view (affiliates c2) = fold apply_event evs' (aff_view (affiliates c1))"
    "\<forall>q < length (subs c1). queue_step q evs' [] c1 c2"
    using assms by (auto simp: tells_def)
  have "queue_step q (evs @ evs') [] c c2" if "q < length (subs c)" for q
    using queue_step_trans [of q evs "[]" c c1 evs' "[]" c2] e(2,4) that assms(1) by (auto simp: tells_def)
  with assms e(1,3) show ?thesis by (auto simp: tells_def intro!: exI [of _ "evs @ evs'"])
qed

lemma tells_agrees:
  assumes "tells True c c'" and "q < length (subs c)" and "registered c' q"
    and "fold apply_event (in_flight q c) v = aff_view (affiliates c)"
  shows "fold apply_event (in_flight q c') v = aff_view (affiliates c') \<and> registered c q"
proof -
  obtain evs where "aff_view (affiliates c') = fold apply_event evs (aff_view (affiliates c))"
    "in_flight q c @ evs = in_flight q c'" "registered c q"
    using assms(1-3) by (auto simp: tells_def queue_step_def)
  with assms(4) show ?thesis by (metis fold_append o_apply)
qed

lemma exec_op_id:
  assumes "cluster_inv c" and "range_order so" and "exec_op so ao c x = Some c'"
  shows "cl_id c' = cl_id c"
proof (cases x)
  case (OpUpdate now t req)
  with assms UpdateAffiliate_id [OF assms(1,2)] show ?thesis by (auto split: option.splits)
next
  case (OpDelete now t i)
  with assms DeleteAffiliate_id [OF assms(1,2)] show ?thesis by auto
next
  case (OpPrune now t)
  with assms Prune_id [OF assms(1,2)] show ?thesis by auto
next
  case OpSubscribe
  with assms(3) show ?thesis by (auto simp: SubscribeWithSnapshot_def Let_def)
next
  case (OpClose t p)
  with assms Close_frame(2) [of c p t c'] show ?thesis by (auto simp: cluster_inv_def split: if_splits)
next
  case (OpRecv p)
  with assms(3) show ?thesis by (auto simp: recv_event_def Let_def split: if_splits prod.splits)
next
  case (OpRecvErr p)
  with assms(3) show ?thesis by (auto simp: recv_error_def Let_def split: if_splits prod.splits)
qed

lemma exec_op_tells:
  assumes "cluster_budget 1 c" and "range_order so" and "exec_op so ao c x = Some c'"
    and "full \<Longrightarrow> announced c x" and "\<And>q. op_received q c x = []"
  shows "tells full c c'"
proof -
  have inv: "cluster_inv c" "cluster_budget (Suc 0) c" using assms(1) by (simp_all add: cluster_budget_def)
  have "queue_step q (op_events ao c x) [] c c'" if "q < length (subs c)" for q
    using exec_op_queue [OF inv(2) assms(2) that assms(3)] assms(5) by simp
  with exec_op_inv(2) [OF inv(2) assms(2,3)] exec_op_id [OF inv(1) assms(2,3)]
    exec_op_view [OF inv(1) assms(2) assms(4) assms(3)]
  show ?thesis by (auto simp: tells_def)
qed

section \<open>What a step of the server tells\<close>

text \<open>Every cluster tells its watchers, and the name of one with a subscription still leads to it.\<close>

definition state_tells :: "bool \<Rightarrow> 'm xsync \<Rightarrow> 'm State \<Rightarrow> 'm State \<Rightarrow> bool" where
  "state_tells full X s s' \<longleftrightarrow> length (heap s) \<le> length (heap s') \<and>
     (\<forall>p < length (heap s). tells full (heap s ! p) (heap s' ! p) \<and>
        (\<forall>q i. registered (heap s' ! p) q \<longrightarrow> GetCluster X i s = Some p \<longrightarrow> GetCluster X i s' = Some p))"

lemma state_tells_refl [simp]: "state_tells full X s s"
  by (simp add: state_tells_def)

lemma state_tells_weaken: "state_tells True X s s' \<Longrightarrow> state_tells full X s s'"
  by (simp add: state_tells_def tells_weaken)

lemma state_tells_put:
  assumes "p < length (heap s)" and "tells full (heap s ! p) c"
  shows "state_tells full X s (put_cluster p c s)"
  using assms by (auto simp: state_tells_def GetCluster_def nth_list_update)

lemma tells_Close:
  assumes "cluster_budget 1 c" and "q < length (subs c)" and "Close t q c = Some c'"
  shows "tells True c c'"
  using exec_op_tells [OF assms(1) range_order_id, of "\<lambda>ks. ks" "OpClose t q" c'] assms(2,3) by simp

lemma tells_recv:
  assumes "cluster_budget 1 c" and "q < length (subs c)"
  shows "tells True c (snd (recv_error q c))" and "fst (recv_event q c) = Drained \<Longrightarrow> tells True c (snd (recv_event q c))"
proof -
  show "tells True c (snd (recv_error q c))"
    using exec_op_tells [OF assms(1) range_order_id, of "\<lambda>ks. ks" "OpRecvErr q"] assms(2) by simp
  show "tells True c (snd (recv_event q c))" if "fst (recv_event q c) = Drained"
    by (rule exec_op_tells [OF assms(1) range_order_id, of "\<lambda>ks. ks" "OpRecv q"]) (use assms(2) that in auto)
qed

context xsync_map
begin

text \<open>An operation on the cluster that \<open>ClusterFor\<close> finds or creates.\<close>

lemma state_tells_ClusterFor:
  assumes "state_inv X s" and "ClusterFor X now i s = (p, s1)" and "tells full (heap s1 ! p) c"
  shows "state_tells full X s (put_cluster p c s1)"
proof (cases "x_Load X (clusters s) i")
  case (Some q)
  note C = ClusterFor_cases [OF assms(1,2)]
  have "s1 = s" "p < length (heap s)" using C(3,5) Some by auto
  with assms(3) show ?thesis using state_tells_put by blast
next
  case None
  note C = ClusterFor_cases [OF assms(1,2)]
  have n: "p = length (heap s)" "heap s1 = heap s @ [NewCluster now i]" using C(6) None by auto
  have "x_Load X (clusters s) j = Some r \<Longrightarrow> x_Load X (clusters s1) j = Some r" for j r
    using C(4) [of j] None by (cases "j = i") auto
  then show ?thesis by (auto simp: state_tells_def GetCluster_def n nth_append)
qed

lemma ClusterFor_view:
  assumes "state_inv X s" and "ClusterFor X now i s = (p, s1)"
  shows "aff_view (affiliates (heap s1 ! p)) = discovered X s i"
  using discovered_ClusterFor [OF assms, THEN fun_cong, of i] ClusterFor_cases(2) [OF assms]
  by (simp add: discovered_def GetCluster_def)

lemma AffiliateUpdate_tells:
  assumes "good X T n s" and "range_order (sub_order e)" 
    and "full \<Longrightarrow> announced_request X AsDuration (sv, cs) (DoUpdate e req)"
    and "sv_state sv = s" and "AffiliateUpdate X AsDuration e req s = Some (s', r)"
  shows "state_tells full X s s'"
proof (cases "validateUpdate AsDuration req")
  case (Some err)
  with assms(5) show ?thesis by (simp add: AffiliateUpdate_def)
next
  case None
  let ?i = "AffiliateUpdateRequest_GetClusterId req" and ?ur = "update_request AsDuration req"
  let ?x = "OpUpdate (now_at e) (close_at e) ?ur"
  obtain p s1 where cf: "ClusterFor X (new_at e) ?i s = (p, s1)" by force
  have g1: "good X T n s1" "p < length (heap s1)" using safe_ClusterFor [OF assms(1) cf] by (simp_all add: safe_def)
  have view: "aff_view (affiliates (heap s1 ! p)) = discovered X s ?i" by (rule ClusterFor_view [OF goodD(1) [OF assms(1)] cf])
  have affs: "affs_inv (affiliates (heap s1 ! p))" using goodD(5) [OF g1] by (simp add: cluster_inv_def)
  have ann: "announced (heap s1 ! p) ?x" if full
    unfolding announced_spec [OF affs] view using assms(3) [OF that] assms(4) None by (simp add: Let_def)
  obtain c where c: "UpdateAffiliate (sub_order e) (now_at e) (close_at e) ?ur (heap s1 ! p) = Some c"
    "s' = put_cluster p (fst c) s1"
    using assms(5) None cf by (auto simp: AffiliateUpdate_def split: option.splits)
  have "tells full (heap s1 ! p) (fst c)"
    by (rule exec_op_tells [OF goodD(3) [OF g1] assms(2) _ ann]) (use c(1) in \<open>auto split: prod.split\<close>)
  with state_tells_ClusterFor [OF goodD(1) [OF assms(1)] cf] c(2) show ?thesis by simp
qed

lemma AffiliateDelete_tells:
  assumes "good X T n s" and "range_order (sub_order e)" and "AffiliateDelete X e req s = Some (s', r)"
  shows "state_tells True X s s'"
proof -
  have "state_tells True X s (put_cluster p c s)"
    if "GetCluster X i s = Some p" "DeleteAffiliate (sub_order e) now t k (heap s ! p) = Some c" for i p c now t k
  proof -
    have p: "p < length (heap s)" using state_invD(1) [OF goodD(1) [OF assms(1)]] that(1) by (auto simp: GetCluster_def)
    have "tells True (heap s ! p) c"
      by (rule exec_op_tells [OF goodD(3) [OF assms(1) p] assms(2), of "\<lambda>ks. ks" "OpDelete now t k"]) (use that(2) in simp_all)
    with p show ?thesis by (rule state_tells_put)
  qed
  with assms(3) show ?thesis by (auto simp: AffiliateDelete_def split: option.splits)
qed

lemma Watch_start_tells:
  assumes "good X T n s" and "Watch_start X e req s = (s', r)"
  shows "state_tells True X s s'"
proof (cases "validateClusterID (WatchRequest_GetClusterId req)")
  case (Some err)
  with assms(2) show ?thesis by (simp add: Watch_start_def)
next
  case None
  obtain p s1 where cf: "ClusterFor X (new_at e) (WatchRequest_GetClusterId req) s = (p, s1)" by force
  obtain snap q c where sub: "SubscribeWithSnapshot (aff_order e) (heap s1 ! p) = (snap, q, c)" by (metis prod_cases3)
  have g1: "good X T n s1" "p < length (heap s1)" using safe_ClusterFor [OF assms(1) cf] by (simp_all add: safe_def)
  have "tells True (heap s1 ! p) c"
    using exec_op_tells [OF goodD(3) [OF g1] range_order_id, of "aff_order e" OpSubscribe c] sub by simp
  with state_tells_ClusterFor [OF goodD(1) [OF assms(1)] cf] assms(2) None cf sub show ?thesis
    by (auto simp: Watch_start_def)
qed

text \<open>A cleanup removes no cluster that still has a subscription.\<close>

lemma Cleanup_tells:
  assumes "good X T n s" and "range_order so" and "Cleanup X so ao clk s = Some s'"
  shows "state_tells True X s s'"
proof -
  note inv = goodD(1) [OF assms(1)]
  have s': "\<And>i p. x_Load X (clusters s) i = Some p \<Longrightarrow> cleaned so ao clk s s' i p"
    "length (heap s') = length (heap s)" "\<And>p. (\<forall>i. x_Load X (clusters s) i \<noteq> Some p) \<Longrightarrow> heap s' ! p = heap s ! p"
    using Cleanup_total [OF inv assms(2), of ao clk] assms(3) by auto
  have "tells True (heap s ! p) (heap s' ! p)" if "p < length (heap s)" for p
  proof (cases "\<exists>i. x_Load X (clusters s) i = Some p")
    case True
    then obtain i where "cleaned so ao clk s s' i p" using s'(1) by blast
    then have "exec_op so ao (heap s ! p) (OpPrune (at_prune clk i) (at_close clk i)) = Some (heap s' ! p)"
      using cleanedD(1) by simp
    then show ?thesis by (rule exec_op_tells [OF goodD(3) [OF assms(1) that] assms(2)]) simp_all
  next
    case False
    with s'(3) show ?thesis by simp
  qed
  moreover have "x_Load X (clusters s') i = Some p"
    if "registered (heap s' ! p) q" "x_Load X (clusters s) i = Some p" for p q i
  proof -
    have "\<not> IsEmpty (heap s' ! p)" using that(1) by (auto simp: IsEmpty_def registered_def)
    with cleanedD(2) [OF s'(1) [OF that(2)]] show ?thesis by simp
  qed
  ultimately show ?thesis using s'(2) by (auto simp: state_tells_def GetCluster_def)
qed

end

section \<open>The copies\<close>

text \<open>The copy once the response that a stream is sending has arrived.\<close>

definition in_hand :: "watch \<Rightarrow> aff_map \<Rightarrow> aff_map" where
  "in_hand w v = (case w_pc w of Sending resp \<Rightarrow> client_apply resp v | _ \<Rightarrow> v)"

definition agrees :: "'m xsync \<Rightarrow> 'm State \<Rightarrow> watch \<Rightarrow> client \<Rightarrow> bool" where
  "agrees X s w cl \<longleftrightarrow>
     (registered (heap s ! w_cluster w) (w_sub w) \<longrightarrow>
        fold apply_event (in_flight (w_sub w) (heap s ! w_cluster w)) (in_hand w (snd cl)) =
          aff_view (affiliates (heap s ! w_cluster w)) \<and>
        GetCluster X (fst cl) s = Some (w_cluster w))"

abbreviation w_id :: "watch \<Rightarrow> nat \<times> nat" where
  "w_id w \<equiv> (w_cluster w, w_sub w)"

lemma agrees_tells:
  assumes "state_tells True X s s'" and "watch_ok s w" and "agrees X s w cl"
  shows "agrees X s' w cl"
proof -
  let ?p = "w_cluster w" and ?q = "w_sub w"
  have w: "?p < length (heap s)" "?q < length (subs (heap s ! ?p))" using assms(2) by (simp_all add: watch_ok_def)
  have "tells True (heap s ! ?p) (heap s' ! ?p)" using assms(1) w(1) by (simp add: state_tells_def)
  from tells_agrees [OF this w(2)] assms(1,3) w show ?thesis
    by (auto simp: agrees_def state_tells_def tells_def queue_step_def)
qed

text \<open>A receive concerns one subscription only.\<close>

lemma agrees_recv:
  assumes "p < length (heap s)" and "recv_event q (heap s ! p) = (Got ev, c)" and "w_id w \<noteq> (p, q)"
    and "agrees X s w cl"
  shows "agrees X (put_cluster p c s) w cl"
proof -
  have c: "c = snd (recv_event q (heap s ! p))" using assms(2) by simp
  show ?thesis
    using assms(1,3,4) by (auto simp: agrees_def c recv_event_def Let_def registered_def in_flight_def GetCluster_def
        nth_list_update split: prod.splits)
qed

lemma agrees_shut: "\<not> registered (heap s ! w_cluster w) (w_sub w) \<Longrightarrow> agrees X s w cl"
  by (simp add: agrees_def)

text \<open>How a returning stream leaves the others.\<close>

lemma Watch_return_agrees:
  assumes "good X T n s" and "watch_ok s w" and "tells True (heap s ! w_cluster w) c" and "cluster_budget 1 c"
    and "Watch_return t r w (put_cluster (w_cluster w) c s) = Some (w', s')"
  shows "w_id w' = w_id w" and "state_tells True X s s'" and "agrees X s' w' cl"
proof -
  let ?p = "w_cluster w" and ?q = "w_sub w"
  have w: "?p < length (heap s)" "?q < length (subs c)"
    using assms(2,3) by (auto simp: watch_ok_def tells_def)
  obtain d where d: "Close t ?q c = Some d" "w' = w\<lparr>w_pc := Returned r\<rparr>" "s' = put_cluster ?p d s"
    using assms(5) w(1) by (auto simp: Watch_return_def on_cluster_def split: option.splits)
  have "subs_inv c" using assms(4) by (simp add: cluster_budget_def cluster_inv_def)
  with Close_frame(3) d(1) w(2) have "\<not> registered d ?q" by blast
  with d w show "w_id w' = w_id w" "agrees X s' w' cl" by (simp_all add: agrees_shut)
  show "state_tells True X s s'"
    unfolding d(3) by (rule state_tells_put [OF w(1) tells_trans [OF assms(3) tells_Close [OF assms(4) w(2) d(1)]]])
qed

lemma recv_budget:
  assumes "cluster_budget 1 c" and "q < length (subs c)"
  shows "cluster_budget 1 (snd (recv_event q c))" and "cluster_budget 1 (snd (recv_error q c))"
  using recv_inv [of c q] assms by (auto simp: cluster_budget_def cluster_inv_def)

text \<open>The outcomes of the select: nothing was ready, the stream returns, or it has an event to send.\<close>

lemma Watch_select_cases:
  assumes "good X T n s" and "watch_ok s w" and "Watch_select t ch w s = Some (w', s')"
  obtains (stay) "w' = w" "s' = s"
    | (return) r d where "Watch_return t r w (put_cluster (w_cluster w) d s) = Some (w', s')"
        "tells True (heap s ! w_cluster w) d" "cluster_budget 1 d"
    | (event) x ce where "recv_event (w_sub w) (heap s ! w_cluster w) = (Got x, ce)"
        "w' = w\<lparr>w_pc := Sending (event_response x)\<rparr>" "s' = put_cluster (w_cluster w) ce s"
proof -
  let ?p = "w_cluster w" and ?q = "w_sub w" and ?c = "heap s ! w_cluster w"
  have w: "?p < length (heap s)" "?q < length (subs ?c)" using assms(2) by (simp_all add: watch_ok_def)
  have b: "cluster_budget 1 ?c" by (rule goodD(3) [OF assms(1) w(1)])
  obtain er cr where r: "recv_error ?q ?c = (er, cr)" by force
  obtain ev ce where e: "recv_event ?q ?c = (ev, ce)" by force
  have cr: "tells True ?c cr" "cluster_budget 1 cr" using tells_recv(1) [OF b w(2)] recv_budget(2) [OF b w(2)] r by simp_all
  have ce: "ev = Drained \<Longrightarrow> tells True ?c ce" "cluster_budget 1 ce"
    using tells_recv(2) [OF b w(2)] recv_budget(1) [OF b w(2)] e by simp_all
  show thesis
  proof (cases ch)
    case (Sent r)
    with assms(3) show thesis by (intro stay) (simp_all add: Watch_select_def)
  next
    case (Done err)
    with assms(3) b show thesis by (intro return [of "Some err" ?c]) (simp_all add: Watch_select_def)
  next
    case Errors
    note sel = assms(3) [unfolded Watch_select_def Errors, simplified, unfolded r, simplified]
    show thesis
    proof (cases er)
      case Blocked
      with sel show thesis by (intro stay) simp_all
    next
      case (Got x)
      with sel cr show thesis by (cases x) (auto intro: return)
    next
      case Drained
      with sel cr show thesis by (auto intro: return)
    qed
  next
    case Events
    note sel = assms(3) [unfolded Watch_select_def Events, simplified, unfolded e, simplified]
    show thesis
    proof (cases ev)
      case Blocked
      with sel show thesis by (intro stay) simp_all
    next
      case (Got x)
      with sel e show thesis by (intro event [of x ce]) simp_all
    next
      case Drained
      with sel ce show thesis by (auto intro: return)
    qed
  qed
qed

lemma Watch_select_agrees:
  assumes "good X T n s" and "watch_ok s w" and "w_pc w = Selecting" and "agrees X s w cl"
    and "Watch_select t ch w s = Some (w', s')"
  shows "w_id w' = w_id w" and "agrees X s' w' cl"
    and "watch_ok s w2 \<Longrightarrow> w_id w2 \<noteq> w_id w \<Longrightarrow> agrees X s w2 cl2 \<Longrightarrow> agrees X s' w2 cl2"
proof -
  let ?p = "w_cluster w" and ?q = "w_sub w" and ?c = "heap s ! w_cluster w"
  have w: "?p < length (heap s)" "?q < length (subs ?c)" using assms(2) by (simp_all add: watch_ok_def)
  note ret = Watch_return_agrees [OF assms(1,2)]
  from assms(1,2,5)
  have "w_id w' = w_id w \<and> agrees X s' w' cl \<and>
    (\<forall>w2 cl2. watch_ok s w2 \<longrightarrow> w_id w2 \<noteq> w_id w \<longrightarrow> agrees X s w2 cl2 \<longrightarrow> agrees X s' w2 cl2)"
  proof (cases rule: Watch_select_cases)
    case stay
    with assms(4) show ?thesis by simp
  next
    case (return r d)
    note R = ret [OF return(2,3,1)]
    from R(1,3) agrees_tells [OF R(2)] show ?thesis by blast
  next
    case (event x ce)
    have own: "in_flight ?q ?c = x # in_flight ?q ce" "registered ce ?q = registered ?c ?q" "affiliates ce = affiliates ?c"
      using event(1) w(2)
      by (auto simp: recv_event_def recv_chan_def in_flight_def registered_def Let_def split: list.splits if_splits)
    have "agrees X s' w' cl"
      using event assms(3,4) own w(1) by (simp add: agrees_def in_hand_def client_apply_event GetCluster_def)
    with event(2,3) agrees_recv [OF w(1) event(1)] show ?thesis by simp
  qed
  then show "w_id w' = w_id w" "agrees X s' w' cl"
    "watch_ok s w2 \<Longrightarrow> w_id w2 \<noteq> w_id w \<Longrightarrow> agrees X s w2 cl2 \<Longrightarrow> agrees X s' w2 cl2" by blast+
qed

lemma Watch_step_agrees:
  assumes "good X T n s" and "watch_ok s w" and "agrees X s w cl" and "Watch_step t ch w s = Some (w', s')"
  shows "w_id w' = w_id w" and "agrees X s' w' (fst cl, if ch = Sent None then in_hand w (snd cl) else snd cl)"
    and "watch_ok s w2 \<Longrightarrow> w_id w2 \<noteq> w_id w \<Longrightarrow> agrees X s w2 cl2 \<Longrightarrow> agrees X s' w2 cl2"
proof -
  have b: "w_cluster w < length (heap s)" "cluster_budget 1 (heap s ! w_cluster w)"
    using goodD(3) [OF assms(1)] assms(2) by (auto simp: watch_ok_def)
  note ret = Watch_return_agrees [OF assms(1,2) tells_refl b(2), simplified]
  note sel = Watch_select_agrees [OF assms(1,2) _ assms(3)]
  have hand: "in_hand w (snd cl) = snd cl" if "\<And>resp. w_pc w \<noteq> Sending resp"
    using that by (simp add: in_hand_def split: watch_pc.split)
  have sent: "agrees X s (w\<lparr>w_pc := Selecting\<rparr>) (fst cl, in_hand w (snd cl))"
    using assms(3) by (simp add: agrees_def in_hand_def)
  show "w_id w' = w_id w"
    using assms(4) ret(1) sel(1)
    by (auto simp: Watch_step_def Watch_sent_def split: watch_pc.splits watch_choice.splits option.splits if_splits)
  show "agrees X s' w' (fst cl, if ch = Sent None then in_hand w (snd cl) else snd cl)"
    using assms(3,4) ret(3) sel(2) hand sent
    by (auto simp: Watch_step_def Watch_sent_def split: watch_pc.splits watch_choice.splits option.splits if_splits)
  show "watch_ok s w2 \<Longrightarrow> w_id w2 \<noteq> w_id w \<Longrightarrow> agrees X s w2 cl2 \<Longrightarrow> agrees X s' w2 cl2"
    using assms(4) ret(2) agrees_tells [of X s s' w2 cl2] sel(3)
    by (auto simp: Watch_step_def Watch_sent_def split: watch_pc.splits watch_choice.splits option.splits if_splits)
qed

section \<open>Every execution keeps the copies\<close>

definition clients_inv :: "'m xsync \<Rightarrow> 'm server \<Rightarrow> client list \<Rightarrow> bool" where
  "clients_inv X sv cs \<longleftrightarrow> length cs = length (sv_watches sv) \<and> distinct (map w_id (sv_watches sv)) \<and>
     (\<forall>i < length cs. agrees X (sv_state sv) (sv_watches sv ! i) (cs ! i))"

lemma clients_tells:
  assumes "clients_inv X sv cs" and "\<forall>w \<in> set (sv_watches sv). watch_ok (sv_state sv) w" and "state_tells True X (sv_state sv) s"
  shows "clients_inv X (sv\<lparr>sv_state := s\<rparr>) cs"
  using assms agrees_tells [OF assms(3)] by (simp add: clients_inv_def)

lemma map_id_update:
  "i < length ws \<Longrightarrow> f w = f (ws ! i) \<Longrightarrow> map f (ws[i := w]) = map f ws"
  by (rule nth_equalityI) (simp_all add: nth_list_update)

lemma clients_step:
  assumes "clients_inv X sv cs" and "i < length (sv_watches sv)" and "w_id w = w_id (sv_watches sv ! i)"
    and "agrees X s w cl" and "\<And>j. j < length cs \<Longrightarrow> j \<noteq> i \<Longrightarrow> agrees X s (sv_watches sv ! j) (cs ! j)"
  shows "clients_inv X (sv\<lparr>sv_state := s, sv_watches := (sv_watches sv)[i := w]\<rparr>) (cs[i := cl])"
proof -
  have "map w_id ((sv_watches sv)[i := w]) = map w_id (sv_watches sv)"
    by (rule map_id_update [OF assms(2,3)])
  then have "distinct (map w_id ((sv_watches sv)[i := w]))" using assms(1) by (simp only: clients_inv_def)
  with assms show ?thesis by (simp add: clients_inv_def nth_list_update)
qed

lemma received_other: "ch \<noteq> Sent None \<Longrightarrow> received sv (DoWatchStep i t ch) cs = cs"
proof (cases ch)
  case (Sent r)
  then show "ch \<noteq> Sent None \<Longrightarrow> ?thesis" by (cases r) simp_all
qed simp_all

lemma received_step:
  assumes "i < length (sv_watches sv)" and "length cs = length (sv_watches sv)"
  shows "received sv (DoWatchStep i t ch) cs =
    cs[i := (fst (cs ! i), if ch = Sent None then in_hand (sv_watches sv ! i) (snd (cs ! i)) else snd (cs ! i))]"
proof (cases "ch = Sent None")
  case True
  with assms show ?thesis by (simp add: in_hand_def split: watch_pc.split)
qed (simp add: received_other)

context server_setup
begin

lemma DoWatch_agrees:
  assumes "good X T (Suc n) (sv_state sv)" and "\<forall>w \<in> set (sv_watches sv). watch_ok (sv_state sv) w"
    and "range_order (aff_order e)" and "clients_inv X sv cs"
    and "serve X AsDuration sv (DoWatch e req) = Some sv'"
  shows "clients_inv X sv' (received sv (DoWatch e req) cs)"
proof (cases "validateClusterID (WatchRequest_GetClusterId req)")
  case (Some err)
  with assms(4,5) show ?thesis by (simp add: Watch_start_def clients_inv_def)
next
  case None
  let ?i = "WatchRequest_GetClusterId req" and ?s = "sv_state sv"
  obtain p s1 where cf: "ClusterFor X (new_at e) ?i ?s = (p, s1)" by force
  obtain snap q c where sub: "SubscribeWithSnapshot (aff_order e) (heap s1 ! p) = (snap, q, c)" by (metis prod_cases3)
  let ?w = "\<lparr>w_cluster = p, w_sub = q, w_pc = if 0 < length snap then Sending (snapshot_response snap) else Selecting\<rparr>"
  have sv': "sv' = sv\<lparr>sv_state := put_cluster p c s1, sv_watches := sv_watches sv @ [?w]\<rparr>"
    using assms(5) None cf sub by (simp add: Watch_start_def)
  note inv = goodD(1) [OF assms(1)]
  note C = ClusterFor_cases [OF inv cf]
  have g1: "good X T (Suc n) s1" and ok1: "\<And>w. watch_ok ?s w \<Longrightarrow> watch_ok s1 w"
    using safe_ClusterFor(1) [OF assms(1) cf] by (auto simp: safe_def)
  let ?h = "heap s1 ! p"
  have h: "affs_inv (affiliates ?h)" "subs_inv ?h" using goodD(5) [OF g1 C(3)] by (simp_all add: cluster_inv_def)
  have room: "Suc (length (subs ?h)) < 2 ^ 64" using goodD(6) [OF g1 C(3)] by simp
  note S = Subscribe_result [OF h(2) room sub]
  have tells: "state_tells True X ?s (put_cluster p c s1)"
    by (rule Watch_start_tells [OF assms(1), of e req]) (simp add: Watch_start_def None cf sub)
  have ids: "distinct (map info_ID snap)"
    using list_ids [OF h(1) assms(3)] affs_invD(1) [OF h(1)] assms(3) S(1) by simp
  have view: "view_of_list snap = aff_view (affiliates c)"
    using list_view [OF h(1) assms(3)] S(1,6) by simp
  have "in_hand ?w Map.empty = view_of_list snap"
    using client_apply_snapshot [OF ids] by (cases snap) (simp_all add: in_hand_def view_of_list_def)
  then have new: "agrees X (put_cluster p c s1) ?w (?i, Map.empty)"
    using C(2,3) S(5) view by (simp add: agrees_def GetCluster_def)
  have "w_id w \<noteq> (p, q)" if "w \<in> set (sv_watches sv)" for w
    using ok1 [of w] assms(2) that S(2) by (auto simp: watch_ok_def)
  then have "distinct (map w_id (sv_watches sv @ [?w]))" using assms(4) by (auto simp: clients_inv_def)
  moreover have "\<forall>i < length cs. agrees X (put_cluster p c s1) (sv_watches sv ! i) (cs ! i)"
    using clients_tells [OF assms(4,2) tells] by (simp add: clients_inv_def)
  ultimately show ?thesis
    using assms(4) new None by (auto simp: sv' clients_inv_def nth_append less_Suc_eq)
qed

lemma serve_agrees:
  assumes "server_inv X T (Suc n) sv" and "op_ok T x" and "announced_request X AsDuration (sv, cs) x"
    and "clients_inv X sv cs" and "serve X AsDuration sv x = Some sv'"
  shows "clients_inv X sv' (received sv x cs)"
proof -
  let ?s = "sv_state sv"
  have g: "good X T (Suc n) ?s" and ok: "\<forall>w \<in> set (sv_watches sv). watch_ok ?s w"
    using assms(1) by (simp_all add: server_inv_def)
  note keep = clients_tells [OF assms(4) ok]
  have len: "length cs = length (sv_watches sv)" using assms(4) by (simp add: clients_inv_def)
  show ?thesis
  proof (cases x)
    case (DoUpdate e req)
    with assms(2,5) keep AffiliateUpdate_tells [OF g _ assms(3) [unfolded DoUpdate] refl] show ?thesis by auto
  next
    case (DoDelete e req)
    with assms(2,5) keep AffiliateDelete_tells [OF g] show ?thesis by auto
  next
    case (DoWatch e req)
    with assms(2,5) DoWatch_agrees [OF g ok _ assms(4)] show ?thesis by simp
  next
    case (DoWatchStep i t ch)
    show ?thesis
    proof (cases "i < length (sv_watches sv)")
      case True
      let ?w = "sv_watches sv ! i"
      obtain w s where ws: "Watch_step t ch ?w ?s = Some (w, s)" "sv' = sv\<lparr>sv_state := s, sv_watches := (sv_watches sv)[i := w]\<rparr>"
        using assms(5) DoWatchStep True by auto
      have "watch_ok ?s ?w" "agrees X ?s ?w (cs ! i)" using ok True assms(4) len by (simp_all add: clients_inv_def)
      note W = Watch_step_agrees [OF g this ws(1)]
      have "agrees X s (sv_watches sv ! j) (cs ! j)" if "j < length cs" "j \<noteq> i" for j
      proof (rule W(3))
        show "w_id (sv_watches sv ! j) \<noteq> w_id ?w"
          using assms(4) that True len nth_eq_iff_index_eq [of "map w_id (sv_watches sv)" j i] by (simp add: clients_inv_def)
      qed (use that ok len assms(4) in \<open>simp_all add: clients_inv_def\<close>)
      from clients_step [OF assms(4) True W(1,2) this] show ?thesis
        by (simp add: DoWatchStep ws(2) received_step [OF True len])
    next
      case False
      with assms(4,5) DoWatchStep show ?thesis by (cases "ch = Sent None") (simp_all add: received_other)
    qed
  next
    case (DoCtxClose i t)
    show ?thesis
    proof (cases "i < length (sv_watches sv)")
      case True
      let ?w = "sv_watches sv ! i"
      have w: "w_cluster ?w < length (heap ?s)" "w_sub ?w < length (subs (heap ?s ! w_cluster ?w))"
        using ok True by (simp_all add: watch_ok_def)
      obtain c where "Close t (w_sub ?w) (heap ?s ! w_cluster ?w) = Some c" "sv' = sv\<lparr>sv_state := put_cluster (w_cluster ?w) c ?s\<rparr>"
        using assms(5) DoCtxClose True by (auto simp: on_cluster_def split: option.splits)
      with keep state_tells_put [OF w(1) tells_Close [OF goodD(3) [OF g w(1)] w(2)]] DoCtxClose show ?thesis by simp
    qed (use assms(4,5) DoCtxClose in simp)
  next
    case (DoCleanup e clk)
    with assms(2,5) keep Cleanup_tells [OF g] show ?thesis by auto
  qed
qed

end

context server_setup
begin

lemma run_agrees:
  assumes "server_inv X T (length ops) sv" and "\<forall>x \<in> set ops. op_ok T x" and "clients_inv X sv cs"
    and "all_steps (serve_clients X AsDuration) (announced_request X AsDuration) (sv, cs) ops"
    and "run (serve_clients X AsDuration) (sv, cs) ops = Some (sv', cs')"
  shows "server_inv X T 0 sv' \<and> clients_inv X sv' cs'"
  using assms
proof (induction ops arbitrary: sv cs)
  case (Cons x ops)
  then obtain sv1 where sv1: "serve X AsDuration sv x = Some sv1"
    "run (serve_clients X AsDuration) (sv1, received sv x cs) ops = Some (sv', cs')"
    by (auto split: option.splits)
  have inv: "server_inv X T (Suc (length ops)) sv" using Cons.prems(1) by simp
  have "server_inv X T (length ops) sv1" using serve_total [OF inv, of x] Cons.prems(2) sv1(1) by auto
  moreover have "clients_inv X sv1 (received sv x cs)"
    by (rule serve_agrees [OF inv _ _ Cons.prems(3) sv1(1)]) (use Cons.prems(2,4) in auto)
  ultimately show ?case
    using Cons.IH Cons.prems(2,4) sv1 by simp
qed simp

lemma served_agrees:
  assumes "\<forall>x \<in> set ops. op_ok T x" and "Suc (length ops) < 2 ^ 64"
    and "all_steps (serve_clients X AsDuration) (announced_request X AsDuration) (start_server X, []) ops"
    and "run (serve_clients X AsDuration) (start_server X, []) ops = Some (sv, cs)"
  shows "server_inv X T 0 sv \<and> clients_inv X sv cs"
  by (rule run_agrees [OF start_inv [OF assms(2)] assms(1) _ assms(3,4)]) (simp add: clients_inv_def start_server_def)

text \<open>An open subscription of a stream, its copy and the service.\<close>

lemma open_stream:
  assumes "server_inv X T n sv" and "clients_inv X sv cs" and "i < length (sv_watches sv)"
  defines "w \<equiv> sv_watches sv ! i"
  defines "c \<equiv> heap (sv_state sv) ! w_cluster w"
  assumes "\<not> sub_closed (subs c ! w_sub w)"
  shows "fold apply_event (ch_buf (sub_ch (subs c ! w_sub w))) (in_hand w (snd (cs ! i))) =
      discovered X (sv_state sv) (fst (cs ! i))" and "registered c (w_sub w)"
proof -
  have w: "w_cluster w < length (heap (sv_state sv))" "w_sub w < length (subs c)"
    using assms(1,3) by (auto simp: server_inv_def watch_ok_def w_def c_def)
  have "subs_inv c" using goodD(5) [OF _ w(1)] assms(1) by (auto simp: server_inv_def cluster_inv_def c_def)
  then show reg: "registered c (w_sub w)" using registered_iff_open w(2) assms(6) by blast
  have "agrees X (sv_state sv) w (cs ! i)" using assms(2,3) by (simp add: clients_inv_def w_def)
  with reg show "fold apply_event (ch_buf (sub_ch (subs c ! w_sub w))) (in_hand w (snd (cs ! i))) =
      discovered X (sv_state sv) (fst (cs ! i))"
    by (simp add: agrees_def c_def discovered_def in_flight_def)
qed

end


text \<open>
  An execution for the witnesses: a client opens a stream on an empty cluster, then an affiliate
  announces itself, and its event waits in the queue of the stream.
\<close>

definition demo_stream :: "duration server_op list" where
  "demo_stream = [DoWatch demo_env (Some \<lparr>f_WatchRequest_ClusterId = ''c''\<rparr>), DoUpdate demo_env demo_update]"

lemma demo_stream_ok: "\<forall>x \<in> set demo_stream. op_ok 100 x" "Suc (length demo_stream) < 2 ^ 64"
  by (simp_all add: demo_stream_def demo_env_def)

lemma demo_opened:
  "\<exists>sv cs. serve_clients alist_xsync id (start_server alist_xsync, []) (hd demo_stream) = Some (sv, cs) \<and>
     discovered alist_xsync (sv_state sv) ''c'' = Map.empty"
proof -
  have "(case serve_clients alist_xsync id (start_server alist_xsync, []) (hd demo_stream) of
      None \<Rightarrow> False | Some (sv, cs) \<Rightarrow> GetCluster alist_xsync ''c'' (sv_state sv) = Some 0 \<and> affiliates (heap (sv_state sv) ! 0) = [])"
    by code_simp
  then show ?thesis by (auto simp: discovered_def split: option.splits)
qed

lemma demo_stream_announced:
  "all_steps (serve_clients alist_xsync id) (announced_request alist_xsync id) (start_server alist_xsync, []) demo_stream"
proof -
  obtain sv cs where sv: "serve_clients alist_xsync id (start_server alist_xsync, []) (hd demo_stream) = Some (sv, cs)"
    "discovered alist_xsync (sv_state sv) ''c'' = Map.empty" using demo_opened by blast
  have "announced_request alist_xsync id (sv, cs) (DoUpdate demo_env demo_update)"
    by (simp add: demo_update_simps sv(2) spec_error_def AffiliatesMax_def AffiliateEndpointsMax_def known_endpoints_def
        card_insert_if)
  with sv(1) show ?thesis
    unfolding demo_stream_def by (simp del: serve_clients.simps announced_request.simps(1) split: option.split)
qed

lemma demo_stream_run:
  obtains sv cs where "run (serve_clients alist_xsync id) (start_server alist_xsync, []) demo_stream = Some (sv, cs)"
    and "length (sv_watches sv) = 1" and "w_cluster (sv_watches sv ! 0) = 0" and "w_sub (sv_watches sv ! 0) = 0"
    and "\<not> sub_closed (subs (heap (sv_state sv) ! 0) ! 0)" and "length (ch_buf (sub_ch (subs (heap (sv_state sv) ! 0) ! 0))) = 1"
    and "map fst cs = [''c'']"
proof -
  have "(case run (serve_clients alist_xsync id) (start_server alist_xsync, []) demo_stream of
      None \<Rightarrow> False | Some (sv, cs) \<Rightarrow> length (sv_watches sv) = 1 \<and> w_cluster (sv_watches sv ! 0) = 0 \<and> w_sub (sv_watches sv ! 0) = 0 \<and>
        \<not> sub_closed (subs (heap (sv_state sv) ! 0) ! 0) \<and> length (ch_buf (sub_ch (subs (heap (sv_state sv) ! 0) ! 0))) = 1 \<and>
        map fst cs = [''c''])"
    by code_simp
  then show thesis using that by (auto split: option.splits)
qed


section \<open>Catching up\<close>

text \<open>A stream takes an event and sends it; a stream that is sending first ends its send.\<close>

definition take_event :: "nat \<Rightarrow> time \<Rightarrow> 'd server_op list" where
  "take_event i t = [DoWatchStep i t Events, DoWatchStep i t (Sent None)]"

definition catch_up :: "nat \<Rightarrow> time \<Rightarrow> 'm server \<Rightarrow> 'd server_op list" where
  "catch_up i t sv =
     (let w = sv_watches sv ! i
      in (case w_pc w of Sending resp \<Rightarrow> [DoWatchStep i t (Sent None)] | _ \<Rightarrow> []) @
         concat (replicate (length (ch_buf (sub_ch (subs (heap (sv_state sv) ! w_cluster w) ! w_sub w)))) (take_event i t)))"

lemma discovered_same_affiliates:
  assumes "affiliates c = affiliates (heap s ! p)"
  shows "discovered X (put_cluster p c s) = discovered X s"
proof -
  have "affiliates ((heap s)[p := c] ! q) = affiliates (heap s ! q)" for q
    using assms by (cases "p < length (heap s)"; cases "q = p") (simp_all add: list_update_beyond)
  then show ?thesis by (simp add: discovered_def GetCluster_def fun_eq_iff split: option.split)
qed

lemma stream_takes_event:
  assumes "i < length (sv_watches sv)" and "i < length cs" and "w_pc (sv_watches sv ! i) = Selecting"
  defines "p \<equiv> w_cluster (sv_watches sv ! i)" and "q \<equiv> w_sub (sv_watches sv ! i)"
  assumes "p < length (heap (sv_state sv))" and "recv_event q (heap (sv_state sv) ! p) = (Got ev, c)"
  shows "run (serve_clients X AsDuration) (sv, cs) (take_event i t) =
    Some (sv\<lparr>sv_state := put_cluster p c (sv_state sv)\<rparr>, cs[i := (fst (cs ! i), apply_event ev (snd (cs ! i)))])"
proof -
  let ?w = "sv_watches sv ! i"
  let ?sv = "sv\<lparr>sv_state := put_cluster p c (sv_state sv), sv_watches := (sv_watches sv)[i := ?w\<lparr>w_pc := Sending (event_response ev)\<rparr>]\<rparr>"
  have "serve X AsDuration sv (DoWatchStep i t Events) = Some ?sv"
    using assms by (simp add: Watch_step_def Watch_select_def)
  moreover have "serve X AsDuration ?sv (DoWatchStep i t (Sent None)) = Some (sv\<lparr>sv_state := put_cluster p c (sv_state sv)\<rparr>)"
  proof -
    have "?w\<lparr>w_pc := Selecting\<rparr> = ?w" using assms(3) by simp
    then show ?thesis using assms(1) by (simp add: Watch_step_def Watch_sent_def)
  qed
  ultimately show ?thesis using assms(1) by (simp add: take_event_def client_apply_event del: serve.simps)
qed

lemma stream_drains_queue:
  assumes "i < length (sv_watches sv)" and "i < length cs" and "w_pc (sv_watches sv ! i) = Selecting"
  defines "p \<equiv> w_cluster (sv_watches sv ! i)" and "q \<equiv> w_sub (sv_watches sv ! i)"
  assumes "p < length (heap (sv_state sv))" and "q < length (subs (heap (sv_state sv) ! p))"
    and "ch_buf (sub_ch (subs (heap (sv_state sv) ! p) ! q)) = evs"
  shows "\<exists>c. run (serve_clients X AsDuration) (sv, cs) (concat (replicate (length evs) (take_event i t))) =
      Some (sv\<lparr>sv_state := put_cluster p c (sv_state sv)\<rparr>, cs[i := (fst (cs ! i), fold apply_event evs (snd (cs ! i)))]) \<and>
    affiliates c = affiliates (heap (sv_state sv) ! p)"
  using assms(1-3,6-8) unfolding p_def q_def
proof (induction evs arbitrary: sv cs)
  case Nil
  then show ?case by (intro exI [of _ "heap (sv_state sv) ! w_cluster (sv_watches sv ! i)"]) simp
next
  case (Cons ev evs)
  let ?p = "w_cluster (sv_watches sv ! i)" and ?q = "w_sub (sv_watches sv ! i)"
  let ?h = "heap (sv_state sv) ! ?p"
  define c where "c = snd (recv_event ?q ?h)"
  have c: "recv_event ?q ?h = (Got ev, c)" "affiliates c = affiliates ?h" "length (subs c) = length (subs ?h)"
    "ch_buf (sub_ch (subs c ! ?q)) = evs"
    using Cons.prems(5,6) by (auto simp: c_def recv_event_def recv_chan_def Let_def)
  let ?sv = "sv\<lparr>sv_state := put_cluster ?p c (sv_state sv)\<rparr>" and ?cs = "cs[i := (fst (cs ! i), apply_event ev (snd (cs ! i)))]"
  have one: "run (serve_clients X AsDuration) (sv, cs) (take_event i t) = Some (?sv, ?cs)"
    by (rule stream_takes_event [OF Cons.prems(1-4) c(1)])
  obtain d where "run (serve_clients X AsDuration) (?sv, ?cs) (concat (replicate (length evs) (take_event i t))) =
      Some (?sv\<lparr>sv_state := put_cluster ?p d (sv_state ?sv)\<rparr>, ?cs[i := (fst (?cs ! i), fold apply_event evs (snd (?cs ! i)))])"
    "affiliates d = affiliates c"
    using Cons.IH [of ?sv ?cs] Cons.prems c by auto
  with one c(2) Cons.prems(2) show ?case by (intro exI [of _ d]) (simp add: run_append)
qed



end
