(* ===== verification/Stream_Ends.thy ===== *)
theory Stream_Ends
  imports Stream_Copies
begin

text \<open>
  Once the subscription of a watch stream is closed, because the context of the stream is done or
  because its client was too slow, the stream ends: whichever cases its select takes, however its
  sends end and whatever the rest of the server does in between, it returns after a bounded
  number of its own steps.
\<close>

section \<open>The steps that are left\<close>

definition steps_left :: "'m State \<Rightarrow> watch \<Rightarrow> nat" where
  "steps_left s w =
     (let n = length (in_flight (w_sub w) (heap s ! w_cluster w))
      in case w_pc w of Returned r \<Rightarrow> 0 | Selecting \<Rightarrow> 1 + 2 * n | Sending resp \<Rightarrow> 2 + 2 * n)"

definition sub_gone :: "'m State \<Rightarrow> watch \<Rightarrow> bool" where
  "sub_gone s w \<longleftrightarrow> watch_ok s w \<and> \<not> registered (heap s ! w_cluster w) (w_sub w)"

text \<open>
  A choice that fits where the stream stands: a send ends, a select takes one of its cases. A
  stream that has returned does nothing any more.
\<close>

fun fits :: "watch_pc \<Rightarrow> watch_choice \<Rightarrow> bool" where
  "fits (Sending resp) (Sent r) \<longleftrightarrow> True"
| "fits (Sending resp) _ \<longleftrightarrow> False"
| "fits Selecting (Sent r) \<longleftrightarrow> False"
| "fits Selecting _ \<longleftrightarrow> True"
| "fits (Returned r) _ \<longleftrightarrow> True"

section \<open>What the others do\<close>

lemma sub_gone_tells:
  assumes "state_tells full X s s'" and "sub_gone s w" and "watch_ok s' w"
  shows "sub_gone s' w" and "steps_left s' w = steps_left s w"
proof -
  let ?p = "w_cluster w" and ?q = "w_sub w"
  have w: "?p < length (heap s)" "?q < length (subs (heap s ! ?p))" "\<not> registered (heap s ! ?p) ?q"
    using assms(2) by (simp_all add: sub_gone_def watch_ok_def)
  have "tells full (heap s ! ?p) (heap s' ! ?p)" using assms(1) w(1) by (simp add: state_tells_def)
  with w(2) obtain evs where "queue_step ?q evs [] (heap s ! ?p) (heap s' ! ?p)" by (auto simp: tells_def)
  with w(3) have "\<not> registered (heap s' ! ?p) ?q" "in_flight ?q (heap s' ! ?p) = in_flight ?q (heap s ! ?p)"
    by (auto simp: queue_step_def)
  with assms(3) show "sub_gone s' w" "steps_left s' w = steps_left s w" by (simp_all add: sub_gone_def steps_left_def)
qed

lemma sub_gone_recv:
  assumes "p < length (heap s)" and "recv_event q (heap s ! p) = (Got ev, c)" and "w_id w \<noteq> (p, q)"
    and "sub_gone s w" and "watch_ok (put_cluster p c s) w"
  shows "sub_gone (put_cluster p c s) w" and "steps_left (put_cluster p c s) w = steps_left s w"
proof -
  have c: "c = snd (recv_event q (heap s ! p))" using assms(2) by simp
  have "registered (heap (put_cluster p c s) ! w_cluster w) (w_sub w) = registered (heap s ! w_cluster w) (w_sub w)"
    "in_flight (w_sub w) (heap (put_cluster p c s) ! w_cluster w) = in_flight (w_sub w) (heap s ! w_cluster w)"
    using assms(1,3) by (auto simp: c recv_event_def Let_def registered_def in_flight_def nth_list_update split: prod.splits)
  with assms(4,5) show "sub_gone (put_cluster p c s) w" "steps_left (put_cluster p c s) w = steps_left s w"
    by (simp_all add: sub_gone_def steps_left_def)
qed

text \<open>What a step of a stream does to the state.\<close>

lemma Watch_step_effect:
  assumes "good X T n s" and "watch_ok s w" and "Watch_step t ch w s = Some (w', s')"
  shows "w_id w' = w_id w \<and>
    (state_tells True X s s' \<or>
     (\<exists>x c. recv_event (w_sub w) (heap s ! w_cluster w) = (Got x, c) \<and> s' = put_cluster (w_cluster w) c s))"
proof -
  have b: "cluster_budget 1 (heap s ! w_cluster w)" using goodD(3) [OF assms(1)] assms(2) by (simp add: watch_ok_def)
  note ret = Watch_return_agrees(1,2) [OF assms(1,2)]
  have sent: ?thesis if "Watch_sent t r w s = Some (w', s')" for r
    using that ret [OF tells_refl b, simplified]
    by (auto simp: Watch_sent_def split: option.splits if_splits)
  have sel: ?thesis if "Watch_select t ch w s = Some (w', s')"
    using assms(1,2) that
  proof (cases rule: Watch_select_cases)
    case (return r d)
    from ret [OF return(2,3,1)] show ?thesis by simp
  qed auto
  show ?thesis
    using assms(3) sent sel by (auto simp: Watch_step_def split: watch_pc.splits watch_choice.splits)
qed

section \<open>What its own steps do\<close>

lemma gone_channels:
  assumes "good X T n s" and "sub_gone s w"
  shows "sub_shut (sub_key (w_sub w)) (subs (heap s ! w_cluster w) ! w_sub w)"
proof -
  have w: "w_cluster w < length (heap s)" "w_sub w < length (subs (heap s ! w_cluster w))"
    using assms(2) by (simp_all add: sub_gone_def watch_ok_def)
  have "subs_inv (heap s ! w_cluster w)" using goodD(5) [OF assms(1) w(1)] by (simp add: cluster_inv_def)
  from subs_invD(6) [OF this w(2)] assms(2) show ?thesis by (simp add: sub_gone_def)
qed

lemma steps_left_bound:
  assumes "good X T n s" and "sub_gone s w"
  shows "steps_left s w \<le> 2 + 2 * affiliateSubBuffer"
  using gone_channels [OF assms] by (auto simp: sub_shut_def steps_left_def in_flight_def Let_def split: watch_pc.split)

lemma Watch_return_left: "Watch_return t r w s = Some (w', s') \<Longrightarrow> steps_left s'' w' = 0"
  by (auto simp: Watch_return_def steps_left_def split: option.splits)

lemma Watch_step_left:
  assumes "good X T n s" and "sub_gone s w" and "fits (w_pc w) ch" and "Watch_step t ch w s = Some (w', s')"
  shows "steps_left s' w' \<le> steps_left s w - 1"
proof -
  let ?c = "heap s ! w_cluster w" and ?q = "w_sub w"
  note shut = gone_channels [OF assms(1,2)]
  have w: "w_cluster w < length (heap s)" "?q < length (subs ?c)"
    using assms(2) by (simp_all add: sub_gone_def watch_ok_def)
  have over: ?thesis if "Watch_return t r w s1 = Some (w', s')" for r and s1 :: "'a State"
    using Watch_return_left [OF that, of s'] by simp
  show ?thesis
  proof (cases "w_pc w")
    case (Sending resp)
    then obtain r where ch: "ch = Sent r" using assms(3) by (cases ch) simp_all
    show ?thesis
    proof (cases r)
      case None
      with assms(4) Sending ch show ?thesis by (auto simp: Watch_step_def Watch_sent_def steps_left_def Let_def)
    next
      case (Some err)
      with assms(4) Sending ch have "\<exists>r'. Watch_return t r' w s = Some (w', s')"
        by (auto simp: Watch_step_def Watch_sent_def split: if_splits)
      with over show ?thesis by blast
    qed
  next
    case (Returned r)
    with assms(4) show ?thesis by (simp add: Watch_step_def steps_left_def)
  next
    case Selecting
    then have sel: "Watch_select t ch w s = Some (w', s')" using assms(4) by (simp add: Watch_step_def)
    show ?thesis
    proof (cases ch)
      case (Sent r)
      with assms(3) Selecting show ?thesis by simp
    next
      case (Done err)
      with sel over show ?thesis by (simp add: Watch_select_def)
    next
      case Errors
      have "fst (recv_error ?q ?c) \<noteq> Blocked"
        using shut by (auto simp: recv_error_def recv_chan_def sub_shut_def Let_def split: list.splits)
      with sel Errors over show ?thesis
        by (auto simp: Watch_select_def split: prod.splits recv.splits sub_error.splits)
    next
      case Events
      obtain ev d where e: "recv_event ?q ?c = (ev, d)" by force
      show ?thesis
      proof (cases ev)
        case Blocked
        with e shut show ?thesis by (auto simp: recv_event_def recv_chan_def sub_shut_def Let_def split: list.splits)
      next
        case (Got x)
        with e w(2) have "in_flight ?q ?c = x # in_flight ?q d"
          by (auto simp: recv_event_def recv_chan_def in_flight_def Let_def split: list.splits if_splits)
        with sel Events e Got Selecting w(1) show ?thesis by (auto simp: Watch_select_def steps_left_def)
      next
        case Drained
        with sel Events e over show ?thesis by (simp add: Watch_select_def)
      qed
    qed
  qed
qed

text \<open>After a step of a stream: its own subscription stays closed, and so do those of the others.\<close>

lemma own_step_gone:
  assumes "good X T n s" and "sub_gone s w" and "Watch_step t ch w s = Some (w', s')" and "watch_ok s' w'"
  shows "sub_gone s' w'"
proof -
  have w: "watch_ok s w" and reg: "\<not> registered (heap s ! w_cluster w) (w_sub w)"
    using assms(2) by (simp_all add: sub_gone_def)
  note E = Watch_step_effect [OF assms(1) w assms(3)]
  have "\<not> registered (heap s' ! w_cluster w) (w_sub w)"
  proof (cases "state_tells True X s s'")
    case True
    then have "tells True (heap s ! w_cluster w) (heap s' ! w_cluster w)"
      using w by (simp add: state_tells_def watch_ok_def)
    then show ?thesis using reg w by (auto simp: tells_def queue_step_def watch_ok_def)
  next
    case False
    with E obtain y c where "recv_event (w_sub w) (heap s ! w_cluster w) = (Got y, c)" "s' = put_cluster (w_cluster w) c s"
      by auto
    with reg w show ?thesis by (auto simp: recv_event_def Let_def registered_def watch_ok_def split: prod.splits)
  qed
  with E assms(4) show ?thesis by (simp add: sub_gone_def)
qed

lemma other_step_gone:
  assumes "good X T n s" and "watch_ok s v" and "Watch_step t ch v s = Some (v', s')"
    and "sub_gone s w" and "watch_ok s' w" and "w_id w \<noteq> w_id v"
  shows "sub_gone s' w \<and> steps_left s' w = steps_left s w"
proof (cases "state_tells True X s s'")
  case True
  from sub_gone_tells [OF True assms(4,5)] show ?thesis by simp
next
  case False
  with Watch_step_effect [OF assms(1-3)] obtain y c where
    y: "recv_event (w_sub v) (heap s ! w_cluster v) = (Got y, c)" "s' = put_cluster (w_cluster v) c s" by auto
  have "w_cluster v < length (heap s)" using assms(2) by (simp add: watch_ok_def)
  from sub_gone_recv [OF this y(1) assms(6,4)] assms(5) y(2) show ?thesis by simp
qed

section \<open>Executions\<close>

text \<open>The own steps of a stream, and that they fit.\<close>

fun own_step :: "nat \<Rightarrow> 'd server_op \<Rightarrow> bool" where
  "own_step i (DoWatchStep j t ch) \<longleftrightarrow> j = i"
| "own_step i _ \<longleftrightarrow> False"

fun own_step_fits :: "nat \<Rightarrow> 'm server \<Rightarrow> 'd server_op \<Rightarrow> bool" where
  "own_step_fits i sv (DoWatchStep j t ch) \<longleftrightarrow> (j = i \<longrightarrow> fits (w_pc (sv_watches sv ! i)) ch)"
| "own_step_fits i sv _ \<longleftrightarrow> True"

context server_setup
begin

lemma serve_others:
  assumes "server_inv X T (Suc n) sv" and "op_ok T x" and "serve X AsDuration sv x = Some sv'"
    and "\<And>j t ch. x \<noteq> DoWatchStep j t ch"
  shows "state_tells False X (sv_state sv) (sv_state sv') \<and> (\<exists>ws. sv_watches sv' = sv_watches sv @ ws)"
proof -
  let ?s = "sv_state sv"
  have g: "good X T (Suc n) ?s" and ok: "\<forall>w \<in> set (sv_watches sv). watch_ok ?s w"
    using assms(1) by (simp_all add: server_inv_def)
  show ?thesis
  proof (cases x)
    case (DoUpdate e req)
    with assms(2,3) AffiliateUpdate_tells [OF g, of e False AsDuration sv "[]" req] show ?thesis by auto
  next
    case (DoDelete e req)
    with assms(2,3) AffiliateDelete_tells [OF g, of e] state_tells_weaken show ?thesis by fastforce
  next
    case (DoWatch e req)
    with assms(2,3) Watch_start_tells [OF g, of e req] state_tells_weaken show ?thesis
      by (fastforce split: prod.splits sum.splits)
  next
    case (DoCtxClose i t)
    show ?thesis
    proof (cases "i < length (sv_watches sv)")
      case True
      let ?w = "sv_watches sv ! i"
      have w: "w_cluster ?w < length (heap ?s)" "w_sub ?w < length (subs (heap ?s ! w_cluster ?w))"
        using ok True by (simp_all add: watch_ok_def)
      obtain c where "Close t (w_sub ?w) (heap ?s ! w_cluster ?w) = Some c" "sv' = sv\<lparr>sv_state := put_cluster (w_cluster ?w) c ?s\<rparr>"
        using assms(3) DoCtxClose True by (auto simp: on_cluster_def split: option.splits)
      with state_tells_put [OF w(1) tells_weaken [OF tells_Close [OF goodD(3) [OF g w(1)] w(2)]]] show ?thesis by simp
    qed (use assms(3) DoCtxClose in simp)
  next
    case (DoCleanup e clk)
    with assms(2,3) Cleanup_tells [OF g, of "sub_order e" "aff_order e" clk] state_tells_weaken show ?thesis by fastforce
  qed (use assms(4) in simp)
qed

lemma serve_left:
  assumes "server_inv X T (Suc n) sv" and "op_ok T x" and "serve X AsDuration sv x = Some sv'"
    and "distinct (map w_id (sv_watches sv))" and "i < length (sv_watches sv)" and "own_step_fits i sv x"
    and "sub_gone (sv_state sv) (sv_watches sv ! i)"
  shows "i < length (sv_watches sv') \<and> sub_gone (sv_state sv') (sv_watches sv' ! i) \<and>
    steps_left (sv_state sv') (sv_watches sv' ! i) \<le> steps_left (sv_state sv) (sv_watches sv ! i) - (if own_step i x then 1 else 0)"
proof -
  let ?s = "sv_state sv" and ?w = "sv_watches sv ! i"
  have g: "good X T (Suc n) ?s" and ok: "\<forall>w \<in> set (sv_watches sv). watch_ok ?s w"
    using assms(1) by (simp_all add: server_inv_def)
  have inv': "server_inv X T n sv'" using serve_total [OF assms(1,2)] assms(3) by auto
  show ?thesis
  proof (cases "\<exists>j t ch. x = DoWatchStep j t ch")
    case False
    then have x: "\<And>j t ch. x \<noteq> DoWatchStep j t ch" by blast
    from serve_others [OF assms(1-3) x] obtain ws where
      t: "state_tells False X ?s (sv_state sv')" and ws: "sv_watches sv' = sv_watches sv @ ws" by blast
    have "?w \<in> set (sv_watches sv')" using assms(5) by (simp add: ws)
    then have "watch_ok (sv_state sv') ?w" using inv' by (simp add: server_inv_def)
    moreover have "\<not> own_step i x" using False by (cases x) auto
    ultimately show ?thesis using sub_gone_tells [OF t assms(7)] assms(5) by (simp add: ws nth_append)
  next
    case True
    then obtain j t ch where x: "x = DoWatchStep j t ch" by blast
    show ?thesis
    proof (cases "j < length (sv_watches sv)")
      case False
      with assms(3,5,7) x show ?thesis by auto
    next
      case j: True
      let ?v = "sv_watches sv ! j"
      obtain v s' where step: "Watch_step t ch ?v ?s = Some (v, s')" "sv' = sv\<lparr>sv_state := s', sv_watches := (sv_watches sv)[j := v]\<rparr>"
        using assms(3) x j by auto
      have okv: "watch_ok ?s ?v" using ok j by simp
      have ok': "watch_ok s' (sv_watches sv' ! i)" using inv' assms(5) step(2) by (simp add: server_inv_def)
      show ?thesis
      proof (cases "j = i")
        case True
        have "steps_left s' v \<le> steps_left ?s ?w - 1"
          by (rule Watch_step_left [OF g assms(7), of ch t v s']) (use assms(6) x step(1) True in simp_all)
        moreover have "sub_gone s' v"
          by (rule own_step_gone [OF g assms(7), of t ch]) (use step ok' True assms(5) in simp_all)
        ultimately show ?thesis using True x step(2) assms(5) by simp
      next
        case False
        then have "w_id ?w \<noteq> w_id ?v"
          using assms(4,5) j nth_eq_iff_index_eq [of "map w_id (sv_watches sv)" i j] by simp
        moreover have "watch_ok s' ?w" using ok' step(2) False by simp
        ultimately show ?thesis
          using other_step_gone [OF g okv step(1) assms(7)] False x step(2) assms(5) by simp
      qed
    qed
  qed
qed

end

text \<open>No two streams share a subscription.\<close>

context server_setup
begin

lemma Watch_start_new:
  assumes "good X T n s" and "Watch_start X e req s = (s', Inr w)" and "watch_ok s v"
  shows "w_id v \<noteq> w_id w"
proof -
  obtain p s1 where cf: "ClusterFor X (new_at e) (WatchRequest_GetClusterId req) s = (p, s1)" by force
  have "watch_ok s1 v" using safe_ClusterFor(1) [OF assms(1) cf] assms(3) by (simp add: safe_def)
  with cf assms(2) show ?thesis
    by (auto simp: Watch_start_def SubscribeWithSnapshot_def Let_def watch_ok_def split: option.splits prod.splits)
qed

lemma serve_ids:
  assumes "server_inv X T (Suc n) sv" and "op_ok T x" and "serve X AsDuration sv x = Some sv'"
    and "distinct (map w_id (sv_watches sv))"
  shows "distinct (map w_id (sv_watches sv'))"
proof -
  have g: "good X T (Suc n) (sv_state sv)" and ok: "\<forall>w \<in> set (sv_watches sv). watch_ok (sv_state sv) w"
    using assms(1) by (simp_all add: server_inv_def)
  show ?thesis
  proof (cases x)
    case (DoWatch e req)
    obtain s r where ws: "Watch_start X e req (sv_state sv) = (s, r)" by force
    show ?thesis
    proof (cases r)
      case (Inl err)
      with assms(3,4) DoWatch ws show ?thesis by auto
    next
      case (Inr w)
      have new: "w_id w \<notin> w_id ` set (sv_watches sv)"
        using Watch_start_new [OF g, of e req s w] ws Inr ok by fastforce
      have "sv_watches sv' = sv_watches sv @ [w]" using assms(3) DoWatch ws Inr by auto
      then have "map w_id (sv_watches sv') = map w_id (sv_watches sv) @ [w_id w]" by simp
      with assms(4) new show ?thesis by (simp only: distinct_append set_map) simp
    qed
  next
    case (DoWatchStep j t ch)
    show ?thesis
    proof (cases "j < length (sv_watches sv)")
      case True
      then obtain v s where v: "Watch_step t ch (sv_watches sv ! j) (sv_state sv) = Some (v, s)"
        "sv_watches sv' = (sv_watches sv)[j := v]" using assms(3) DoWatchStep by auto
      have "w_id v = w_id (sv_watches sv ! j)" using Watch_step_effect [OF g _ v(1)] ok True by simp
      then have "map w_id (sv_watches sv') = map w_id (sv_watches sv)"
        unfolding v(2) by (rule map_id_update [OF True])
      with assms(4) show ?thesis by (simp only:)
    qed (use assms(3,4) DoWatchStep in simp)
  qed (use assms(3,4) in \<open>auto split: if_splits\<close>)
qed

lemma run_left:
  assumes "server_inv X T (n + length ops) sv" and "\<forall>x \<in> set ops. op_ok T x" and "run (serve X AsDuration) sv ops = Some sv'"
    and "distinct (map w_id (sv_watches sv))" and "i < length (sv_watches sv)"
    and "all_steps (serve X AsDuration) (own_step_fits i) sv ops" and "sub_gone (sv_state sv) (sv_watches sv ! i)"
  shows "i < length (sv_watches sv') \<and>
    steps_left (sv_state sv') (sv_watches sv' ! i) \<le>
      steps_left (sv_state sv) (sv_watches sv ! i) - length (filter (own_step i) ops)"
  using assms
proof (induction ops arbitrary: sv)
  case (Cons x ops)
  then obtain sv1 where sv1: "serve X AsDuration sv x = Some sv1" "run (serve X AsDuration) sv1 ops = Some sv'"
    by (auto split: option.splits)
  have inv: "server_inv X T (Suc (n + length ops)) sv" using Cons.prems(1) by simp
  have x: "op_ok T x" "own_step_fits i sv x" using Cons.prems(2,6) by simp_all
  have inv1: "server_inv X T (n + length ops) sv1" using serve_total [OF inv x(1)] sv1(1) by auto
  note L = serve_left [OF inv x(1) sv1(1) Cons.prems(4,5) x(2) Cons.prems(7)]
  have "i < length (sv_watches sv') \<and> steps_left (sv_state sv') (sv_watches sv' ! i) \<le>
      steps_left (sv_state sv1) (sv_watches sv1 ! i) - length (filter (own_step i) ops)"
    by (rule Cons.IH [OF inv1 _ sv1(2) serve_ids [OF inv x(1) sv1(1) Cons.prems(4)]])
      (use Cons.prems(2,6) sv1(1) L in auto)
  with L show ?case by auto
qed simp

lemma run_inv:
  assumes "server_inv X T (n + length ops) sv" and "\<forall>x \<in> set ops. op_ok T x" and "run (serve X AsDuration) sv ops = Some sv'"
  shows "server_inv X T n sv'"
  using sm.run_total [OF assms(1,2)] assms(3) by auto

lemma run_ids:
  "server_inv X T (length ops) sv \<Longrightarrow> \<forall>x \<in> set ops. op_ok T x \<Longrightarrow> run (serve X AsDuration) sv ops = Some sv' \<Longrightarrow>
   distinct (map w_id (sv_watches sv)) \<Longrightarrow> distinct (map w_id (sv_watches sv'))"
proof (induction ops arbitrary: sv)
  case (Cons x ops)
  then obtain sv1 where sv1: "serve X AsDuration sv x = Some sv1" "run (serve X AsDuration) sv1 ops = Some sv'"
    by (auto split: option.splits)
  have inv: "server_inv X T (Suc (length ops)) sv" "op_ok T x" using Cons.prems(1,2) by simp_all
  show ?case
    by (rule Cons.IH [OF _ _ sv1(2) serve_ids [OF inv sv1(1) Cons.prems(4)]])
      (use serve_total [OF inv] sv1(1) Cons.prems(2) in auto)
qed simp

end

text \<open>
  C5: a stream whose subscription is closed ends. After any execution of the server, let the
  subscription of a stream be closed. Continue with any further execution, in which each step of
  the stream fits where it stands: a send ends, with or without an error, or the select takes one
  of its cases. Once it has made 130 steps of its own the stream has returned: it can send at most
  the response in hand and the 64 events that were queued, whichever cases the select takes and
  whatever the rest of the server does in between.
\<close>

theorem closed_stream_returns:
  assumes "xsync_map X" and "0 \<le> T" and "\<forall>x \<in> set (ops @ rest). op_ok T x" and "Suc (length (ops @ rest)) < 2 ^ 64"
    and "run (serve X AsDuration) (start_server X) ops = Some sv" and "i < length (sv_watches sv)"
    and "sub_closed (subs (heap (sv_state sv) ! w_cluster (sv_watches sv ! i)) ! w_sub (sv_watches sv ! i))"
    and "run (serve X AsDuration) sv rest = Some sv'"
    and "all_steps (serve X AsDuration) (own_step_fits i) sv rest"
    and "2 + 2 * affiliateSubBuffer \<le> length (filter (own_step i) rest)"
  shows "\<exists>r. w_pc (sv_watches sv' ! i) = Returned r"
proof -
  note ssu = server_setupI [OF assms(1,2)]
  let ?w = "sv_watches sv ! i"
  have "server_inv X T ((0 + length rest) + length ops) (start_server X)"
    by (rule server_setup.start_inv [OF ssu]) (use assms(4) in simp)
  then have inv: "server_inv X T (0 + length rest) sv"
    by (rule server_setup.run_inv [OF ssu _ _ assms(5)]) (use assms(3) in auto)
  have "server_inv X T (length ops) (start_server X)"
    by (rule server_setup.start_inv [OF ssu]) (use assms(4) in simp)
  then have ids: "distinct (map w_id (sv_watches sv))"
    by (rule server_setup.run_ids [OF ssu _ _ assms(5)]) (use assms(3) in \<open>auto simp: start_server_def\<close>)
  have g: "good X T (length rest) (sv_state sv)" and w: "watch_ok (sv_state sv) ?w"
    using inv assms(6) by (simp_all add: server_inv_def)
  have "subs_inv (heap (sv_state sv) ! w_cluster ?w)"
    using goodD(5) [OF g] w by (simp add: watch_ok_def cluster_inv_def)
  then have gone: "sub_gone (sv_state sv) ?w"
    using registered_iff_open [of "heap (sv_state sv) ! w_cluster ?w" "w_sub ?w"] w assms(7)
    by (simp add: sub_gone_def watch_ok_def)
  have "steps_left (sv_state sv') (sv_watches sv' ! i) \<le> steps_left (sv_state sv) ?w - length (filter (own_step i) rest)"
    using server_setup.run_left [OF ssu inv _ assms(8) ids assms(6,9) gone] assms(3) by simp
  also have "\<dots> = 0" using steps_left_bound [OF g gone] assms(10) by simp
  finally show ?thesis by (auto simp: steps_left_def Let_def split: watch_pc.splits)
qed

lemma returned_steps:
  assumes "i < length (sv_watches sv)" and "w_pc (sv_watches sv ! i) = Returned r"
  shows "run (serve X AsDuration) sv (replicate n (DoWatchStep i t ch)) = Some sv"
    and "all_steps (serve X AsDuration) (own_step_fits i) sv (replicate n (DoWatchStep i t ch))"
proof -
  have "serve X AsDuration sv (DoWatchStep i t ch) = Some sv" using assms by (simp add: Watch_step_def)
  then show "run (serve X AsDuration) sv (replicate n (DoWatchStep i t ch)) = Some sv"
    "all_steps (serve X AsDuration) (own_step_fits i) sv (replicate n (DoWatchStep i t ch))"
    using assms(2) by (induction n) (simp_all del: serve.simps)
qed

text \<open>A stream whose context ends while its queue is empty.\<close>

definition demo_closed :: "duration server_op list" where
  "demo_closed = [DoWatch demo_env (Some \<lparr>f_WatchRequest_ClusterId = ''c''\<rparr>), DoCtxClose 0 8]"

definition demo_last_steps :: "duration server_op list" where
  "demo_last_steps = DoWatchStep 0 9 Events # replicate 129 (DoWatchStep 0 9 Events)"

lemma demo_closed_run:
  obtains sv sv1 where "run (serve alist_xsync id) (start_server alist_xsync) demo_closed = Some sv"
    and "length (sv_watches sv) = 1" and "w_cluster (sv_watches sv ! 0) = 0" and "w_sub (sv_watches sv ! 0) = 0"
    and "sub_closed (subs (heap (sv_state sv) ! 0) ! 0)" and "w_pc (sv_watches sv ! 0) = Selecting"
    and "serve alist_xsync id sv (DoWatchStep 0 9 Events) = Some sv1"
    and "length (sv_watches sv1) = 1" and "w_pc (sv_watches sv1 ! 0) = Returned None"
proof -
  have "(case run (serve alist_xsync id) (start_server alist_xsync) demo_closed of
      None \<Rightarrow> False
    | Some sv \<Rightarrow> length (sv_watches sv) = 1 \<and> w_cluster (sv_watches sv ! 0) = 0 \<and> w_sub (sv_watches sv ! 0) = 0 \<and>
        sub_closed (subs (heap (sv_state sv) ! 0) ! 0) \<and> w_pc (sv_watches sv ! 0) = Selecting \<and>
        (case serve alist_xsync id sv (DoWatchStep 0 9 Events) of
           None \<Rightarrow> False | Some sv1 \<Rightarrow> length (sv_watches sv1) = 1 \<and> w_pc (sv_watches sv1 ! 0) = Returned None))"
    by code_simp
  then show thesis using that by (auto split: option.splits simp del: serve.simps)
qed

theorem closed_stream_returns_witness:
  "\<exists>sv sv' r. run (serve alist_xsync id) (start_server alist_xsync) demo_closed = Some sv \<and>
     run (serve alist_xsync id) sv demo_last_steps = Some sv' \<and> w_pc (sv_watches sv' ! 0) = Returned r"
proof -
  obtain sv sv1 where d: "run (serve alist_xsync id) (start_server alist_xsync) demo_closed = Some sv"
    "length (sv_watches sv) = 1" "w_cluster (sv_watches sv ! 0) = 0" "w_sub (sv_watches sv ! 0) = 0"
    "sub_closed (subs (heap (sv_state sv) ! 0) ! 0)" "w_pc (sv_watches sv ! 0) = Selecting"
    "serve alist_xsync id sv (DoWatchStep 0 9 Events) = Some sv1"
    "length (sv_watches sv1) = 1" "w_pc (sv_watches sv1 ! 0) = Returned None"
    by (rule demo_closed_run)
  note R = returned_steps [of 0 sv1 None alist_xsync id 129 9 Events]
  have rest: "run (serve alist_xsync id) sv demo_last_steps = Some sv1"
    "all_steps (serve alist_xsync id) (own_step_fits 0) sv demo_last_steps"
    using d(6-9) R by (simp_all add: demo_last_steps_def del: serve.simps replicate.simps)
  have "length (filter (own_step 0) demo_last_steps) = 130" by (simp add: demo_last_steps_def del: replicate.simps)
  then have count: "2 + 2 * affiliateSubBuffer \<le> length (filter (own_step 0) demo_last_steps)"
    by (simp add: affiliateSubBuffer_def)
  have ok: "\<forall>x \<in> set (demo_closed @ demo_last_steps). op_ok 100 x" "Suc (length (demo_closed @ demo_last_steps)) < 2 ^ 64"
    by (simp_all add: demo_closed_def demo_last_steps_def demo_env_def del: replicate.simps)
  from closed_stream_returns [OF axs.xsync_map_axioms _ ok d(1) _ _ rest count] d(1-5) rest(1) show ?thesis by auto
qed

end
