(* ===== verification/Interleaving.thy ===== *)
theory Interleaving
  imports Watch_Replay
begin

text \<open>
  Inside the operations. The other theories run each cluster operation from its first to its last
  statement; here the statements of \<^verbatim>\<open>Subscription.notify\<close> and \<^verbatim>\<open>Subscription.Close\<close>
  (\<^verbatim>\<open>internal/state/cluster_subscribe.go\<close>) interleave, with any number of goroutines notifying and
  closing the same subscription and a watcher receiving from it. The second part splits an update
  into its locked part and its notification, which other updates can overtake.
\<close>

section \<open>One subscription, many goroutines\<close>

text \<open>
  The shared state of a subscription: its channels, its flag, its \<^verbatim>\<open>sync.Once\<close> and whether the
  cluster's map holds it. A goroutine that meets a running \<^verbatim>\<open>Once\<close> waits until it has finished.
\<close>

datatype once = Fresh | Running | Finished

record shared =
  g_ch :: "AffiliateEvent chan"
  g_errCh :: "sub_error chan"
  g_closed :: bool
  g_once :: once
  g_owned :: bool

text \<open>
  The program points: \<open>NCheck\<close>, \<open>NSend\<close> and \<open>NErr\<close> stand before the three statements of \<open>notify\<close>,
  \<open>CEnter\<close> before \<^verbatim>\<open>closeOnce.Do\<close>, and the others before the statements of the function it runs
  and of \<open>closeFn\<close>.
\<close>

datatype pc =
    NCheck AffiliateEvent | NSend AffiliateEvent | NErr
  | CEnter | CStore | CUnregister | CCloseCh | CCloseErr | CProlong
  | Halted | Panicked

fun thread_step :: "pc \<Rightarrow> shared \<Rightarrow> (pc \<times> shared) option" where
  "thread_step (NCheck ev) g = Some (if g_closed g then Halted else NSend ev, g)"
| "thread_step (NSend ev) g =
     Some (case try_send (g_ch g) ev of
             None \<Rightarrow> (Panicked, g)
           | Some (ch, True) \<Rightarrow> (Halted, g\<lparr>g_ch := ch\<rparr>)
           | Some (_, False) \<Rightarrow> (NErr, g))"
| "thread_step NErr g =
     Some (case try_send (g_errCh g) LostUpdate of
             None \<Rightarrow> (Panicked, g)
           | Some (ch, _) \<Rightarrow> (CEnter, g\<lparr>g_errCh := ch\<rparr>))"
| "thread_step CEnter g =
     (case g_once g of
        Fresh \<Rightarrow> Some (CStore, g\<lparr>g_once := Running\<rparr>)
      | Running \<Rightarrow> None
      | Finished \<Rightarrow> Some (Halted, g))"
| "thread_step CStore g = Some (CUnregister, g\<lparr>g_closed := True\<rparr>)"
| "thread_step CUnregister g =
     Some (if g_owned g then (CCloseCh, g\<lparr>g_owned := False\<rparr>) else (Halted, g\<lparr>g_once := Finished\<rparr>))"
| "thread_step CCloseCh g =
     Some (case close_chan (g_ch g) of None \<Rightarrow> (Panicked, g) | Some ch \<Rightarrow> (CCloseErr, g\<lparr>g_ch := ch\<rparr>))"
| "thread_step CCloseErr g =
     Some (case close_chan (g_errCh g) of None \<Rightarrow> (Panicked, g) | Some ch \<Rightarrow> (CProlong, g\<lparr>g_errCh := ch\<rparr>))"
| "thread_step CProlong g = Some (Halted, g\<lparr>g_once := Finished\<rparr>)"
| "thread_step Halted g = None"
| "thread_step Panicked g = None"

inductive sys_step :: "shared \<times> pc list \<Rightarrow> shared \<times> pc list \<Rightarrow> bool" where
  thread: "i < length ts \<Longrightarrow> thread_step (ts ! i) g = Some (p, g') \<Longrightarrow> sys_step (g, ts) (g', ts[i := p])"
| receive: "recv_chan (g_ch g) = (r, ch) \<Longrightarrow> sys_step (g, ts) (g\<lparr>g_ch := ch\<rparr>, ts)"
| receive_err: "recv_chan (g_errCh g) = (r, ch) \<Longrightarrow> sys_step (g, ts) (g\<lparr>g_errCh := ch\<rparr>, ts)"
| spawn: "p = CEnter \<or> p = NCheck ev \<Longrightarrow> sys_step (g, ts) (g, ts @ [p])"

inductive_cases sys_stepE: "sys_step (g, ts) s'"

definition fresh_shared :: shared where
  "fresh_shared = \<lparr>g_ch = make_chan affiliateSubBuffer, g_errCh = make_chan 1, g_closed = False,
     g_once = Fresh, g_owned = True\<rparr>"

definition sys_init :: "shared \<times> pc list \<Rightarrow> bool" where
  "sys_init s \<longleftrightarrow> s = (fresh_shared, [])"

section \<open>The channels are closed once\<close>

text \<open>The program points inside the function that the \<^verbatim>\<open>Once\<close> runs.\<close>

definition inside :: "pc \<Rightarrow> bool" where
  "inside p \<longleftrightarrow> p \<in> {CStore, CUnregister, CCloseCh, CCloseErr, CProlong}"

text \<open>What is true of the shared state while a goroutine stands at a point inside.\<close>

fun at_point :: "pc \<Rightarrow> shared \<Rightarrow> bool" where
  "at_point CStore g \<longleftrightarrow> g_owned g \<and> \<not> ch_closed (g_ch g) \<and> \<not> ch_closed (g_errCh g)"
| "at_point CUnregister g \<longleftrightarrow> g_closed g \<and> g_owned g \<and> \<not> ch_closed (g_ch g) \<and> \<not> ch_closed (g_errCh g)"
| "at_point CCloseCh g \<longleftrightarrow> g_closed g \<and> \<not> g_owned g \<and> \<not> ch_closed (g_ch g) \<and> \<not> ch_closed (g_errCh g)"
| "at_point CCloseErr g \<longleftrightarrow> g_closed g \<and> \<not> g_owned g \<and> ch_closed (g_ch g) \<and> \<not> ch_closed (g_errCh g)"
| "at_point CProlong g \<longleftrightarrow> g_closed g \<and> \<not> g_owned g \<and> ch_closed (g_ch g) \<and> ch_closed (g_errCh g)"
| "at_point p g \<longleftrightarrow> True"

text \<open>The goroutine inside, if any, and what the others may do.\<close>

definition runner :: "pc list \<Rightarrow> nat \<Rightarrow> bool" where
  "runner ts i \<longleftrightarrow> i < length ts \<and> inside (ts ! i) \<and> (\<forall>j < length ts. j \<noteq> i \<longrightarrow> \<not> inside (ts ! j))"

definition once_inv :: "shared \<Rightarrow> pc list \<Rightarrow> bool" where
  "once_inv g ts =
     (case g_once g of
        Fresh \<Rightarrow> (\<forall>p \<in> set ts. \<not> inside p) \<and> at_point CStore g \<and> \<not> g_closed g
      | Running \<Rightarrow> \<exists>i. runner ts i \<and> at_point (ts ! i) g
      | Finished \<Rightarrow> (\<forall>p \<in> set ts. \<not> inside p) \<and> at_point CProlong g)"

lemma none_inside_update: "\<forall>p \<in> set ts. \<not> inside p \<Longrightarrow> \<not> inside q \<Longrightarrow> \<forall>p \<in> set (ts[i := q]). \<not> inside p"
  using set_update_subset_insert [of ts i q] by auto

lemma runner_other: "runner ts k \<Longrightarrow> i \<noteq> k \<Longrightarrow> \<not> inside q \<Longrightarrow> runner (ts[i := q]) k"
  by (auto simp: runner_def) (metis nth_list_update_eq nth_list_update_neq)

lemma runner_self: "runner ts i \<Longrightarrow> inside q \<Longrightarrow> runner (ts[i := q]) i"
  by (auto simp: runner_def)

lemma runner_left: "runner ts i \<Longrightarrow> \<not> inside q \<Longrightarrow> \<forall>p \<in> set (ts[i := q]). \<not> inside p"
  by (auto simp: runner_def in_set_conv_nth nth_list_update split: if_splits)

lemma runner_new: "\<forall>p \<in> set ts. \<not> inside p \<Longrightarrow> i < length ts \<Longrightarrow> inside q \<Longrightarrow> runner (ts[i := q]) i"
  by (auto simp: runner_def)

text \<open>A step outside the \<^verbatim>\<open>Once\<close>: the flags that matter to the goroutine inside stay.\<close>

definition same_flags :: "shared \<Rightarrow> shared \<Rightarrow> bool" where
  "same_flags g g' \<longleftrightarrow> g_once g' = g_once g \<and> g_closed g' = g_closed g \<and> g_owned g' = g_owned g \<and>
     ch_closed (g_ch g') = ch_closed (g_ch g) \<and> ch_closed (g_errCh g') = ch_closed (g_errCh g)"

lemma at_point_flags: "same_flags g g' \<Longrightarrow> at_point p g' = at_point p g"
  by (cases p) (auto simp: same_flags_def)

lemma once_inv_outside:
  assumes "once_inv g ts" and "i < length ts" and "\<not> inside (ts ! i)" and "\<not> inside p" and "same_flags g g'"
  shows "once_inv g' (ts[i := p])"
proof -
  have pt: "at_point q g' = at_point q g" for q by (rule at_point_flags [OF assms(5)])
  have eq: "g_once g' = g_once g" "g_closed g' = g_closed g" using assms(5) by (simp_all add: same_flags_def)
  show ?thesis
  proof (cases "g_once g")
    case Running
    with assms(1) obtain k where k: "runner ts k" "at_point (ts ! k) g" by (auto simp: once_inv_def)
    with assms(3) have "i \<noteq> k" by (auto simp: runner_def)
    with k assms(4) Running show ?thesis by (auto simp: once_inv_def eq pt intro!: exI [of _ k] runner_other)
  qed (use assms(1,4) none_inside_update in \<open>auto simp: once_inv_def eq pt\<close>)
qed

lemma once_inv_inside:
  assumes "once_inv g ts" and "i < length ts" and "inside (ts ! i)"
  shows "g_once g = Running" and "runner ts i" and "at_point (ts ! i) g"
proof -
  show run: "g_once g = Running" using assms by (cases "g_once g") (auto simp: once_inv_def)
  then obtain k where k: "runner ts k" "at_point (ts ! k) g" using assms(1) by (auto simp: once_inv_def)
  with assms(2,3) have "k = i" by (auto simp: runner_def)
  with k show "runner ts i" "at_point (ts ! i) g" by auto
qed

lemma once_inv_thread:
  assumes "once_inv g ts" and "i < length ts" and "thread_step (ts ! i) g = Some (p, g')"
  shows "once_inv g' (ts[i := p])"
proof (cases "inside (ts ! i)")
  case True
  note I = once_inv_inside [OF assms(1,2) True]
  have "inside p \<and> at_point p g' \<and> g_once g' = Running \<or> \<not> inside p \<and> at_point CProlong g' \<and> g_once g' = Finished"
    using assms(3) I(1,3) True by (cases "ts ! i") (auto simp: inside_def close_chan_def split: if_splits)
  then show ?thesis
    using runner_self [OF I(2)] runner_left [OF I(2)] assms(2)
    by (auto simp: once_inv_def intro!: exI [of _ i])
next
  case False
  have "\<not> inside p \<and> same_flags g g' \<or>
      g_once g = Fresh \<and> p = CStore \<and> g' = g\<lparr>g_once := Running\<rparr>"
    using assms(3) False
    by (cases "ts ! i") (auto simp: inside_def same_flags_def try_send_def split: if_splits once.splits)
  then show ?thesis
  proof
    assume "\<not> inside p \<and> same_flags g g'"
    with once_inv_outside [OF assms(1,2) False] show ?thesis by blast
  next
    assume f: "g_once g = Fresh \<and> p = CStore \<and> g' = g\<lparr>g_once := Running\<rparr>"
    with assms(1) have "\<forall>p \<in> set ts. \<not> inside p" "at_point CStore g" by (simp_all add: once_inv_def)
    moreover have "inside CStore" by (simp add: inside_def)
    ultimately have "runner (ts[i := CStore]) i" using runner_new assms(2) by blast
    with f assms(2) \<open>at_point CStore g\<close> show ?thesis by (simp add: once_inv_def) (rule exI [of _ i], simp)
  qed
qed

lemma once_inv_append:
  assumes "once_inv g ts" and "\<not> inside p"
  shows "once_inv g (ts @ [p])"
proof -
  have run: "runner ts i \<Longrightarrow> runner (ts @ [p]) i \<and> (ts @ [p]) ! i = ts ! i" for i
    using assms(2) by (auto simp: runner_def nth_append less_Suc_eq)
  show ?thesis
  proof (cases "g_once g")
    case Running
    with assms(1) obtain i where "runner ts i" "at_point (ts ! i) g" by (auto simp: once_inv_def)
    with run [of i] Running show ?thesis by (auto simp: once_inv_def intro!: exI [of _ i])
  qed (use assms in \<open>auto simp: once_inv_def\<close>)
qed

lemma once_inv_flags: "once_inv g ts \<Longrightarrow> same_flags g g' \<Longrightarrow> once_inv g' ts"
  using at_point_flags [of g g'] by (auto simp: once_inv_def same_flags_def split: once.splits)

definition bounds_inv :: "shared \<Rightarrow> bool" where
  "bounds_inv g \<longleftrightarrow> length (ch_buf (g_ch g)) \<le> affiliateSubBuffer \<and> ch_cap (g_ch g) = affiliateSubBuffer \<and>
     length (ch_buf (g_errCh g)) \<le> 1 \<and> ch_cap (g_errCh g) = 1"

definition sys_inv :: "shared \<times> pc list \<Rightarrow> bool" where
  "sys_inv s \<longleftrightarrow> once_inv (fst s) (snd s) \<and> bounds_inv (fst s)"

lemma bounds_thread: "thread_step p g = Some (q, g') \<Longrightarrow> bounds_inv g \<Longrightarrow> bounds_inv g'"
  by (cases p) (auto simp: bounds_inv_def try_send_def close_chan_def split: if_splits once.splits)

lemma recv_chan_frame:
  "recv_chan c = (r, c') \<Longrightarrow> ch_closed c' = ch_closed c \<and> ch_cap c' = ch_cap c \<and> length (ch_buf c') \<le> length (ch_buf c)"
  by (auto simp: recv_chan_def split: list.splits)

interpretation subs_sys: invariant_system sys_init sys_step sys_inv
proof
  show "sys_inv s" if "sys_init s" for s
    using that by (simp add: sys_init_def sys_inv_def once_inv_def bounds_inv_def fresh_shared_def)
  show "sys_inv s'" if inv: "sys_inv s" and "sys_step s s'" for s s'
    using that(2,1)
  proof cases
    case (thread i ts g p g')
    with inv once_inv_thread [of g ts i p g'] bounds_thread show ?thesis by (auto simp: sys_inv_def)
  next
    case (receive g r ch ts)
    then have "same_flags g (g\<lparr>g_ch := ch\<rparr>)" "bounds_inv g \<Longrightarrow> bounds_inv (g\<lparr>g_ch := ch\<rparr>)"
      using recv_chan_frame [OF receive(3)] by (auto simp: same_flags_def bounds_inv_def)
    with receive inv once_inv_flags show ?thesis by (auto simp: sys_inv_def)
  next
    case (receive_err g r ch ts)
    then have "same_flags g (g\<lparr>g_errCh := ch\<rparr>)" "bounds_inv g \<Longrightarrow> bounds_inv (g\<lparr>g_errCh := ch\<rparr>)"
      using recv_chan_frame [OF receive_err(3)] by (auto simp: same_flags_def bounds_inv_def)
    with receive_err inv once_inv_flags show ?thesis by (auto simp: sys_inv_def)
  next
    case (spawn p ev g ts)
    with inv once_inv_append [of g ts p] show ?thesis by (auto simp: sys_inv_def inside_def)
  qed
qed

definition schedule :: "shared \<times> pc list \<Rightarrow> nat \<Rightarrow> (shared \<times> pc list) option" where
  "schedule s i = (case s of (g, ts) \<Rightarrow>
     if i < length ts then map_option (\<lambda>(p, g'). (g', ts[i := p])) (thread_step (ts ! i) g) else None)"

lemma reach_schedule: "reach sys_init sys_step s \<Longrightarrow> run schedule s is = Some s' \<Longrightarrow> reach sys_init sys_step s'"
proof (induction "is" arbitrary: s)
  case (Cons i "is")
  then obtain s1 where s1: "schedule s i = Some s1" "run schedule s1 is = Some s'" by (auto split: option.splits)
  then have "sys_step s s1" by (cases s) (auto simp: schedule_def split: if_splits intro: sys_step.thread)
  with Cons s1 show ?case by (blast intro: reach_step)
qed simp

lemma reach_spawned: "reach sys_init sys_step (fresh_shared, [NCheck ev, CEnter])"
proof -
  have "reach sys_init sys_step (fresh_shared, [])" by (rule reach_init) (simp add: sys_init_def)
  then have "reach sys_init sys_step (fresh_shared, [NCheck ev])"
    by (rule reach_step) (use sys_step.spawn [of "NCheck ev" ev fresh_shared "[]"] in simp)
  then show ?thesis
    by (rule reach_step) (use sys_step.spawn [of CEnter ev fresh_shared "[NCheck ev]"] in simp)
qed

text \<open>
  C23: closing is safe under every interleaving. However many goroutines notify and close one
  subscription at once (slow-consumer closing, the context goroutine, the deferred close of the
  stream), at most one of them is ever inside the closing function, it never closes a channel that
  is closed already, so no close panics; once the function has finished, the subscription is
  flagged, unregistered and both channels are closed. The buffers never exceed 64 events and one
  error. A goroutine that does panic is one that was about to send in \<open>notify\<close>, on a channel that
  was closed after its check.
\<close>

theorem close_exactly_once:
  assumes "reach sys_init sys_step (g, ts)"
  shows "(\<forall>i < length ts. \<forall>j < length ts. inside (ts ! i) \<longrightarrow> inside (ts ! j) \<longrightarrow> i = j) \<and>
    (CCloseCh \<in> set ts \<longrightarrow> \<not> ch_closed (g_ch g)) \<and> (CCloseErr \<in> set ts \<longrightarrow> \<not> ch_closed (g_errCh g)) \<and>
    (g_once g = Finished \<longrightarrow> g_closed g \<and> \<not> g_owned g \<and> ch_closed (g_ch g) \<and> ch_closed (g_errCh g)) \<and>
    length (ch_buf (g_ch g)) \<le> 64 \<and> length (ch_buf (g_errCh g)) \<le> 1 \<and>
    (\<forall>i < length ts. \<forall>g'. thread_step (ts ! i) g = Some (Panicked, g') \<longrightarrow>
       g_closed g \<and> (ts ! i = NErr \<or> (\<exists>ev. ts ! i = NSend ev)))"
proof -
  have inv: "once_inv g ts" "bounds_inv g" using subs_sys.reach_inv [OF assms] by (simp_all add: sys_inv_def)
  note I = once_inv_inside [OF inv(1)]
  have one: "i = j" if "i < length ts" "j < length ts" "inside (ts ! i)" "inside (ts ! j)" for i j
    using I(2) [OF that(1,3)] that by (auto simp: runner_def)
  have at: "at_point p g" if "p \<in> set ts" "inside p" for p using that I(3) by (auto simp: in_set_conv_nth)
  have cl: "ch_closed (g_ch g) \<or> ch_closed (g_errCh g) \<Longrightarrow> g_closed g"
  proof -
    assume c: "ch_closed (g_ch g) \<or> ch_closed (g_errCh g)"
    show ?thesis
    proof (cases "g_once g")
      case Running
      with inv(1) obtain i where "runner ts i" "at_point (ts ! i) g" by (auto simp: once_inv_def)
      with c show ?thesis by (cases "ts ! i") (auto simp: runner_def inside_def)
    qed (use c inv(1) in \<open>auto simp: once_inv_def\<close>)
  qed
  have pan: "g_closed g \<and> (ts ! i = NErr \<or> (\<exists>ev. ts ! i = NSend ev))"
    if "i < length ts" "thread_step (ts ! i) g = Some (Panicked, g')" for i g'
    using that cl at [OF nth_mem [OF that(1)]]
    by (cases "ts ! i") (auto simp: try_send_def close_chan_def inside_def split: if_splits once.splits)
  have "at_point CCloseCh g" if "CCloseCh \<in> set ts" using at [OF that] by (simp add: inside_def)
  moreover have "at_point CCloseErr g" if "CCloseErr \<in> set ts" using at [OF that] by (simp add: inside_def)
  moreover have "g_once g = Finished \<Longrightarrow> at_point CProlong g" using inv(1) by (simp add: once_inv_def)
  ultimately show ?thesis
    using one pan inv(2) by (simp add: bounds_inv_def affiliateSubBuffer_def)
qed

theorem close_exactly_once_witness:
  "reach sys_init sys_step (fresh_shared, [NCheck (tombstone ''n''), CEnter]) \<and> length (ch_buf (g_ch fresh_shared)) \<le> 64"
  using close_exactly_once [OF reach_spawned [of "tombstone ''n''"]] reach_spawned by blast




section \<open>Updates that overtake each other\<close>

text \<open>
  \<open>UpdateAffiliate\<close> changes the cluster under its lock and notifies after releasing it. Two
  updates can therefore notify in the opposite order of their changes.
\<close>

lemma update_with_data:
  assumes "cluster_inv c" and "\<not> rejected r c" and "req_Data r \<noteq> []" and "req_Endpoints r = []"
  obtains a where "updateAffiliateLocked now r c = (put_affiliate a c, Inr (Some (upsert a)))"
    and "aff_id a = req_ID r" and "aff_data a = req_Data r" and "cluster_inv (put_affiliate a c)"
proof -
  have affs: "affs_inv (affiliates c)" using assms(1) by (simp add: cluster_inv_def)
  let ?b = "base_affiliate (req_ID r) c" and ?x = "time_Add now (req_TTL r)"
  have b: "aff_inv ?b" by (rule base_affiliate_inv(1) [OF affs])
  then have room: "has_room ?b (req_Endpoints r)" by (simp add: has_room_def assms(4) aff_inv_def)
  have data: "aff_data (fst (MergeEndpoints (with_data ?x r ?b) (req_Endpoints r) ?x)) = req_Data r"
    using Merge_frame(2) [of "with_data ?x r ?b" "req_Endpoints r" ?x] b assms(3) by (simp add: with_data_def)
  show ?thesis
    using affs
  proof (cases rule: updateAffiliateLocked_cases [where now = now and req = r])
    case (event a)
    have "affs_inv (affiliates (put_affiliate a c))" by (rule put_affiliate_inv [OF affs assms(2) event(6,7)])
    then have "cluster_inv (put_affiliate a c)" using assms(1) by (simp add: cluster_inv_def)
    then show ?thesis using event data by (intro that [of a]) simp_all
  qed (use assms room in auto)
qed

text \<open>
  C26: notifications can overtake each other. When two updates of the same affiliate with different
  data apply in one order and notify in the other, every watcher with room receives the events in
  the wrong order: the cluster holds the data of the second update, and a watcher that has applied
  everything it was sent holds the data of the first one. No later event corrects it.
\<close>

theorem overtaking_notifications_mislead:
  assumes "cluster_inv c" and "range_order so" and "registered c p"
    and "length (ch_buf (sub_ch (subs c ! p))) + 2 \<le> 64"
    and "\<not> rejected r1 c" and "req_ID r2 = req_ID r1" and "req_Data r1 \<noteq> []" and "req_Data r2 \<noteq> []"
    and "req_Endpoints r1 = []" and "req_Endpoints r2 = []"
  shows "\<exists>c1 ev1 c2 ev2 c3 c4.
    updateAffiliateLocked now1 r1 c = (c1, Inr (Some ev1)) \<and> updateAffiliateLocked now2 r2 c1 = (c2, Inr (Some ev2)) \<and>
    notify so t ev2 c2 = Some c3 \<and> notify so t ev1 c3 = Some c4 \<and>
    in_flight p c4 = in_flight p c @ [ev2, ev1] \<and>
    map_option info_Data (aff_view (affiliates c4) (req_ID r1)) = Some (req_Data r2) \<and>
    (\<forall>v. map_option info_Data (fold apply_event (in_flight p c4) v (req_ID r1)) = Some (req_Data r1))"
proof -
  obtain a1 where a1: "updateAffiliateLocked now1 r1 c = (put_affiliate a1 c, Inr (Some (upsert a1)))"
    "aff_id a1 = req_ID r1" "aff_data a1 = req_Data r1" "cluster_inv (put_affiliate a1 c)"
    by (rule update_with_data [OF assms(1,5,7,9)])
  have "\<not> rejected r2 (put_affiliate a1 c)" using a1(2) assms(6) by (simp add: rejected_def)
  then obtain a2 where a2: "updateAffiliateLocked now2 r2 (put_affiliate a1 c) =
      (put_affiliate a2 (put_affiliate a1 c), Inr (Some (upsert a2)))"
    "aff_id a2 = req_ID r2" "aff_data a2 = req_Data r2" "cluster_inv (put_affiliate a2 (put_affiliate a1 c))"
    by (rule update_with_data [OF a1(4) _ assms(8,10)])
  let ?c2 = "put_affiliate a2 (put_affiliate a1 c)"
  let ?c3 = "fanout t (upsert a2) ?c2" and ?c4 = "fanout t (upsert a1) (fanout t (upsert a2) ?c2)"
  have s2: "subs_inv ?c2" using a2(4) by (simp add: cluster_inv_def)
  note N2 = notify_fanout [OF s2 assms(2), of t "upsert a2"]
  have s3: "subs_inv ?c3" using N2(2) .
  note N3 = notify_fanout [OF s3 assms(2), of t "upsert a1"]
  have reg2: "registered ?c2 p" using assms(3) by (simp add: registered_def)
  have full2: "\<not> sub_full (subs ?c2 ! p)" using assms(4) by (simp add: sub_full_def affiliateSubBuffer_def)
  have reg3: "registered ?c3 p" using registered_fanout [OF s2] reg2 full2 by simp
  have fl3: "in_flight p ?c3 = in_flight p c @ [upsert a2]"
    using in_flight_fanout [OF s2 reg2, of t "upsert a2"] full2 by (simp add: in_flight_def)
  have "\<not> sub_full (subs ?c3 ! p)"
    using fl3 assms(4) by (auto simp: sub_full_def affiliateSubBuffer_def in_flight_def)
  then have fl4: "in_flight p ?c4 = in_flight p c @ [upsert a2, upsert a1]"
    using in_flight_fanout [OF s3 reg3, of t "upsert a1"] fl3 by simp
  have "affiliates ?c4 = AList.update (req_ID r1) a2 (AList.update (req_ID r1) a1 (affiliates c))"
    using a1(2) a2(2) assms(6) by simp
  then have "map_option info_Data (aff_view (affiliates ?c4) (req_ID r1)) = Some (req_Data r2)"
    using a2(3) by (simp add: aff_view_update ToInfo_def)
  moreover have "map_option info_Data (fold apply_event (in_flight p ?c4) v (req_ID r1)) = Some (req_Data r1)" for v
    unfolding fl4 using a1(2,3) by (simp add: ToInfo_def)
  ultimately show ?thesis
    using a1(1) a2(1) N2(1) N3(1) fl4 by blast
qed

theorem overtaking_notifications_mislead_witness:
  "\<exists>c4. in_flight 0 c4 \<noteq> [] \<and>
     map_option info_Data (aff_view (affiliates c4) ''n'') = Some [2] \<and>
     map_option info_Data (fold apply_event (in_flight 0 c4) Map.empty ''n'') = Some [1]"
proof -
  let ?r = "\<lambda>d. \<lparr>req_ID = ''n'', req_Data = [d], req_Endpoints = [], req_TTL = 9\<rparr>"
  have reg: "registered demo_start 0" "ch_buf (sub_ch (subs demo_start ! 0)) = []" "affiliates demo_start = []"
    by (simp_all add: demo_start_def registered_def sub_key_def SubscribeWithSnapshot_def Let_def NewCluster_def)
  have inv: "cluster_inv demo_start"
    using SubscribeWithSnapshot_inv [of "NewCluster 0 ''c''" rev] cluster_inv_New [of 0 "''c''"] demo_subscribe
    by (auto simp: cluster_inv_def affs_inv_def reg(3))
  have h: "length (ch_buf (sub_ch (subs demo_start ! 0))) + 2 \<le> 64" "\<not> rejected (?r 1) demo_start"
    "req_ID (?r 2) = req_ID (?r 1)" "req_Data (?r 1) \<noteq> []" "req_Data (?r 2) \<noteq> []"
    "req_Endpoints (?r 1) = []" "req_Endpoints (?r 2) = []"
    using reg by (simp_all add: rejected_def AffiliatesMax_def)
  obtain c4 ev1 ev2 where "in_flight 0 c4 = in_flight 0 demo_start @ [ev2, ev1]"
    "map_option info_Data (aff_view (affiliates c4) (req_ID (?r 1))) = Some (req_Data (?r 2))"
    "\<forall>v. map_option info_Data (fold apply_event (in_flight 0 c4) v (req_ID (?r 1))) = Some (req_Data (?r 1))"
    using overtaking_notifications_mislead [OF inv range_order_rev reg(1) h, of 0 1 5] by (elim exE conjE) (rule that)
  then show ?thesis by (intro exI [of _ c4]) simp
qed

end
