(* ===== verification/Snapshot.thy ===== *)
theory Snapshot
  imports Server_Spec
begin

text \<open>
  Saving the state to a file and loading it back (\<^verbatim>\<open>internal/state/snapshot.go\<close>, \<^verbatim>\<open>NewState\<close> of
  \<^verbatim>\<open>internal/state/state.go\<close>), with the messages of \<^verbatim>\<open>internal/proto/snapshot/v1/snapshot.pb.go\<close>.

  The protobuf runtime is a parameter: its timestamp conversions and its encoding, with the
  documented round trips in the locale \<open>protobuf_runtime\<close>. Files are a map from names to contents
  and permissions. The operating system decides which call fails; a writer leaves the list of file
  systems it passes through, so that what a crash leaves behind can be stated.
\<close>

section \<open>Messages\<close>

record 'ts snap_Endpoint =
  f_snap_Endpoint_Data :: bytes
  f_snap_Endpoint_Expiry :: "'ts option"

record 'ts snap_Affiliate =
  f_snap_Affiliate_Id :: string
  f_snap_Affiliate_Data :: bytes
  f_snap_Affiliate_Expiry :: "'ts option"
  f_snap_Affiliate_Endpoints :: "'ts snap_Endpoint list"

record 'ts snap_Cluster =
  f_snap_Cluster_Id :: string
  f_snap_Cluster_Affiliates :: "'ts snap_Affiliate list"

record 'ts snap_Snapshot =
  f_snap_Snapshot_Clusters :: "'ts snap_Cluster list"

definition snap_Endpoint_GetData :: "'ts snap_Endpoint option \<Rightarrow> bytes" where
  "snap_Endpoint_GetData x = (case x of Some m \<Rightarrow> f_snap_Endpoint_Data m | None \<Rightarrow> [])"

definition snap_Endpoint_GetExpiry :: "'ts snap_Endpoint option \<Rightarrow> 'ts option" where
  "snap_Endpoint_GetExpiry x = (case x of Some m \<Rightarrow> f_snap_Endpoint_Expiry m | None \<Rightarrow> None)"

definition snap_Affiliate_GetId :: "'ts snap_Affiliate option \<Rightarrow> string" where
  "snap_Affiliate_GetId x = (case x of Some m \<Rightarrow> f_snap_Affiliate_Id m | None \<Rightarrow> '''')"

definition snap_Affiliate_GetData :: "'ts snap_Affiliate option \<Rightarrow> bytes" where
  "snap_Affiliate_GetData x = (case x of Some m \<Rightarrow> f_snap_Affiliate_Data m | None \<Rightarrow> [])"

definition snap_Affiliate_GetExpiry :: "'ts snap_Affiliate option \<Rightarrow> 'ts option" where
  "snap_Affiliate_GetExpiry x = (case x of Some m \<Rightarrow> f_snap_Affiliate_Expiry m | None \<Rightarrow> None)"

definition snap_Affiliate_GetEndpoints :: "'ts snap_Affiliate option \<Rightarrow> 'ts snap_Endpoint list" where
  "snap_Affiliate_GetEndpoints x = (case x of Some m \<Rightarrow> f_snap_Affiliate_Endpoints m | None \<Rightarrow> [])"

definition snap_Cluster_GetId :: "'ts snap_Cluster option \<Rightarrow> string" where
  "snap_Cluster_GetId x = (case x of Some m \<Rightarrow> f_snap_Cluster_Id m | None \<Rightarrow> '''')"

definition snap_Cluster_GetAffiliates :: "'ts snap_Cluster option \<Rightarrow> 'ts snap_Affiliate list" where
  "snap_Cluster_GetAffiliates x = (case x of Some m \<Rightarrow> f_snap_Cluster_Affiliates m | None \<Rightarrow> [])"

definition snap_Snapshot_GetClusters :: "'ts snap_Snapshot option \<Rightarrow> 'ts snap_Cluster list" where
  "snap_Snapshot_GetClusters x = (case x of Some m \<Rightarrow> f_snap_Snapshot_Clusters m | None \<Rightarrow> [])"

lemmas snap_getters =
  snap_Endpoint_GetData_def snap_Endpoint_GetExpiry_def snap_Affiliate_GetId_def snap_Affiliate_GetData_def
  snap_Affiliate_GetExpiry_def snap_Affiliate_GetEndpoints_def snap_Cluster_GetId_def
  snap_Cluster_GetAffiliates_def snap_Snapshot_GetClusters_def

section \<open>The protobuf runtime\<close>

record 'ts pbrt =
  ts_New :: "time \<Rightarrow> 'ts"
  ts_AsTime :: "'ts \<Rightarrow> time"
  pb_Marshal :: "'ts snap_Snapshot \<Rightarrow> bytes option"
  pb_Unmarshal :: "bytes \<Rightarrow> 'ts snap_Snapshot option"

text \<open>Timestamps count seconds in 64 bits, and nanoseconds.\<close>

definition ts_range :: "time \<Rightarrow> bool" where
  "ts_range t \<longleftrightarrow> - (2 ^ 63) * 1000000000 \<le> t \<and> t < 2 ^ 63 * 1000000000"

locale protobuf_runtime =
  fixes R :: "'ts pbrt"
  assumes AsTime_New: "ts_range t \<Longrightarrow> ts_AsTime R (ts_New R t) = t"
    and Unmarshal_Marshal: "pb_Marshal R m = Some b \<Longrightarrow> pb_Unmarshal R b = Some m"

section \<open>Files\<close>

record os_file =
  f_bytes :: bytes
  f_perm :: nat

type_synonym fs = "string \<Rightarrow> os_file option"

datatype save_error = MarshalFailed | CreateFailed | ChmodFailed | WriteFailed | SyncFailed | CloseFailed | RenameFailed

text \<open>
  What the operating system does with the calls of one write: the name of the temporary file, or
  none; whether chmod, sync, close and rename succeed; how many bytes a failing write leaves; and
  whether the final remove succeeds.
\<close>

record io =
  io_create :: "string option"
  io_chmod :: bool
  io_write :: "nat option"
  io_sync :: bool
  io_close :: bool
  io_rename :: bool
  io_remove :: bool

definition defaultPerm :: nat where
  "defaultPerm = 384"

text \<open>The deferred function: a second close, then the removal of the temporary name.\<close>

definition remove_tmp :: "io \<Rightarrow> string \<Rightarrow> fs \<Rightarrow> fs" where
  "remove_tmp os tmp fs = (if io_remove os then fs(tmp := None) else fs)"

definition atomicWriteFile :: "io \<Rightarrow> string \<Rightarrow> bytes \<Rightarrow> nat \<Rightarrow> fs \<Rightarrow> fs list \<times> save_error option" where
  "atomicWriteFile os path bs perm fs0 =
     (case io_create os of
        None \<Rightarrow> ([fs0], Some CreateFailed)
      | Some tmp \<Rightarrow>
          (let fs1 = fs0(tmp \<mapsto> \<lparr>f_bytes = [], f_perm = 384\<rparr>);
               fs2 = fs0(tmp \<mapsto> \<lparr>f_bytes = [], f_perm = perm\<rparr>);
               fs3 = fs0(tmp \<mapsto> \<lparr>f_bytes = bs, f_perm = perm\<rparr>);
               fs4 = (fs0(tmp := None))(path \<mapsto> \<lparr>f_bytes = bs, f_perm = perm\<rparr>)
           in if \<not> io_chmod os then ([fs0, fs1, remove_tmp os tmp fs1], Some ChmodFailed)
              else (case io_write os of
                      Some k \<Rightarrow>
                        (let fsk = fs0(tmp \<mapsto> \<lparr>f_bytes = take k bs, f_perm = perm\<rparr>)
                         in ([fs0, fs1, fs2, fsk, remove_tmp os tmp fsk], Some WriteFailed))
                    | None \<Rightarrow>
                        if \<not> io_sync os then ([fs0, fs1, fs2, fs3, remove_tmp os tmp fs3], Some SyncFailed)
                        else if \<not> io_close os then ([fs0, fs1, fs2, fs3, remove_tmp os tmp fs3], Some CloseFailed)
                        else if \<not> io_rename os then ([fs0, fs1, fs2, fs3, remove_tmp os tmp fs3], Some RenameFailed)
                        else ([fs0, fs1, fs2, fs3, fs4, remove_tmp os tmp fs4], None))))"

section \<open>Saving\<close>

definition snap_endpoint :: "'ts pbrt \<Rightarrow> Endpoint \<Rightarrow> 'ts snap_Endpoint" where
  "snap_endpoint R ep = \<lparr>f_snap_Endpoint_Data = ep_data ep, f_snap_Endpoint_Expiry = Some (ts_New R (ep_expiry ep))\<rparr>"

definition snap_affiliate :: "'ts pbrt \<Rightarrow> Affiliate \<Rightarrow> 'ts snap_Affiliate" where
  "snap_affiliate R aff =
     \<lparr>f_snap_Affiliate_Id = aff_id aff, f_snap_Affiliate_Data = aff_data aff,
      f_snap_Affiliate_Expiry = Some (ts_New R (aff_expiry aff)),
      f_snap_Affiliate_Endpoints = map (snap_endpoint R) (aff_endpoints aff)\<rparr>"

definition snap_cluster :: "'ts pbrt \<Rightarrow> (string list \<Rightarrow> string list) \<Rightarrow> string \<Rightarrow> Cluster \<Rightarrow> 'ts snap_Cluster" where
  "snap_cluster R ao i c =
     \<lparr>f_snap_Cluster_Id = i,
      f_snap_Cluster_Affiliates =
        map (\<lambda>k. snap_affiliate R (the (map_of (affiliates c) k))) (ao (keys (affiliates c)))\<rparr>"

definition take_snapshot ::
  "'m xsync \<Rightarrow> 'ts pbrt \<Rightarrow> (string list \<Rightarrow> string list) \<Rightarrow> 'm State \<Rightarrow> 'ts snap_Snapshot" where
  "take_snapshot X R ao s =
     \<lparr>f_snap_Snapshot_Clusters = map (\<lambda>(i, p). snap_cluster R ao i (heap s ! p)) (x_Range X (clusters s))\<rparr>"

definition SaveSnapshot ::
  "'m xsync \<Rightarrow> 'ts pbrt \<Rightarrow> (string list \<Rightarrow> string list) \<Rightarrow> io \<Rightarrow> string \<Rightarrow> 'm State \<Rightarrow> fs \<Rightarrow>
   fs list \<times> save_error option" where
  "SaveSnapshot X R ao os path s fs =
     (case pb_Marshal R (take_snapshot X R ao s) of
        None \<Rightarrow> ([fs], Some MarshalFailed)
      | Some bs \<Rightarrow> atomicWriteFile os path bs defaultPerm fs)"

section \<open>Loading\<close>

definition load_endpoint :: "'ts pbrt \<Rightarrow> 'ts snap_Endpoint option \<Rightarrow> Endpoint" where
  "load_endpoint R se =
     \<lparr>ep_expiry = (case snap_Endpoint_GetExpiry se of None \<Rightarrow> zero_time | Some ts \<Rightarrow> ts_AsTime R ts),
      ep_data = snap_Endpoint_GetData se\<rparr>"

definition load_affiliate :: "'ts pbrt \<Rightarrow> 'ts snap_Affiliate option \<Rightarrow> Affiliate" where
  "load_affiliate R sa =
     \<lparr>aff_id = snap_Affiliate_GetId sa,
      aff_expiry = (case snap_Affiliate_GetExpiry sa of None \<Rightarrow> zero_time | Some ts \<Rightarrow> ts_AsTime R ts),
      aff_data = snap_Affiliate_GetData sa,
      aff_endpoints = map (\<lambda>se. load_endpoint R (Some se)) (snap_Affiliate_GetEndpoints sa)\<rparr>"

definition load_cluster :: "'ts pbrt \<Rightarrow> time \<Rightarrow> 'ts snap_Cluster option \<Rightarrow> Cluster" where
  "load_cluster R now sc =
     (let c = NewCluster now (snap_Cluster_GetId sc) in
      c\<lparr>affiliates := fold (\<lambda>sa m. let aff = load_affiliate R (Some sa) in AList.update (aff_id aff) aff m)
                       (snap_Cluster_GetAffiliates sc) (affiliates c)\<rparr>)"

definition load_clusters :: "'m xsync \<Rightarrow> 'ts pbrt \<Rightarrow> time \<Rightarrow> 'ts snap_Cluster list \<Rightarrow> 'm State \<Rightarrow> 'm State" where
  "load_clusters X R now scs s =
     fold (\<lambda>sc s. s\<lparr>clusters := x_Store X (clusters s) (snap_Cluster_GetId (Some sc)) (length (heap s)),
                    heap := heap s @ [load_cluster R now (Some sc)]\<rparr>) scs s"

datatype load_error = ReadFailed | UnmarshalFailed

text \<open>\<open>readable\<close> is false when reading fails for another reason than a missing file.\<close>

definition LoadSnapshot ::
  "'m xsync \<Rightarrow> 'ts pbrt \<Rightarrow> time \<Rightarrow> bool \<Rightarrow> string \<Rightarrow> fs \<Rightarrow> load_error + 'm State" where
  "LoadSnapshot X R now readable path fs =
     (if \<not> readable then Inl ReadFailed
      else case fs path of
        None \<Rightarrow> Inr (empty_state X)
      | Some f \<Rightarrow>
          (case pb_Unmarshal R (f_bytes f) of
             None \<Rightarrow> Inl UnmarshalFailed
           | Some snap \<Rightarrow> Inr (load_clusters X R now (snap_Snapshot_GetClusters (Some snap)) (empty_state X))))"

record stateConfig =
  snapshotPath :: string

definition WithSnapshot :: "string \<Rightarrow> stateConfig \<Rightarrow> stateConfig" where
  "WithSnapshot path c = c\<lparr>snapshotPath := path\<rparr>"

definition NewState ::
  "'m xsync \<Rightarrow> 'ts pbrt \<Rightarrow> time \<Rightarrow> bool \<Rightarrow> (stateConfig \<Rightarrow> stateConfig) list \<Rightarrow> fs \<Rightarrow> load_error + 'm State" where
  "NewState X R now readable opts fs =
     (let cfg = fold (\<lambda>opt c. opt c) opts \<lparr>snapshotPath = ''''\<rparr> in
      if snapshotPath cfg \<noteq> '''' then LoadSnapshot X R now readable (snapshotPath cfg) fs
      else Inr (empty_state X))"

section \<open>Writing\<close>

lemma atomicWriteFile_last:
  assumes "atomicWriteFile os path bs perm fs = (tr, None)"
  shows "last tr path = (if io_create os = Some path \<and> io_remove os then None else Some \<lparr>f_bytes = bs, f_perm = perm\<rparr>)"
  using assms by (auto simp: atomicWriteFile_def remove_tmp_def Let_def split: option.splits if_splits)



section \<open>The round trip\<close>

definition times_ok :: "Affiliate \<Rightarrow> bool" where
  "times_ok a \<longleftrightarrow> ts_range (aff_expiry a) \<and> (\<forall>e \<in> set (aff_endpoints a). ts_range (ep_expiry e))"

lemma update_fresh: "k \<notin> set (keys m) \<Longrightarrow> AList.update k v m = m @ [(k, v)]"
  by (induction m) auto

lemma fold_update_fresh:
  "distinct (map f as) \<Longrightarrow> set (map f as) \<inter> set (keys m) = {} \<Longrightarrow>
     fold (\<lambda>a m. AList.update (f a) (g a) m) as m = m @ map (\<lambda>a. (f a, g a)) as"
proof (induction as arbitrary: m)
  case (Cons a as)
  then have "AList.update (f a) (g a) m = m @ [(f a, g a)]" by (intro update_fresh) auto
  with Cons show ?case by auto
qed simp

context protobuf_runtime
begin

lemma load_snap_affiliate:
  assumes "times_ok a"
  shows "load_affiliate R (Some (snap_affiliate R a)) = a"
proof -
  have "map (\<lambda>e. load_endpoint R (Some (snap_endpoint R e))) (aff_endpoints a) = aff_endpoints a"
    using assms by (intro map_idI) (simp add: load_endpoint_def snap_endpoint_def snap_getters times_ok_def AsTime_New)
  with assms show ?thesis
    by (simp add: load_affiliate_def snap_affiliate_def snap_getters times_ok_def AsTime_New comp_def)
qed

lemma load_snap_cluster:
  assumes "affs_inv (affiliates c)" and "range_order ao" and "\<forall>(k, a) \<in> set (affiliates c). times_ok a"
  shows "affiliates (load_cluster R now (Some (snap_cluster R ao i c))) =
      map (\<lambda>k. (k, the (map_of (affiliates c) k))) (ao (keys (affiliates c)))"
proof -
  let ?m = "affiliates c" and ?ks = "ao (keys (affiliates c))"
  let ?a = "\<lambda>k. the (map_of ?m k)"
  have ks: "distinct ?ks" using affs_invD(1) [OF assms(1)] assms(2) by simp
  have a: "aff_id (?a k) = k \<and> times_ok (?a k)" if "k \<in> set ?ks" for k
  proof -
    have "k \<in> dom (map_of ?m)" using that assms(2) gm.ks_dom [of ?m] by simp
    then obtain b where b: "map_of ?m k = Some b" by (auto simp: domIff)
    then have "(k, b) \<in> set ?m" by (rule map_of_SomeD)
    with b affs_invD(2) [OF assms(1) b] assms(3) show ?thesis by auto
  qed
  have eq: "map (\<lambda>k. load_affiliate R (Some (snap_affiliate R (?a k)))) ?ks = map ?a ?ks"
    using a load_snap_affiliate by auto
  let ?as = "map (\<lambda>k. snap_affiliate R (?a k)) ?ks"
  have ids: "map (\<lambda>sa. aff_id (load_affiliate R (Some sa))) ?as = ?ks"
    using a load_snap_affiliate by (simp add: comp_def map_idI)
  have "fold (\<lambda>sa m. AList.update (aff_id (load_affiliate R (Some sa))) (load_affiliate R (Some sa)) m) ?as [] =
      map (\<lambda>sa. (aff_id (load_affiliate R (Some sa)), load_affiliate R (Some sa))) ?as"
    using fold_update_fresh [of "\<lambda>sa. aff_id (load_affiliate R (Some sa))" ?as "[]"] ids ks by simp
  also have "\<dots> = map (\<lambda>k. (k, ?a k)) ?ks" using a load_snap_affiliate by auto
  finally show ?thesis by (simp add: load_cluster_def Let_def snap_cluster_def snap_getters)
qed

lemma load_cluster_frame:
  "cl_id (load_cluster R now (Some (snap_cluster R ao i c))) = i"
  "subscribers (load_cluster R now sc) = []" "subs (load_cluster R now sc) = []" "nextSubID (load_cluster R now sc) = 0"
  by (simp_all add: load_cluster_def Let_def snap_cluster_def snap_getters NewCluster_def)

lemma load_cluster_inv:
  assumes "affs_inv (affiliates c)" and "range_order ao" and "\<forall>(k, a) \<in> set (affiliates c). times_ok a"
  shows "cluster_inv (load_cluster R now (Some (snap_cluster R ao i c)))"
    and "map_of (affiliates (load_cluster R now (Some (snap_cluster R ao i c)))) = map_of (affiliates c)"
proof -
  let ?m = "affiliates c" and ?ks = "ao (keys (affiliates c))"
  let ?l = "affiliates (load_cluster R now (Some (snap_cluster R ao i c)))"
  note L = load_snap_cluster [OF assms, of now i]
  show map: "map_of ?l = map_of ?m"
    using assms(2) gm.ks_dom [of ?m] by (auto simp: L map_of_map_restrict restrict_map_def fun_eq_iff domIff)
  have keys: "keys ?l = ?ks" by (simp add: L comp_def)
  have "affs_inv ?l"
    unfolding affs_inv_def
  proof (intro conjI)
    show "distinct (keys ?l)" using keys affs_invD(1) [OF assms(1)] assms(2) by simp
    show "length ?l \<le> AffiliatesMax" using affs_invD(3) [OF assms(1)] assms(2) by (simp add: L)
    show "\<forall>(k, a) \<in> set ?l. aff_id a = k \<and> aff_inv a"
    proof clarify
      fix k a assume "(k, a) \<in> set ?l"
      then have "map_of ?m k = Some a"
        using map keys affs_invD(1) [OF assms(1)] assms(2) by (metis map_of_in_set range_order_distinct)
      with affs_invD(2) [OF assms(1)] show "aff_id a = k \<and> aff_inv a" by blast
    qed
  qed
  then show "cluster_inv (load_cluster R now (Some (snap_cluster R ao i c)))"
    by (simp add: cluster_inv_def subs_inv_def load_cluster_frame)
qed

end

text \<open>Loading puts the clusters into the heap in order and each name on its cluster.\<close>

context xsync_map
begin

lemma load_clusters_heap:
  "heap (load_clusters X R now scs s) = heap s @ map (\<lambda>sc. load_cluster R now (Some sc)) scs"
  unfolding load_clusters_def by (induction scs arbitrary: s) simp_all

lemma load_clusters_lookup:
  "distinct (map f_snap_Cluster_Id scs) \<Longrightarrow>
     (\<forall>k. k \<notin> set (map f_snap_Cluster_Id scs) \<longrightarrow>
        x_Load X (clusters (load_clusters X R now scs s)) k = x_Load X (clusters s) k) \<and>
     (\<forall>j < length scs. x_Load X (clusters (load_clusters X R now scs s)) (f_snap_Cluster_Id (scs ! j)) =
        Some (length (heap s) + j))"
proof (induction scs arbitrary: s)
  case Nil
  then show ?case by (simp add: load_clusters_def)
next
  case (Cons sc scs)
  let ?s = "s\<lparr>clusters := x_Store X (clusters s) (f_snap_Cluster_Id sc) (length (heap s)),
      heap := heap s @ [load_cluster R now (Some sc)]\<rparr>"
  have ld: "load_clusters X R now (sc # scs) s = load_clusters X R now scs ?s"
    by (simp add: load_clusters_def snap_getters)
  have IH: "\<forall>k. k \<notin> set (map f_snap_Cluster_Id scs) \<longrightarrow>
      x_Load X (clusters (load_clusters X R now scs ?s)) k = x_Load X (clusters ?s) k"
    "\<forall>j < length scs. x_Load X (clusters (load_clusters X R now scs ?s)) (f_snap_Cluster_Id (scs ! j)) =
      Some (length (heap ?s) + j)"
    using Cons.IH [of ?s] Cons.prems by auto
  show ?case
    unfolding ld
  proof (intro conjI allI impI)
    fix k assume "k \<notin> set (map f_snap_Cluster_Id (sc # scs))"
    with IH(1) show "x_Load X (clusters (load_clusters X R now scs ?s)) k = x_Load X (clusters s) k"
      by (simp add: Load_Store)
  next
    fix j assume "j < length (sc # scs)"
    then show "x_Load X (clusters (load_clusters X R now scs ?s)) (f_snap_Cluster_Id ((sc # scs) ! j)) =
        Some (length (heap s) + j)"
      using IH Cons.prems by (cases j) (auto simp: Load_Store)
  qed
qed

end

text \<open>Loading a snapshot that was taken from a state.\<close>

definition all_times_ok :: "'m xsync \<Rightarrow> 'm State \<Rightarrow> bool" where
  "all_times_ok X s \<longleftrightarrow>
     (\<forall>i p. GetCluster X i s = Some p \<longrightarrow> (\<forall>(k, a) \<in> set (affiliates (heap s ! p)). times_ok a))"

locale snapshot_setup = xsync_map X + protobuf_runtime R
  for X :: "'m xsync" and R :: "'ts pbrt" +
  fixes ao :: "string list \<Rightarrow> string list"
  assumes ao_order: "range_order ao"
begin

definition reloaded :: "time \<Rightarrow> 'm State \<Rightarrow> 'm State" where
  "reloaded now s = load_clusters X R now (f_snap_Snapshot_Clusters (take_snapshot X R ao s)) (empty_state X)"

abbreviation entries :: "'m State \<Rightarrow> (string \<times> nat) list" where
  "entries s \<equiv> x_Range X (clusters s)"

lemma taken_clusters:
  "f_snap_Snapshot_Clusters (take_snapshot X R ao s) =
     map (\<lambda>e. snap_cluster R ao (fst e) (heap s ! snd e)) (entries s)"
  by (simp add: take_snapshot_def case_prod_unfold)

lemma reloaded_heap:
  "heap (reloaded now s) = map (\<lambda>e. load_cluster R now (Some (snap_cluster R ao (fst e) (heap s ! snd e)))) (entries s)"
  by (simp add: reloaded_def load_clusters_heap empty_state_def taken_clusters comp_def)

lemma reloaded_lookup:
  shows "k \<notin> set (keys (entries s)) \<Longrightarrow> GetCluster X k (reloaded now s) = None"
    and "j < length (entries s) \<Longrightarrow> GetCluster X (fst (entries s ! j)) (reloaded now s) = Some j"
proof -
  let ?scs = "f_snap_Snapshot_Clusters (take_snapshot X R ao s)"
  have ids: "map f_snap_Cluster_Id ?scs = keys (entries s)" by (simp add: taken_clusters snap_cluster_def comp_def)
  note L = load_clusters_lookup [of ?scs R now "empty_state X", unfolded ids, OF Range_keys, folded reloaded_def]
  show "k \<notin> set (keys (entries s)) \<Longrightarrow> GetCluster X k (reloaded now s) = None"
    using L by (simp add: GetCluster_def empty_state_def Load_NewMap)
  show "j < length (entries s) \<Longrightarrow> GetCluster X (fst (entries s ! j)) (reloaded now s) = Some j"
    using L by (auto simp: GetCluster_def empty_state_def taken_clusters snap_cluster_def)
qed

lemma entries_lookup: "(i, p) \<in> set (entries s) \<longleftrightarrow> GetCluster X i s = Some p"
  by (simp add: map_of_in_set [OF Range_keys] Range_Load GetCluster_def)

lemma reloaded_cluster:
  assumes "state_inv X s" and "all_times_ok X s" and "j < length (entries s)"
  shows "cluster_inv (heap (reloaded now s) ! j)" and "cl_id (heap (reloaded now s) ! j) = fst (entries s ! j)"
    and "subscribers (heap (reloaded now s) ! j) = []"
    and "map_of (affiliates (heap (reloaded now s) ! j)) = map_of (affiliates (heap s ! snd (entries s ! j)))"
proof -
  let ?p = "snd (entries s ! j)"
  have "(fst (entries s ! j), ?p) \<in> set (entries s)" using assms(3) by simp
  then have g: "GetCluster X (fst (entries s ! j)) s = Some ?p" by (simp only: entries_lookup)
  then have "affs_inv (affiliates (heap s ! ?p))" "\<forall>(k, a) \<in> set (affiliates (heap s ! ?p)). times_ok a"
    using state_invD [OF assms(1)] assms(2) by (auto simp: GetCluster_def cluster_inv_def all_times_ok_def)
  from load_cluster_inv [OF this(1) ao_order this(2)] assms(3) load_cluster_frame
  show "cluster_inv (heap (reloaded now s) ! j)" "cl_id (heap (reloaded now s) ! j) = fst (entries s ! j)"
    "subscribers (heap (reloaded now s) ! j) = []"
    "map_of (affiliates (heap (reloaded now s) ! j)) = map_of (affiliates (heap s ! ?p))"
    by (simp_all add: reloaded_heap)
qed

lemma reloaded_inv:
  assumes "state_inv X s" and "all_times_ok X s"
  shows "state_inv X (reloaded now s)"
  unfolding state_inv_def
proof (intro conjI allI impI ballI)
  fix k p assume k: "x_Load X (clusters (reloaded now s)) k = Some p"
  then have "k \<in> set (keys (entries s))" using reloaded_lookup(1) by (fastforce simp: GetCluster_def)
  then obtain j where j: "j < length (entries s)" "k = fst (entries s ! j)" by (auto simp: in_set_conv_nth)
  with reloaded_lookup(2) [OF j(1)] k have "p = j" by (simp add: GetCluster_def)
  with j reloaded_cluster(2) [OF assms j(1)]
  show "p < length (heap (reloaded now s))" "cl_id (heap (reloaded now s) ! p) = k" by (simp_all add: reloaded_heap)
next
  fix c assume "c \<in> set (heap (reloaded now s))"
  then obtain j where j: "j < length (heap (reloaded now s))" "c = heap (reloaded now s) ! j"
    by (auto simp: in_set_conv_nth)
  then have "j < length (entries s)" by (simp add: reloaded_heap)
  with reloaded_cluster(1) [OF assms] j(2) show "cluster_inv c" by simp
qed

lemma reloaded_same:
  assumes "state_inv X s" and "all_times_ok X s"
  shows "case GetCluster X i s of None \<Rightarrow> GetCluster X i (reloaded now s) = None
      | Some p \<Rightarrow> \<exists>q. GetCluster X i (reloaded now s) = Some q \<and> subscribers (heap (reloaded now s) ! q) = [] \<and>
          map_of (affiliates (heap (reloaded now s) ! q)) = map_of (affiliates (heap s ! p))"
proof (cases "GetCluster X i s")
  case None
  then have "i \<notin> set (keys (entries s))" using entries_lookup [of i] by auto
  with None reloaded_lookup(1) show ?thesis by simp
next
  case (Some p)
  then have "(i, p) \<in> set (entries s)" by (simp only: entries_lookup)
  then obtain j where j: "j < length (entries s)" "entries s ! j = (i, p)" by (auto simp: in_set_conv_nth)
  with Some reloaded_lookup(2) [OF j(1)] reloaded_cluster(3,4) [OF assms j(1)] show ?thesis by auto
qed

lemma saved_then_loaded:
  assumes "SaveSnapshot X R ao os path s fs = (tr, None)" and "path \<noteq> ''''" and "io_create os \<noteq> Some path"
  shows "NewState X R now True [WithSnapshot path] (last tr) = Inr (reloaded now s)"
proof -
  obtain bs where bs: "pb_Marshal R (take_snapshot X R ao s) = Some bs" "atomicWriteFile os path bs defaultPerm fs = (tr, None)"
    using assms(1) by (auto simp: SaveSnapshot_def split: option.splits)
  with atomicWriteFile_last [OF bs(2)] assms(2,3) Unmarshal_Marshal [OF bs(1)] show ?thesis
    by (simp add: NewState_def WithSnapshot_def LoadSnapshot_def reloaded_def snap_getters)
qed

end

section \<open>An instance of the runtime\<close>

text \<open>
  A state with one affiliate, and a runtime whose timestamps are instants and whose encoding knows
  the snapshot of that state, for the witness.
\<close>

definition stored_affiliate :: Affiliate where
  "stored_affiliate = \<lparr>aff_id = ''n'', aff_expiry = 60, aff_data = [7],
     aff_endpoints = [\<lparr>ep_expiry = 50, ep_data = [1]\<rparr>]\<rparr>"

definition stored_state :: "(string \<times> nat) list State" where
  "stored_state = \<lparr>clusters = [(''c'', 0)], heap = [(NewCluster 0 ''c'')\<lparr>affiliates := [(''n'', stored_affiliate)]\<rparr>]\<rparr>"

definition demo_snapshot :: "time snap_Snapshot" where
  "demo_snapshot = \<lparr>f_snap_Snapshot_Clusters = [\<lparr>f_snap_Cluster_Id = ''c'', f_snap_Cluster_Affiliates =
     [\<lparr>f_snap_Affiliate_Id = ''n'', f_snap_Affiliate_Data = [7], f_snap_Affiliate_Expiry = Some 60,
       f_snap_Affiliate_Endpoints = [\<lparr>f_snap_Endpoint_Data = [1], f_snap_Endpoint_Expiry = Some 50\<rparr>]\<rparr>]\<rparr>]\<rparr>"

definition demo_runtime :: "time pbrt" where
  "demo_runtime = \<lparr>ts_New = (\<lambda>t. t), ts_AsTime = (\<lambda>t. t),
     pb_Marshal = (\<lambda>m. if m = demo_snapshot then Some [1] else None),
     pb_Unmarshal = (\<lambda>b. if b = [1] then Some demo_snapshot else None)\<rparr>"

interpretation demo_rt: protobuf_runtime demo_runtime
  by unfold_locales (auto simp: demo_runtime_def split: if_splits)

interpretation demo_snap: snapshot_setup alist_xsync demo_runtime rev
  by unfold_locales simp

lemma stored_state_inv: "state_inv alist_xsync stored_state" "all_times_ok alist_xsync stored_state"
  using cluster_inv_New [of 0 "''c''"]
  by (auto simp: state_inv_def stored_state_def alist_xsync_def cluster_inv_def affs_inv_def stored_affiliate_def
      aff_inv_def AffiliatesMax_def AffiliateEndpointsMax_def all_times_ok_def GetCluster_def times_ok_def ts_range_def
      split: if_splits)

lemma stored_snapshot: "take_snapshot alist_xsync demo_runtime rev stored_state = demo_snapshot"
  by (simp add: take_snapshot_def stored_state_def alist_xsync_def snap_cluster_def snap_affiliate_def snap_endpoint_def
      stored_affiliate_def demo_snapshot_def demo_runtime_def)

section \<open>Saving and loading\<close>

text \<open>
  C28: saving and loading. When a snapshot has been saved successfully, a server that starts from
  that file has the same clusters, each with the same affiliates: the same names, data, endpoints
  and expiries, to the nanosecond. Subscriptions are not restored. The new state satisfies the
  invariant of a running one.
\<close>

theorem snapshot_round_trip:
  assumes "xsync_map X" and "protobuf_runtime R" and "state_inv X s" and "range_order ao" and "all_times_ok X s"
    and "SaveSnapshot X R ao os path s fs = (tr, None)" and "path \<noteq> ''''" and "io_create os \<noteq> Some path"
  shows "\<exists>s'. NewState X R now True [WithSnapshot path] (last tr) = Inr s' \<and> state_inv X s' \<and>
    (\<forall>i. case GetCluster X i s of
           None \<Rightarrow> GetCluster X i s' = None
         | Some p \<Rightarrow> \<exists>q. GetCluster X i s' = Some q \<and> subscribers (heap s' ! q) = [] \<and>
             map_of (affiliates (heap s' ! q)) = map_of (affiliates (heap s ! p)))"
proof -
  have ss: "snapshot_setup X R ao"
    using assms(1,2,4) by (simp add: snapshot_setup_def snapshot_setup_axioms_def)
  show ?thesis
    using snapshot_setup.saved_then_loaded [OF ss assms(6-8)]
      snapshot_setup.reloaded_inv [OF ss assms(3,5)] snapshot_setup.reloaded_same [OF ss assms(3,5)]
    by blast
qed

theorem snapshot_round_trip_witness:
  "\<exists>tr s' q. SaveSnapshot alist_xsync demo_runtime rev \<lparr>io_create = Some ''.tmp-1'', io_chmod = True, io_write = None,
       io_sync = True, io_close = True, io_rename = True, io_remove = True\<rparr> ''state'' stored_state Map.empty = (tr, None) \<and>
     NewState alist_xsync demo_runtime 7 True [WithSnapshot ''state''] (last tr) = Inr s' \<and>
     GetCluster alist_xsync ''c'' s' = Some q \<and> map_of (affiliates (heap s' ! q)) ''n'' = Some stored_affiliate"
proof -
  let ?os = "\<lparr>io_create = Some ''.tmp-1'', io_chmod = True, io_write = None,
       io_sync = True, io_close = True, io_rename = True, io_remove = True\<rparr>"
  have "pb_Marshal demo_runtime demo_snapshot = Some [1]" by (simp add: demo_runtime_def)
  then obtain tr where tr: "SaveSnapshot alist_xsync demo_runtime rev ?os ''state'' stored_state Map.empty = (tr, None)"
    by (simp add: SaveSnapshot_def stored_snapshot atomicWriteFile_def Let_def)
  have get: "GetCluster alist_xsync ''c'' stored_state = Some 0"
    "map_of (affiliates (heap stored_state ! 0)) ''n'' = Some stored_affiliate"
    by (simp_all add: stored_state_def GetCluster_def alist_xsync_def)
  from snapshot_round_trip [OF axs.xsync_map_axioms demo_rt.protobuf_runtime_axioms stored_state_inv(1) range_order_rev
      stored_state_inv(2) tr, of 7]
  obtain s' where s': "NewState alist_xsync demo_runtime 7 True [WithSnapshot ''state''] (last tr) = Inr s'"
    "\<forall>i. case GetCluster alist_xsync i stored_state of None \<Rightarrow> GetCluster alist_xsync i s' = None
       | Some p \<Rightarrow> \<exists>q. GetCluster alist_xsync i s' = Some q \<and> subscribers (heap s' ! q) = [] \<and>
           map_of (affiliates (heap s' ! q)) = map_of (affiliates (heap stored_state ! p))"
    by auto
  from spec [OF s'(2), of "''c''"] obtain q where "GetCluster alist_xsync ''c'' s' = Some q"
    "map_of (affiliates (heap s' ! q)) = map_of (affiliates (heap stored_state ! 0))"
    by (auto simp: get)
  with tr s'(1) get(2) show ?thesis by auto
qed

end
