(* ===== verification/Hub.thy ===== *)
theory Hub
  imports Prelude
begin

text \<open>
  The fan-out of the web front end (\<^verbatim>\<open>internal/web/discovery_hub.go\<close>) and its metrics
  (\<^verbatim>\<open>internal/web/discovery_metrics.go\<close>).

  The gauges and counters belong to the Prometheus client package, which is not part of the
  repository: the model keeps the log of the calls that the code makes on them, and reads a
  collector as its increments less its decrements. Channels are indices into a store of channels.
\<close>

section \<open>Metrics\<close>

datatype collector =
    activeDiscoveryWatchers | activeSubscribers | broadcastDroppedEvents
  | watchEvents | watchStreamErrors | watchReconnects

datatype metric_call = Inc collector | Dec collector

definition reading :: "collector \<Rightarrow> metric_call list \<Rightarrow> int" where
  "reading c calls = int (count_list calls (Inc c)) - int (count_list calls (Dec c))"

lemma reading_simps [simp]:
  "reading c [] = 0" "reading c (xs @ ys) = reading c xs + reading c ys"
  "reading c (Inc d # xs) = (if c = d then 1 else 0) + reading c xs"
  "reading c (Dec d # xs) = reading c xs - (if c = d then 1 else 0)"
  "reading c (replicate n (Inc d)) = (if c = d then int n else 0)"
proof -
  show "reading c (replicate n (Inc d)) = (if c = d then int n else 0)"
    by (induction n) (auto simp: reading_def)
qed (auto simp: reading_def)

text \<open>
  Registration stops at the first collector that the registerer refuses. The registerer is a
  parameter: its state and its \<^verbatim>\<open>Register\<close>. A collector is registered under its name.
\<close>

fun collector_name :: "collector \<Rightarrow> string" where
  "collector_name activeDiscoveryWatchers = ''discovery_web_active_discovery_watchers''"
| "collector_name activeSubscribers = ''discovery_web_active_subscribers''"
| "collector_name broadcastDroppedEvents = ''discovery_web_broadcast_dropped_events_total''"
| "collector_name watchEvents = ''discovery_web_watch_events_total''"
| "collector_name watchStreamErrors = ''discovery_web_watch_stream_errors_total''"
| "collector_name watchReconnects = ''discovery_web_watch_reconnects_total''"

definition collectors :: "collector list" where
  "collectors = [activeDiscoveryWatchers, activeSubscribers, broadcastDroppedEvents,
     watchEvents, watchStreamErrors, watchReconnects]"

fun register_all :: "('r \<Rightarrow> string \<Rightarrow> 'e option \<times> 'r) \<Rightarrow> collector list \<Rightarrow> 'r \<Rightarrow> 'e option \<times> 'r" where
  "register_all Register [] r = (None, r)"
| "register_all Register (c # cs) r =
     (case Register r (collector_name c) of
        (Some err, r') \<Rightarrow> (Some err, r')
      | (None, r') \<Rightarrow> register_all Register cs r')"

definition newWatchManagerMetrics ::
  "('r \<Rightarrow> string \<Rightarrow> 'e option \<times> 'r) \<Rightarrow> 'r \<Rightarrow> ('e + metric_call list) \<times> 'r" where
  "newWatchManagerMetrics Register r =
     (case register_all Register collectors r of
        (Some err, r') \<Rightarrow> (Inl err, r')
      | (None, r') \<Rightarrow> (Inr [], r'))"

section \<open>The hub\<close>

definition subscriberChannelSize :: nat where
  "subscriberChannelSize = 64"

record Event =
  evt_Data :: string

type_synonym chan_store = "Event chan list"

record Hub =
  clients :: "(nat \<times> unit) list"

definition NewHub :: Hub where
  "NewHub = \<lparr>clients = []\<rparr>"

definition Hub_Subscribe :: "chan_store \<Rightarrow> Hub \<Rightarrow> nat \<times> chan_store \<times> Hub" where
  "Hub_Subscribe st h =
     (let ch = length st
      in (ch, st @ [make_chan subscriberChannelSize], h\<lparr>clients := AList.update ch () (clients h)\<rparr>))"

definition Hub_Unsubscribe :: "nat \<Rightarrow> Hub \<Rightarrow> Hub" where
  "Hub_Unsubscribe ch h = h\<lparr>clients := AList.delete ch (clients h)\<rparr>"

text \<open>
  The clients are copied in the order of the map's iteration, then each is sent the event unless
  its channel is full.
\<close>

fun broadcast_loop ::
  "nat list \<Rightarrow> Event \<Rightarrow> chan_store \<times> metric_call list \<Rightarrow> (chan_store \<times> metric_call list) option" where
  "broadcast_loop [] e s = Some s"
| "broadcast_loop (ch # subs) e (st, calls) =
     (case try_send (st ! ch) e of
        None \<Rightarrow> None
      | Some (c, True) \<Rightarrow> broadcast_loop subs e (st[ch := c], calls)
      | Some (c, False) \<Rightarrow> broadcast_loop subs e (st, calls @ [Inc broadcastDroppedEvents]))"

definition Broadcast ::
  "(nat list \<Rightarrow> nat list) \<Rightarrow> Event \<Rightarrow> Hub \<Rightarrow> chan_store \<times> metric_call list \<Rightarrow>
   (chan_store \<times> metric_call list) option" where
  "Broadcast ord e h s = broadcast_loop (ord (keys (clients h))) e s"

definition has_room :: "chan_store \<Rightarrow> nat \<Rightarrow> bool" where
  "has_room st ch \<longleftrightarrow> length (ch_buf (st ! ch)) < ch_cap (st ! ch)"

definition deliver :: "Event \<Rightarrow> nat set \<Rightarrow> chan_store \<Rightarrow> chan_store" where
  "deliver e S st =
     map (\<lambda>ch. if ch \<in> S \<and> has_room st ch then (st ! ch)\<lparr>ch_buf := ch_buf (st ! ch) @ [e]\<rparr> else st ! ch)
       [0..<length st]"

lemma length_deliver [simp]: "length (deliver e S st) = length st"
  by (simp add: deliver_def)

lemma nth_deliver [simp]:
  "ch < length st \<Longrightarrow> deliver e S st ! ch =
     (if ch \<in> S \<and> has_room st ch then (st ! ch)\<lparr>ch_buf := ch_buf (st ! ch) @ [e]\<rparr> else st ! ch)"
  by (simp add: deliver_def)

lemma try_send_open: "\<not> ch_closed c \<Longrightarrow>
  try_send c e = (if length (ch_buf c) < ch_cap c then Some (c\<lparr>ch_buf := ch_buf c @ [e]\<rparr>, True) else Some (c, False))"
  by (simp add: try_send_def)

lemma broadcast_loop_deliver:
  assumes "distinct subs" and "\<forall>ch \<in> set subs. ch < length st" and "\<forall>c \<in> set st. \<not> ch_closed c"
  shows "broadcast_loop subs e (st, calls) =
    Some (deliver e (set subs) st,
          calls @ replicate (length (filter (\<lambda>ch. \<not> has_room st ch) subs)) (Inc broadcastDroppedEvents))"
  using assms
proof (induction subs arbitrary: st calls)
  case Nil
  have "deliver e {} st = st" by (simp add: list_eq_iff_nth_eq)
  then show ?case by simp
next
  case (Cons ch subs)
  let ?st = "if has_room st ch then st[ch := (st ! ch)\<lparr>ch_buf := ch_buf (st ! ch) @ [e]\<rparr>] else st"
  let ?calls = "if has_room st ch then calls else calls @ [Inc broadcastDroppedEvents]"
  have "\<not> ch_closed (st ! ch)" using Cons.prems by simp
  then have step: "broadcast_loop (ch # subs) e (st, calls) = broadcast_loop subs e (?st, ?calls)"
    by (simp add: try_send_open has_room_def)
  have closed: "\<forall>c \<in> set ?st. \<not> ch_closed c"
    using Cons.prems by (auto dest!: set_update_subset_insert [THEN subsetD])
  have rooms: "\<forall>x \<in> set subs. has_room ?st x = has_room st x"
    using Cons.prems by (auto simp: has_room_def nth_list_update)
  have "deliver e (set subs) ?st = deliver e (set (ch # subs)) st"
    using Cons.prems rooms by (auto simp: list_eq_iff_nth_eq has_room_def nth_list_update)
  moreover have "filter (\<lambda>x. \<not> has_room ?st x) subs = filter (\<lambda>x. \<not> has_room st x) subs"
    using rooms by (intro filter_cong) auto
  ultimately show ?case
    unfolding step using Cons.IH [of ?st ?calls] Cons.prems(1,2) closed
    by (simp add: replicate_app_Cons_same)
qed

text \<open>
  A broadcast reaches every subscriber that keeps up and blocks on none. On open channels it
  always completes; each subscribed channel with room receives the event behind what it already
  holds, every other channel is untouched, the dropped events are counted one by one, and the
  order in which the map of clients is iterated makes no difference.
\<close>

theorem Broadcast_delivers:
  assumes "range_order ord" and "distinct (keys (clients h))"
    and "\<forall>ch \<in> set (keys (clients h)). ch < length st" and "\<forall>c \<in> set st. \<not> ch_closed c"
  shows "\<exists>st' drops. Broadcast ord e h (st, calls) = Some (st', calls @ replicate drops (Inc broadcastDroppedEvents)) \<and>
    drops = card {ch \<in> set (keys (clients h)). ch_cap (st ! ch) \<le> length (ch_buf (st ! ch))} \<and>
    length st' = length st \<and>
    (\<forall>ch < length st. ch_buf (st' ! ch) =
       (if map_of (clients h) ch = Some () \<and> length (ch_buf (st ! ch)) < ch_cap (st ! ch)
        then ch_buf (st ! ch) @ [e] else ch_buf (st ! ch)))"
proof -
  let ?ks = "keys (clients h)"
  have "distinct (ord ?ks)" "\<forall>ch \<in> set (ord ?ks). ch < length st" using assms by simp_all
  from broadcast_loop_deliver [OF this assms(4)]
  have "Broadcast ord e h (st, calls) = Some (deliver e (set ?ks) st,
      calls @ replicate (length (filter (\<lambda>ch. \<not> has_room st ch) (ord ?ks))) (Inc broadcastDroppedEvents))"
    using assms(1) by (simp add: Broadcast_def)
  moreover have "length (filter (\<lambda>ch. \<not> has_room st ch) (ord ?ks)) =
      card (set (filter (\<lambda>ch. \<not> has_room st ch) (ord ?ks)))"
    using \<open>distinct (ord ?ks)\<close> by (metis distinct_card distinct_filter)
  moreover have "set (filter (\<lambda>ch. \<not> has_room st ch) (ord ?ks)) =
      {ch \<in> set ?ks. ch_cap (st ! ch) \<le> length (ch_buf (st ! ch))}"
    using assms(1) by (auto simp: has_room_def)
  moreover have "ch \<in> set ?ks \<longleftrightarrow> map_of (clients h) ch = Some ()" for ch
    using gm.ks_dom [of "clients h"] by (auto simp: dom_def)
  ultimately show ?thesis
    by (intro exI [of _ "deliver e (set ?ks) st"] exI [of _ "length (filter (\<lambda>ch. \<not> has_room st ch) (ord ?ks))"])
      (auto simp: has_room_def)
qed

theorem Broadcast_delivers_witness:
  "\<exists>st' drops. Broadcast rev \<lparr>evt_Data = ''x''\<rparr> \<lparr>clients = [(0, ()), (1, ())]\<rparr>
      ([make_chan 1, make_chan 0, make_chan 1], []) = Some (st', [] @ replicate drops (Inc broadcastDroppedEvents)) \<and>
    drops = 1 \<and> map ch_buf st' = [[\<lparr>evt_Data = ''x''\<rparr>], [], []]"
proof -
  let ?st = "[make_chan 1, make_chan 0, make_chan 1] :: Event chan list"
  let ?h = "\<lparr>clients = [(0, ()), (1, ())]\<rparr> :: Hub"
  have full: "{ch \<in> set (keys (clients ?h)). ch_cap (?st ! ch) \<le> length (ch_buf (?st ! ch))} = {1}"
    by auto
  have "\<exists>st' drops. Broadcast rev \<lparr>evt_Data = ''x''\<rparr> ?h (?st, []) = Some (st', [] @ replicate drops (Inc broadcastDroppedEvents)) \<and>
    drops = card {ch \<in> set (keys (clients ?h)). ch_cap (?st ! ch) \<le> length (ch_buf (?st ! ch))} \<and>
    length st' = length ?st \<and>
    (\<forall>ch < length ?st. ch_buf (st' ! ch) =
       (if map_of (clients ?h) ch = Some () \<and> length (ch_buf (?st ! ch)) < ch_cap (?st ! ch)
        then ch_buf (?st ! ch) @ [\<lparr>evt_Data = ''x''\<rparr>] else ch_buf (?st ! ch)))"
    by (rule Broadcast_delivers) auto
  then obtain st' drops where r: "Broadcast rev \<lparr>evt_Data = ''x''\<rparr> ?h (?st, []) = Some (st', [] @ replicate drops (Inc broadcastDroppedEvents))"
    "drops = 1" "length st' = 3" and b: "\<forall>ch < length ?st. ch_buf (st' ! ch) =
       (if map_of (clients ?h) ch = Some () \<and> length (ch_buf (?st ! ch)) < ch_cap (?st ! ch)
        then ch_buf (?st ! ch) @ [\<lparr>evt_Data = ''x''\<rparr>] else ch_buf (?st ! ch))"
    unfolding full by (elim exE conjE) (rule that, simp_all)
  have "map ch_buf st' = map (\<lambda>i. ch_buf (st' ! i)) [0, 1, 2]"
    using r(3) by (simp add: list_eq_iff_nth_eq less_Suc_eq numeral_3_eq_3 numeral_2_eq_2)
  then have "map ch_buf st' = [[\<lparr>evt_Data = ''x''\<rparr>], [], []]" using b by simp
  with r(1,2) show ?thesis by (intro exI [of _ st'] exI [of _ drops] conjI)
qed

end
