(* ===== verification/Text_Encoding.thy ===== *)
theory Text_Encoding
  imports Prelude
begin

text \<open>
  The text encodings of Go's standard library that the web front end writes with: UTF-8 decoding
  (\<^verbatim>\<open>unicode/utf8\<close>), standard base64 (\<^verbatim>\<open>encoding/base64\<close>) and the string literals and arrays of
  \<^verbatim>\<open>encoding/json\<close>. Each comes with a reference reader and the lemma that reading gives back what
  was written. A Go string is its bytes.
\<close>

section \<open>UTF-8\<close>

abbreviation code :: "char \<Rightarrow> nat" where
  "code c \<equiv> of_char c"

definition in_range :: "nat \<Rightarrow> nat \<Rightarrow> char \<Rightarrow> bool" where
  "in_range lo hi c \<longleftrightarrow> lo \<le> code c \<and> code c \<le> hi"

text \<open>The length of the well-formed encoding a text starts with, and 0 when there is none.\<close>

definition cont :: "char \<Rightarrow> bool" where
  "cont c \<longleftrightarrow> in_range 0x80 0xBF c"

definition second_ok :: "char \<Rightarrow> char \<Rightarrow> bool" where
  "second_ok b c \<longleftrightarrow>
     (if code b = 0xE0 then in_range 0xA0 0xBF c
      else if code b = 0xED then in_range 0x80 0x9F c
      else if code b = 0xF0 then in_range 0x90 0xBF c
      else if code b = 0xF4 then in_range 0x80 0x8F c
      else cont c)"

fun rune_len :: "string \<Rightarrow> nat" where
  "rune_len [] = 0"
| "rune_len (b # s) =
     (if code b < 0x80 then 1
      else if in_range 0xC2 0xDF b then (case s of c # _ \<Rightarrow> if cont c then 2 else 0 | _ \<Rightarrow> 0)
      else if in_range 0xE0 0xEF b then
        (case s of c # d # _ \<Rightarrow> if second_ok b c \<and> cont d then 3 else 0 | _ \<Rightarrow> 0)
      else if in_range 0xF0 0xF4 b then
        (case s of c # d # e # _ \<Rightarrow> if second_ok b c \<and> cont d \<and> cont e then 4 else 0 | _ \<Rightarrow> 0)
      else 0)"

datatype rune = Rune string | Bad char

function runes :: "string \<Rightarrow> rune list" where
  "runes s =
     (case s of
        [] \<Rightarrow> []
      | b # t \<Rightarrow>
          if rune_len s = 0 then Bad b # runes t
          else Rune (take (rune_len s) s) # runes (drop (rune_len s) s))"
  by pat_completeness auto
termination
  by (relation "measure length") auto

declare runes.simps [simp del]
declare rune_len.simps(2) [simp del]

definition valid_utf8 :: "string \<Rightarrow> bool" where
  "valid_utf8 s \<longleftrightarrow> (\<forall>r \<in> set (runes s). case r of Rune _ \<Rightarrow> True | Bad _ \<Rightarrow> False)"

definition replacement :: string where
  "replacement = [CHR 0xEF, CHR 0xBF, CHR 0xBD]"

text \<open>A text with each undecodable byte replaced by the rune U+FFFD.\<close>

definition decoded :: "string \<Rightarrow> string" where
  "decoded s = concat (map (\<lambda>r. case r of Rune u \<Rightarrow> u | Bad _ \<Rightarrow> replacement) (runes s))"

lemma runes_Nil [simp]: "runes [] = []"
  by (simp add: runes.simps)

lemma runes_bad: "rune_len (b # t) = 0 \<Longrightarrow> runes (b # t) = Bad b # runes t"
  by (subst runes.simps) simp

lemma runes_good:
  "rune_len s \<noteq> 0 \<Longrightarrow> runes s = Rune (take (rune_len s) s) # runes (drop (rune_len s) s)"
  by (subst runes.simps) (cases s, auto)

lemma rune_induct [case_names Nil Bad Good]:
  assumes "P []"
    and "\<And>b t. rune_len (b # t) = 0 \<Longrightarrow> P t \<Longrightarrow> P (b # t)"
    and "\<And>s. rune_len s \<noteq> 0 \<Longrightarrow> P (drop (rune_len s) s) \<Longrightarrow> P s"
  shows "P s"
proof (induction s rule: runes.induct)
  case (1 s)
  show ?case
  proof (cases s)
    case Nil
    with assms(1) show ?thesis by simp
  next
    case (Cons b t)
    show ?thesis
    proof (cases "rune_len s = 0")
      case True
      with Cons "1.IH"(1) [OF Cons] assms(2) [of b t] show ?thesis by simp
    next
      case False
      then show ?thesis using "1.IH"(2) [OF Cons] assms(3) [of s] by blast
    qed
  qed
qed

lemma decoded_valid: "valid_utf8 s \<Longrightarrow> decoded s = s"
proof (induction s rule: rune_induct)
  case Nil
  show ?case by (simp add: decoded_def)
next
  case (Bad b t)
  then show ?case by (simp add: valid_utf8_def runes_bad)
next
  case (Good s)
  then show ?case by (simp add: valid_utf8_def decoded_def runes_good)
qed

lemma high_bytes:
  "cont c \<Longrightarrow> 0x80 \<le> code c" "second_ok b c \<Longrightarrow> 0x80 \<le> code c"
  by (auto simp: in_range_def cont_def second_ok_def split: if_splits)

lemma first_rune:
  assumes "rune_len s \<noteq> 0"
  defines "u \<equiv> take (rune_len s) s"
  shows "(\<exists>c. u = [c] \<and> code c < 0x80) \<or> (u \<noteq> [] \<and> (\<forall>c \<in> set u. 0x80 \<le> code c))"
proof -
  from assms(1) obtain b t where s: "s = b # t" by (cases s) auto
  show ?thesis
  proof (cases "code b < 0x80")
    case True
    then show ?thesis by (simp add: u_def s rune_len.simps)
  next
    case False
    then have "\<forall>c \<in> set u. 0x80 \<le> code c"
      using assms(1) unfolding u_def s rune_len.simps
      by (auto split: if_splits list.splits dest: high_bytes)
    with assms(1) show ?thesis by (simp add: u_def s)
  qed
qed

lemma rune_bytes:
  assumes "Rune u \<in> set (runes s)"
  shows "(\<exists>c. u = [c] \<and> code c < 0x80) \<or> (u \<noteq> [] \<and> (\<forall>c \<in> set u. 0x80 \<le> code c))"
  using assms
proof (induction s rule: rune_induct)
  case (Good s)
  then show ?case using first_rune [of s] by (auto simp: runes_good)
qed (simp_all add: runes_bad)

section \<open>Base64\<close>

text \<open>
  \<^verbatim>\<open>base64.StdEncoding.EncodeToString\<close>: three bytes as one number of 24 bits, written as four
  digits of 6 bits, the last group padded. The reference reader takes four characters at a time.
\<close>

definition b64_alphabet :: string where
  "b64_alphabet = ''ABCDEFGHIJKLMNOPQRSTUVWXYZabcdefghijklmnopqrstuvwxyz0123456789+/''"

definition b64_digit :: "nat \<Rightarrow> char" where
  "b64_digit n = b64_alphabet ! (n mod 64)"

fun EncodeToString :: "bytes \<Rightarrow> string" where
  "EncodeToString [] = ''''"
| "EncodeToString [a] =
     (let v = unat a * 65536 in [b64_digit (v div 262144), b64_digit (v div 4096), CHR ''='', CHR ''=''])"
| "EncodeToString [a, b] =
     (let v = unat a * 65536 + unat b * 256
      in [b64_digit (v div 262144), b64_digit (v div 4096), b64_digit (v div 64), CHR ''=''])"
| "EncodeToString (a # b # c # r) =
     (let v = unat a * 65536 + unat b * 256 + unat c
      in b64_digit (v div 262144) # b64_digit (v div 4096) # b64_digit (v div 64) # b64_digit v # EncodeToString r)"

fun index_of :: "'a \<Rightarrow> 'a list \<Rightarrow> nat option" where
  "index_of x [] = None"
| "index_of x (y # ys) = (if x = y then Some 0 else map_option Suc (index_of x ys))"

definition b64_value :: "char \<Rightarrow> nat option" where
  "b64_value c = index_of c b64_alphabet"

fun b64_read :: "string \<Rightarrow> bytes option" where
  "b64_read [] = Some []"
| "b64_read [p, q, r, s] =
     (case (b64_value p, b64_value q, b64_value r, b64_value s) of
        (Some i, Some j, Some k, Some l) \<Rightarrow>
          Some [of_nat (i * 4 + j div 16), of_nat (j * 16 + k div 4), of_nat (k * 64 + l)]
      | (Some i, Some j, Some k, None) \<Rightarrow>
          if s = CHR ''='' then Some [of_nat (i * 4 + j div 16), of_nat (j * 16 + k div 4)] else None
      | (Some i, Some j, None, None) \<Rightarrow>
          if r = CHR ''='' \<and> s = CHR ''='' then Some [of_nat (i * 4 + j div 16)] else None
      | _ \<Rightarrow> None)"
| "b64_read (p # q # r # s # t) =
     (case (b64_value p, b64_value q, b64_value r, b64_value s, b64_read t) of
        (Some i, Some j, Some k, Some l, Some rest) \<Rightarrow>
          Some (of_nat (i * 4 + j div 16) # of_nat (j * 16 + k div 4) # of_nat (k * 64 + l) # rest)
      | _ \<Rightarrow> None)"
| "b64_read _ = None"

lemma index_of_nth: "distinct xs \<Longrightarrow> n < length xs \<Longrightarrow> index_of (xs ! n) xs = Some n"
  by (induction xs arbitrary: n) (auto simp: nth_Cons split: nat.splits)

lemma b64_alphabet_facts: "distinct b64_alphabet" "length b64_alphabet = 64" "CHR ''='' \<notin> set b64_alphabet"
  by (simp_all add: b64_alphabet_def)

lemma b64_value_digit [simp]: "b64_value (b64_digit n) = Some (n mod 64)"
  by (simp add: b64_value_def b64_digit_def index_of_nth b64_alphabet_facts)

lemma index_of_None: "x \<notin> set xs \<Longrightarrow> index_of x xs = None"
  by (induction xs) auto

lemma b64_value_pad [simp]: "b64_value (CHR ''='') = None"
  by (simp add: b64_value_def index_of_None b64_alphabet_facts)


lemma byte_of_nat: "n mod 256 = unat (a :: byte) \<Longrightarrow> of_nat n = a"
  by (rule unsigned_word_eqI [where ?'a = nat]) (simp add: unat_of_nat)

lemma split_lt: "n < m * (k :: nat) \<Longrightarrow> \<exists>h l. n = h * k + l \<and> l < k \<and> h < m"
  by (rule exI [of _ "n div k"], rule exI [of _ "n mod k"])
    (simp add: less_mult_imp_div_less, metis mod_less_divisor mult_0_right not_gr_zero not_less_zero)

lemma digit64:
  fixes v :: nat
  assumes "v = l + 64 * q" and "l < 64"
  shows "v mod 64 = l" and "v div 64 = q"
  using assms by simp_all

lemma b64_groups:
  fixes x y z :: nat
  assumes "x < 256" and "y < 256" and "z < 256"
  defines "v \<equiv> x * 65536 + y * 256 + z"
  shows "(v div 262144 mod 64 * 4 + v div 4096 mod 64 div 16) mod 256 = x"
    and "(v div 4096 mod 64 * 16 + v div 64 mod 64 div 4) mod 256 = y"
    and "(v div 64 mod 64 * 64 + v mod 64) mod 256 = z"
proof -
  obtain i xl where x: "x = i * 4 + xl" "xl < 4" "i < 64"
    using split_lt [of x 64 4] assms(1) by auto
  obtain yh yl where y: "y = yh * 16 + yl" "yl < 16" "yh < 16"
    using split_lt [of y 16 16] assms(2) by auto
  obtain zh l where z: "z = zh * 64 + l" "l < 64" "zh < 4"
    using split_lt [of z 4 64] assms(3) by auto
  define j k where "j = xl * 16 + yh" and "k = yl * 4 + zh"
  have bounds: "i < 64" "j < 64" "k < 64" "l < 64"
    using x y z unfolding j_def k_def by simp_all
  have "v = l + 64 * (k + 64 * (j + 64 * i))"
    unfolding v_def x y z j_def k_def by simp
  note v0 = digit64 [OF this bounds(4)]
  note v1 = digit64 [OF v0(2) bounds(3)]
  note v2 = digit64 [OF v1(2) bounds(2)]
  have digits: "v div 262144 mod 64 = i" "v div 4096 mod 64 = j" "v div 64 mod 64 = k" "v mod 64 = l"
    using v0(1) v1(1) v2 bounds(1) div_mult2_eq [of v 64 64] div_mult2_eq [of v 4096 64] by simp_all
  show "(v div 262144 mod 64 * 4 + v div 4096 mod 64 div 16) mod 256 = x"
    unfolding digits j_def using x y by simp
  show "(v div 4096 mod 64 * 16 + v div 64 mod 64 div 4) mod 256 = y"
  proof -
    have "k div 4 = yl" "j * 16 + yl = xl * 256 + y" using y z by (simp_all add: j_def k_def)
    then show ?thesis using assms(2) by (simp add: digits)
  qed
  show "(v div 64 mod 64 * 64 + v mod 64) mod 256 = z"
  proof -
    have "k * 64 + l = yl * 256 + z" using z by (simp add: k_def)
    then show ?thesis using assms(3) by (simp add: digits)
  qed
qed

lemma b64_bytes:
  fixes a b c :: byte
  defines "v \<equiv> unat a * 65536 + unat b * 256 + unat c"
  shows "of_nat (v div 262144 mod 64 * 4 + v div 4096 mod 64 div 16) = a"
    and "of_nat (v div 4096 mod 64 * 16 + v div 64 mod 64 div 4) = b"
    and "of_nat (v div 64 mod 64 * 64 + v mod 64) = c"
  unfolding v_def by (rule byte_of_nat, rule b64_groups [OF unat_byte unat_byte unat_byte])+

lemma b64_read_group: "t \<noteq> [] \<Longrightarrow> b64_read (p # q # r # s # t) =
     (case (b64_value p, b64_value q, b64_value r, b64_value s, b64_read t) of
        (Some i, Some j, Some k, Some l, Some rest) \<Rightarrow>
          Some (of_nat (i * 4 + j div 16) # of_nat (j * 16 + k div 4) # of_nat (k * 64 + l) # rest)
      | _ \<Rightarrow> None)"
  by (cases t) simp_all

theorem base64_round_trip: "b64_read (EncodeToString d) = Some d"
proof (induction d rule: EncodeToString.induct)
  case (2 a)
  show ?case using b64_bytes(1) [of a 0 0] by (simp add: Let_def)
next
  case (3 a b)
  show ?case using b64_bytes(1,2) [of a b 0] by (simp add: Let_def)
next
  case (4 a b c r)
  then show ?case
    using b64_bytes [of a b c] by (cases "EncodeToString r = []") (simp_all add: Let_def b64_read_group)
qed simp

section \<open>JSON text\<close>

text \<open>
  String literals as \<^verbatim>\<open>json.Marshal\<close> writes them: quotes and backslashes escaped, control characters
  and the characters \<^verbatim>\<open><\<close>, \<^verbatim>\<open>>\<close> and \<^verbatim>\<open>&\<close> as escapes, the line separators U+2028 and
  U+2029 as escapes, and undecodable bytes as the escape of U+FFFD. Everything else is copied.
\<close>

definition hex_digit :: "nat \<Rightarrow> char" where
  "hex_digit n = ''0123456789abcdef'' ! (n mod 16)"

definition json_char :: "char \<Rightarrow> string" where
  "json_char c =
     (if c = CHR 0x22 \<or> c = CHR 0x5C then [CHR 0x5C, c]
      else if code c = 8 then [CHR 0x5C, CHR ''b'']
      else if code c = 12 then [CHR 0x5C, CHR ''f'']
      else if code c = 10 then [CHR 0x5C, CHR ''n'']
      else if code c = 13 then [CHR 0x5C, CHR ''r'']
      else if code c = 9 then [CHR 0x5C, CHR ''t'']
      else if code c < 32 \<or> c = CHR ''<'' \<or> c = CHR ''>'' \<or> c = CHR ''&''
        then [CHR 0x5C, CHR ''u'', CHR ''0'', CHR ''0'', hex_digit (code c div 16), hex_digit (code c)]
      else [c])"

definition json_rune :: "rune \<Rightarrow> string" where
  "json_rune r =
     (case r of
        Bad c \<Rightarrow> CHR 0x5C # ''ufffd''
      | Rune u \<Rightarrow>
          if u = [CHR 0xE2, CHR 0x80, CHR 0xA8] then CHR 0x5C # ''u2028''
          else if u = [CHR 0xE2, CHR 0x80, CHR 0xA9] then CHR 0x5C # ''u2029''
          else concat (map json_char u))"

definition json_string :: "string \<Rightarrow> string" where
  "json_string s = CHR 0x22 # concat (map json_rune (runes s)) @ [CHR 0x22]"

text \<open>The reference reader: escapes below U+10000, which is all the writer produces.\<close>

definition hex_value :: "char \<Rightarrow> nat option" where
  "hex_value c = index_of c ''0123456789abcdef''"

definition utf8_of :: "nat \<Rightarrow> string" where
  "utf8_of n =
     (if n < 0x80 then [char_of n]
      else if n < 0x800 then [char_of (0xC0 + n div 64), char_of (0x80 + n mod 64)]
      else [char_of (0xE0 + n div 4096), char_of (0x80 + n div 64 mod 64), char_of (0x80 + n mod 64)])"

definition cons_text :: "string \<Rightarrow> (string \<times> string) option \<Rightarrow> (string \<times> string) option" where
  "cons_text u r = map_option (\<lambda>(a, b). (u @ a, b)) r"

fun read_chars :: "string \<Rightarrow> (string \<times> string) option" where
  "read_chars [] = None"
| "read_chars (c # s) =
     (if c = CHR 0x22 then Some ([], s)
      else if c = CHR 0x5C then
        (case s of
           [] \<Rightarrow> None
         | e # t \<Rightarrow>
             if e = CHR 0x22 \<or> e = CHR 0x5C \<or> e = CHR ''/'' then cons_text [e] (read_chars t)
             else if e = CHR ''b'' then cons_text [CHR 0x08] (read_chars t)
             else if e = CHR ''f'' then cons_text [CHR 0x0C] (read_chars t)
             else if e = CHR ''n'' then cons_text [CHR 0x0A] (read_chars t)
             else if e = CHR ''r'' then cons_text [CHR 0x0D] (read_chars t)
             else if e = CHR ''t'' then cons_text [CHR 0x09] (read_chars t)
             else if e = CHR ''u'' then
               (case t of
                  h1 # h2 # h3 # h4 # v \<Rightarrow>
                    (case (hex_value h1, hex_value h2, hex_value h3, hex_value h4) of
                       (Some i, Some j, Some k, Some l) \<Rightarrow>
                         cons_text (utf8_of (((i * 16 + j) * 16 + k) * 16 + l)) (read_chars v)
                     | _ \<Rightarrow> None)
                | _ \<Rightarrow> None)
             else None)
      else cons_text [c] (read_chars s))"

definition read_string :: "string \<Rightarrow> (string \<times> string) option" where
  "read_string s = (case s of c # t \<Rightarrow> if c = CHR 0x22 then read_chars t else None | [] \<Rightarrow> None)"

lemma cons_text_cons_text [simp]: "cons_text u (cons_text v r) = cons_text (u @ v) r"
  by (cases r) (auto simp: cons_text_def)

lemma cons_text_Nil [simp]: "cons_text [] r = r"
  by (cases r) (auto simp: cons_text_def)

lemma hex_value_digit [simp]: "hex_value (hex_digit n) = Some (n mod 16)"
  by (simp add: hex_value_def hex_digit_def index_of_nth del: index_of.simps)

lemma hex_value_zero [simp]: "hex_value CHR ''0'' = Some 0"
  by (simp add: hex_value_def)

lemma code_lt: "code c < 256"
  by (simp add: of_char_def)

lemma read_plain:
  "c \<noteq> CHR 0x22 \<Longrightarrow> c \<noteq> CHR 0x5C \<Longrightarrow> read_chars (c # s) = cons_text [c] (read_chars s)"
  by simp

declare read_chars.simps(2) [simp del]

lemma code_eq: "code c = code d \<Longrightarrow> c = d"
  by simp

lemma read_escaped_code:
  assumes "code c < 0x80"
  shows "read_chars ([CHR 0x5C, CHR ''u'', CHR ''0'', CHR ''0'', hex_digit (code c div 16), hex_digit (code c)] @ s)
         = cons_text [c] (read_chars s)"
proof -
  have "code c div 16 mod 16 * 16 + code c mod 16 = code c" using assms by simp
  with assms show ?thesis by (simp add: read_chars.simps utf8_of_def)
qed

lemma read_json_char:
  assumes "code c < 0x80"
  shows "read_chars (json_char c @ s) = cons_text [c] (read_chars s)"
proof -
  consider "c = CHR 0x22 \<or> c = CHR 0x5C" | "code c \<in> {8, 9, 10, 12, 13}"
    | "c \<noteq> CHR 0x22" "c \<noteq> CHR 0x5C" "code c \<notin> {8, 9, 10, 12, 13}" by blast
  then show ?thesis
  proof cases
    case 1
    then show ?thesis by (auto simp: json_char_def read_chars.simps)
  next
    case 2
    then have "c \<in> {CHR 0x08, CHR 0x09, CHR 0x0A, CHR 0x0C, CHR 0x0D}"
      using code_eq [of c "CHR 0x08"] code_eq [of c "CHR 0x09"] code_eq [of c "CHR 0x0A"]
        code_eq [of c "CHR 0x0C"] code_eq [of c "CHR 0x0D"] by auto
    then show ?thesis by (auto simp: json_char_def read_chars.simps)
  next
    case 3
    then show ?thesis
      using read_escaped_code [OF assms, of s] by (simp add: json_char_def read_plain)
  qed
qed

lemma read_high:
  "\<forall>c \<in> set u. 0x80 \<le> code c \<Longrightarrow> read_chars (concat (map json_char u) @ s) = cons_text u (read_chars s)"
proof (induction u)
  case (Cons c u)
  then have "json_char c = [c]" "c \<noteq> CHR 0x22" "c \<noteq> CHR 0x5C"
    by (auto simp: json_char_def)
  with Cons show ?case by (simp add: read_plain)
qed simp

lemma hex_values:
  "hex_value CHR ''2'' = Some 2" "hex_value CHR ''8'' = Some 8" "hex_value CHR ''9'' = Some 9"
  "hex_value CHR ''f'' = Some 15" "hex_value CHR ''d'' = Some 13"
  by (simp_all add: hex_value_def)

lemma escaped_runes:
  "utf8_of 0x2028 = [CHR 0xE2, CHR 0x80, CHR 0xA8]" "utf8_of 0x2029 = [CHR 0xE2, CHR 0x80, CHR 0xA9]"
  "utf8_of 0xFFFD = replacement"
  by (simp_all add: utf8_of_def replacement_def char_of_eq_iff)

lemma read_json_rune:
  assumes "r \<in> set (runes t)"
  shows "read_chars (json_rune r @ s) =
    cons_text (case r of Rune u \<Rightarrow> u | Bad _ \<Rightarrow> replacement) (read_chars s)"
proof (cases r)
  case (Bad c)
  then show ?thesis
    using escaped_runes(3) by (simp add: json_rune_def read_chars.simps hex_values)
next
  case (Rune u)
  consider "u = [CHR 0xE2, CHR 0x80, CHR 0xA8]" | "u = [CHR 0xE2, CHR 0x80, CHR 0xA9]"
    | c where "u = [c]" "code c < 0x80" | "u \<noteq> [CHR 0xE2, CHR 0x80, CHR 0xA8]"
      "u \<noteq> [CHR 0xE2, CHR 0x80, CHR 0xA9]" "\<forall>c \<in> set u. 0x80 \<le> code c"
    using rune_bytes [of u t] assms Rune by blast
  then show ?thesis
  proof cases
    case 1
    then show ?thesis
      using escaped_runes(1) Rune by (simp add: json_rune_def read_chars.simps hex_values)
  next
    case 2
    then show ?thesis
      using escaped_runes(2) Rune by (simp add: json_rune_def read_chars.simps hex_values)
  next
    case 3
    then show ?thesis using Rune read_json_char by (simp add: json_rune_def)
  next
    case 4
    then show ?thesis using Rune read_high by (simp add: json_rune_def)
  qed
qed

lemma read_json_runes:
  "set rs \<subseteq> set (runes t) \<Longrightarrow> read_chars (concat (map json_rune rs) @ s) =
     cons_text (concat (map (\<lambda>r. case r of Rune u \<Rightarrow> u | Bad _ \<Rightarrow> replacement) rs)) (read_chars s)"
  by (induction rs) (simp_all add: read_json_rune [of _ t])

theorem read_json_string: "read_string (json_string s @ rest) = Some (decoded s, rest)"
  using read_json_runes [of "runes s" s "CHR 0x22 # rest"]
  by (simp add: read_string_def json_string_def decoded_def read_chars.simps(2) [of "CHR 0x22"] cons_text_def)

section \<open>JSON arrays\<close>

fun commas :: "string list \<Rightarrow> string" where
  "commas [] = ''''"
| "commas [x] = x"
| "commas (x # y # xs) = x @ '','' @ commas (y # xs)"

text \<open>A slice: the nil slice is written as null, any other as an array.\<close>

definition json_slice :: "('a \<Rightarrow> string) \<Rightarrow> 'a list option \<Rightarrow> string" where
  "json_slice enc xs = (case xs of None \<Rightarrow> ''null'' | Some ys \<Rightarrow> ''['' @ commas (map enc ys) @ '']'')"

type_synonym 'a reader = "string \<Rightarrow> ('a \<times> string) option"

definition read_lit :: "string \<Rightarrow> string \<Rightarrow> string option" where
  "read_lit lit s = (if take (length lit) s = lit then Some (drop (length lit) s) else None)"

text \<open>
  Reading the elements of an array up to the closing bracket. Each element takes at least one
  character, so the length of the text is enough fuel.
\<close>

fun read_items :: "nat \<Rightarrow> 'a reader \<Rightarrow> ('a list) reader" where
  "read_items 0 p s = None"
| "read_items (Suc n) p s =
     (case p s of
        None \<Rightarrow> None
      | Some (x, c # t) \<Rightarrow>
          if c = CHR '']'' then Some ([x], t)
          else if c = CHR '','' then map_option (\<lambda>(xs, u). (x # xs, u)) (read_items n p t)
          else None
      | Some (x, []) \<Rightarrow> None)"

definition read_array :: "'a reader \<Rightarrow> ('a list) reader" where
  "read_array p s =
     (case read_lit ''[]'' s of
        Some t \<Rightarrow> Some ([], t)
      | None \<Rightarrow> (case read_lit ''['' s of None \<Rightarrow> None | Some t \<Rightarrow> read_items (length t) p t))"

lemma read_lit [simp]: "read_lit lit (lit @ s) = Some s"
  by (simp add: read_lit_def)

lemma read_items_commas:
  assumes "\<forall>x \<in> set xs. \<forall>s. p (enc x @ s) = Some (f x, s)" and "xs \<noteq> []" and "length xs \<le> n"
  shows "read_items n p (commas (map enc xs) @ '']'' @ s) = Some (map f xs, s)"
  using assms
proof (induction xs arbitrary: n rule: induct_list012)
  case (2 x)
  then show ?case by (cases n) simp_all
next
  case (3 x y zs)
  then show ?case by (cases n) simp_all
qed simp

lemma commas_length: "\<forall>x \<in> set xs. enc x \<noteq> [] \<Longrightarrow> length xs \<le> length (commas (map enc xs))"
proof (induction xs rule: induct_list012)
  case (2 x)
  then show ?case by (cases "enc x") simp_all
next
  case (3 x y zs)
  then show ?case by (cases "enc x") simp_all
qed simp

text \<open>Reading an array gives back its elements, when reading gives back each of them.\<close>

lemma read_json_slice:
  assumes "\<forall>x \<in> set xs. \<forall>s. p (enc x @ s) = Some (f x, s)"
    and "\<forall>x \<in> set xs. \<exists>c t. enc x = c # t \<and> c \<noteq> CHR '']''"
  shows "read_array p (json_slice enc (Some xs) @ s) = Some (map f xs, s)"
proof (cases xs)
  case Nil
  then show ?thesis by (simp add: json_slice_def read_array_def read_lit_def)
next
  case (Cons x ys)
  with assms(2) obtain c t where "enc x = c # t" "c \<noteq> CHR '']''" by auto
  then have first: "\<exists>u. commas (map enc xs) = c # u" "c \<noteq> CHR '']''" by (cases ys; simp add: Cons)+
  have "length xs \<le> length (commas (map enc xs) @ '']'' @ s)"
    using commas_length [of xs enc] assms(2) by fastforce
  with read_items_commas [OF assms(1)] Cons
  have "read_items (length (commas (map enc xs) @ '']'' @ s)) p (commas (map enc xs) @ '']'' @ s) = Some (map f xs, s)"
    by blast
  with first show ?thesis by (auto simp: json_slice_def read_array_def read_lit_def)
qed

end
