(* ===== verification/Payload.thy ===== *)
theory Payload
  imports Text_Encoding Messages Validation
begin

text \<open>
  The JSON the web front end sends to browsers (\<^verbatim>\<open>internal/web/discovery_payload.go\<close>) and that it
  can be read back: the reference reader below recovers the identifiers, the data, the endpoints
  and the deletion mark.
\<close>

section \<open>The payload\<close>

record affiliateJSON =
  aj_ID :: string
  aj_Data :: string
  aj_Endpoints :: "string list option"

record affiliatesEnvelope =
  env_Affiliates :: "affiliateJSON list option"
  env_Deleted :: bool

text \<open>
  What \<^verbatim>\<open>json.Marshal\<close> does on these two structs, by their tags. It fails only on types that
  do not occur here, so the model's error case is never taken.
\<close>

definition json_bool :: "bool \<Rightarrow> string" where
  "json_bool b = (if b then ''true'' else ''false'')"

definition json_affiliate :: "affiliateJSON \<Rightarrow> string" where
  "json_affiliate a =
     CHR 0x7B # json_string ''id'' @ '':'' @ json_string (aj_ID a) @
     '','' @ json_string ''data'' @ '':'' @ json_string (aj_Data a) @
     '','' @ json_string ''endpoints'' @ '':'' @ json_slice json_string (aj_Endpoints a) @ [CHR 0x7D]"

definition Marshal :: "affiliatesEnvelope \<Rightarrow> go_error + string" where
  "Marshal e = Inr
     (CHR 0x7B # json_string ''affiliates'' @ '':'' @ json_slice json_affiliate (env_Affiliates e) @
      '','' @ json_string ''deleted'' @ '':'' @ json_bool (env_Deleted e) @ [CHR 0x7D])"

definition affiliate_entry :: "pb_Affiliate \<Rightarrow> affiliateJSON" where
  "affiliate_entry a =
     \<lparr>aj_ID = Affiliate_GetId (Some a),
      aj_Data = EncodeToString (Affiliate_GetData (Some a)),
      aj_Endpoints =
        (if 0 < length (Affiliate_GetEndpoints (Some a))
         then Some (map EncodeToString (Affiliate_GetEndpoints (Some a)))
         else Some [])\<rparr>"

definition affiliatesToJSON :: "pb_Affiliate list \<Rightarrow> bool \<Rightarrow> go_error + string" where
  "affiliatesToJSON affiliates deleted =
     (case Marshal \<lparr>env_Affiliates = Some (map affiliate_entry affiliates), env_Deleted = deleted\<rparr> of
        Inl err \<Rightarrow> Inl err
      | Inr b \<Rightarrow> Inr b)"

section \<open>Reading it back\<close>

definition read_b64 :: "bytes reader" where
  "read_b64 s =
     (case read_string s of
        None \<Rightarrow> None
      | Some (w, t) \<Rightarrow> (case b64_read w of None \<Rightarrow> None | Some d \<Rightarrow> Some (d, t)))"

definition read_field :: "string \<Rightarrow> 'a reader \<Rightarrow> 'a reader" where
  "read_field name p s = (case read_lit (json_string name @ '':'') s of None \<Rightarrow> None | Some t \<Rightarrow> p t)"

definition after :: "string \<Rightarrow> 'a reader \<Rightarrow> 'a reader" where
  "after lit p s = (case read_lit lit s of None \<Rightarrow> None | Some t \<Rightarrow> p t)"

definition read_then :: "'a reader \<Rightarrow> 'b reader \<Rightarrow> ('a \<times> 'b) reader" where
  "read_then p q s =
     (case p s of
        None \<Rightarrow> None
      | Some (x, t) \<Rightarrow> (case q t of None \<Rightarrow> None | Some (y, u) \<Rightarrow> Some ((x, y), u)))"

definition read_end :: "unit reader" where
  "read_end s = (case read_lit [CHR 0x7D] s of None \<Rightarrow> None | Some t \<Rightarrow> Some ((), t))"

definition read_bool :: "bool reader" where
  "read_bool s =
     (case read_lit ''true'' s of
        Some t \<Rightarrow> Some (True, t)
      | None \<Rightarrow> (case read_lit ''false'' s of Some t \<Rightarrow> Some (False, t) | None \<Rightarrow> None))"

definition read_affiliate :: "(string \<times> bytes \<times> bytes list \<times> unit) reader" where
  "read_affiliate =
     after [CHR 0x7B] (read_then (read_field ''id'' read_string)
       (read_then (after '','' (read_field ''data'' read_b64))
         (read_then (after '','' (read_field ''endpoints'' (read_array read_b64))) read_end)))"

definition read_envelope :: "((string \<times> bytes \<times> bytes list \<times> unit) list \<times> bool \<times> unit) reader" where
  "read_envelope =
     after [CHR 0x7B] (read_then (read_field ''affiliates'' (read_array read_affiliate))
       (read_then (after '','' (read_field ''deleted'' read_bool)) read_end))"

lemma ascii_text: "\<forall>c \<in> set s. code c < 0x80 \<Longrightarrow> decoded s = s"
proof (induction s rule: rune_induct)
  case (Bad b t)
  then show ?case by (simp add: rune_len.simps)
next
  case (Good s)
  moreover have "\<forall>c \<in> set (drop (rune_len s) s). code c < 0x80"
    using Good.prems by (meson in_set_dropD)
  ultimately show ?case by (simp add: decoded_def runes_good)
qed (simp add: decoded_def)

lemma b64_ascii: "\<forall>c \<in> set (EncodeToString d). code c < 0x80"
proof -
  have "\<forall>c \<in> set b64_alphabet. code c < 0x80" by (simp add: b64_alphabet_def)
  then have "code (b64_digit n) < 0x80" for n
    by (simp add: b64_digit_def b64_alphabet_facts)
  then show ?thesis by (induction d rule: EncodeToString.induct) (auto simp: Let_def)
qed

lemma read_b64_written: "read_b64 (json_string (EncodeToString d) @ s) = Some (d, s)"
  by (simp add: read_b64_def read_json_string ascii_text [OF b64_ascii] base64_round_trip)

lemma json_string_quote: "json_string s = CHR 0x22 # concat (map json_rune (runes s)) @ [CHR 0x22]"
  by (simp add: json_string_def)

lemma read_endpoints_written:
  "read_array read_b64 (json_slice json_string (aj_Endpoints (affiliate_entry a)) @ s) =
     Some (f_Affiliate_Endpoints a, s)"
proof -
  let ?eps = "f_Affiliate_Endpoints a"
  have "aj_Endpoints (affiliate_entry a) = Some (map EncodeToString ?eps)"
    by (simp add: affiliate_entry_def go_defs)
  moreover have "json_slice json_string (Some (map EncodeToString ?eps)) =
      json_slice (\<lambda>d. json_string (EncodeToString d)) (Some ?eps)"
    by (simp add: json_slice_def comp_def)
  moreover have "read_array read_b64 (json_slice (\<lambda>d. json_string (EncodeToString d)) (Some ?eps) @ s) =
      Some (map (\<lambda>d. d) ?eps, s)"
    by (rule read_json_slice) (simp add: read_b64_written, simp add: json_string_quote)
  ultimately show ?thesis by simp
qed

lemma read_field_written [simp]: "read_field name p (json_string name @ CHR '':'' # s) = p s"
  using read_lit [of "json_string name @ '':''" s] by (simp add: read_field_def)

lemma after_written [simp]: "after [c] p (c # s) = p s"
  using read_lit [of "[c]" s] by (simp add: after_def)

lemma read_end_written [simp]: "read_end (CHR 0x7D # s) = Some ((), s)"
  using read_lit [of "[CHR 0x7D]" s] by (simp add: read_end_def)

lemma read_affiliate_written:
  "read_affiliate (json_affiliate (affiliate_entry a) @ s) =
     Some ((decoded (f_Affiliate_Id a), f_Affiliate_Data a, f_Affiliate_Endpoints a, ()), s)"
proof -
  have "aj_ID (affiliate_entry a) = f_Affiliate_Id a"
    and "aj_Data (affiliate_entry a) = EncodeToString (f_Affiliate_Data a)"
    by (simp_all add: affiliate_entry_def go_defs)
  then show ?thesis
    by (simp add: read_affiliate_def json_affiliate_def read_then_def read_json_string read_b64_written
        read_endpoints_written)
qed

lemma read_bool_written: "read_bool (json_bool b @ s) = Some (b, s)"
  by (simp add: read_bool_def json_bool_def read_lit_def)

lemma payload_read:
  "\<exists>txt. affiliatesToJSON affiliates deleted = Inr txt \<and>
     read_envelope txt =
       Some ((map (\<lambda>a. (decoded (f_Affiliate_Id a), f_Affiliate_Data a, f_Affiliate_Endpoints a, ())) affiliates,
              deleted, ()), [])"
proof -
  let ?f = "\<lambda>a. (decoded (f_Affiliate_Id a), f_Affiliate_Data a, f_Affiliate_Endpoints a, ())"
  have slice: "json_slice json_affiliate (Some (map affiliate_entry affiliates)) =
      json_slice (\<lambda>a. json_affiliate (affiliate_entry a)) (Some affiliates)"
    by (simp add: json_slice_def comp_def)
  have "read_array read_affiliate (json_slice (\<lambda>a. json_affiliate (affiliate_entry a)) (Some affiliates) @ s) =
      Some (map ?f affiliates, s)" for s
    by (rule read_json_slice) (simp add: read_affiliate_written, simp add: json_affiliate_def)
  then show ?thesis
    using read_bool_written [of deleted "[CHR 0x7D]"]
    by (simp add: affiliatesToJSON_def Marshal_def read_envelope_def read_then_def slice)
qed

text \<open>
  C36: the payload of an update loses nothing. It is produced for every list of affiliates, and
  reading it gives back, in order, each affiliate's identifier, the bytes of its data and of its
  endpoints, and whether the update is a deletion. An identifier is read back as its decoded
  text, which is the identifier itself when it is well-formed UTF-8.
\<close>

theorem payload_round_trip:
  "\<exists>text. affiliatesToJSON affiliates deleted = Inr text \<and>
     read_envelope text =
       Some ((map (\<lambda>a. (decoded (f_Affiliate_Id a), f_Affiliate_Data a, f_Affiliate_Endpoints a, ())) affiliates,
              deleted, ()), []) \<and>
     (\<forall>a \<in> set affiliates. valid_utf8 (f_Affiliate_Id a) \<longrightarrow> decoded (f_Affiliate_Id a) = f_Affiliate_Id a)"
  using payload_read [of affiliates deleted] decoded_valid by blast

theorem payload_round_trip_witness:
  "\<exists>text. affiliatesToJSON [\<lparr>f_Affiliate_Id = ''n1'', f_Affiliate_Data = [1, 255], f_Affiliate_Endpoints = [[10, 0, 0, 1]]\<rparr>] True = Inr text \<and>
     read_envelope text = Some (([(''n1'', [1, 255], [[10, 0, 0, 1]], ())], True, ()), [])"
  using payload_round_trip [of "[\<lparr>f_Affiliate_Id = ''n1'', f_Affiliate_Data = [1, 255], f_Affiliate_Endpoints = [[10, 0, 0, 1]]\<rparr>]" True]
    ascii_text [of "''n1''"] by simp

end
