(* ===== verification/Watch_Manager.thy ===== *)
theory Watch_Manager
  imports Hub Payload "HOL-Library.Signed_Division"
begin

text \<open>
  The shared upstream watches of the web front end (\<^verbatim>\<open>internal/web/discovery_watch_manager.go\<close>):
  one watching goroutine per cluster with subscribers, counted by reference, reconnecting with
  exponential back-off.

  The state of the manager holds its map of entries together with everything the entries point to:
  the channels, the hubs and the goroutines. A context made with \<^verbatim>\<open>context.WithCancel\<close> is
  done when it was cancelled or its parent is. The gRPC client is not part of the repository: what
  its calls return is the input of a goroutine's steps. A panic is \<open>None\<close>.
\<close>

section \<open>State\<close>

datatype watcher_pc = Loop_top | Open_stream | Receiving | Backing_off duration | Stopped

record watcher =
  wt_cluster :: string
  wt_hub :: nat
  wt_cancelled :: bool
  wt_attempt :: "64 word"
  wt_pc :: watcher_pc

record watchEntry =
  entry_hub :: nat
  entry_cancel :: nat
  entry_refs :: int

record DiscoveryWatchManager =
  chans :: chan_store
  hubs :: "Hub list"
  watchers :: "watcher list"
  entries :: "(string \<times> watchEntry) list"
  root_done :: bool
  calls :: "metric_call list"

definition NewDiscoveryWatchManager ::
  "('r \<Rightarrow> string \<Rightarrow> 'e option \<times> 'r) \<Rightarrow> 'r \<Rightarrow> ('e + DiscoveryWatchManager) \<times> 'r" where
  "NewDiscoveryWatchManager Register r =
     (case newWatchManagerMetrics Register r of
        (Inl err, r') \<Rightarrow> (Inl err, r')
      | (Inr metrics, r') \<Rightarrow>
          (Inr \<lparr>chans = [], hubs = [], watchers = [], entries = [], root_done = False, calls = metrics\<rparr>, r'))"

definition ctx_done :: "DiscoveryWatchManager \<Rightarrow> watcher \<Rightarrow> bool" where
  "ctx_done m w \<longleftrightarrow> wt_cancelled w \<or> root_done m"

section \<open>Subscribing\<close>

text \<open>The first subscriber of a cluster starts its goroutine.\<close>

definition start_watcher :: "string \<Rightarrow> DiscoveryWatchManager \<Rightarrow> DiscoveryWatchManager" where
  "start_watcher clusterID m =
     m\<lparr>hubs := hubs m @ [NewHub],
       watchers := watchers m @ [\<lparr>wt_cluster = clusterID, wt_hub = length (hubs m), wt_cancelled = False,
                                  wt_attempt = 0, wt_pc = Loop_top\<rparr>],
       entries := AList.update clusterID
         \<lparr>entry_hub = length (hubs m), entry_cancel = length (watchers m), entry_refs = 0\<rparr> (entries m),
       calls := calls m @ [Inc activeDiscoveryWatchers]\<rparr>"

definition join_entry :: "string \<Rightarrow> watchEntry \<Rightarrow> DiscoveryWatchManager \<Rightarrow> nat \<times> DiscoveryWatchManager" where
  "join_entry clusterID entry m =
     (case Hub_Subscribe (chans m) (hubs m ! entry_hub entry) of (ch, st, h) \<Rightarrow>
        (ch, m\<lparr>entries := AList.update clusterID (entry\<lparr>entry_refs := entry_refs entry + 1\<rparr>) (entries m),
               calls := calls m @ [Inc activeSubscribers],
               chans := st, hubs := (hubs m)[entry_hub entry := h]\<rparr>))"

definition Subscribe :: "string \<Rightarrow> DiscoveryWatchManager \<Rightarrow> nat \<times> DiscoveryWatchManager" where
  "Subscribe clusterID m =
     (let m1 = (if map_of (entries m) clusterID = None then start_watcher clusterID m else m)
      in join_entry clusterID (the (map_of (entries m1) clusterID)) m1)"

text \<open>The last subscriber that leaves cancels the goroutine and drops the entry.\<close>

definition Unsubscribe :: "string \<Rightarrow> nat \<Rightarrow> DiscoveryWatchManager \<Rightarrow> DiscoveryWatchManager" where
  "Unsubscribe clusterID ch m =
     (case map_of (entries m) clusterID of
        None \<Rightarrow> m
      | Some entry \<Rightarrow>
          let refs = entry_refs entry - 1;
              m1 = m\<lparr>hubs := (hubs m)[entry_hub entry := Hub_Unsubscribe ch (hubs m ! entry_hub entry)],
                     calls := calls m @ [Dec activeSubscribers]\<rparr>
          in if refs \<le> 0 then
               m1\<lparr>watchers := (watchers m)[entry_cancel entry := (watchers m ! entry_cancel entry)\<lparr>wt_cancelled := True\<rparr>],
                  entries := AList.delete clusterID (entries m),
                  calls := calls m1 @ [Dec activeDiscoveryWatchers]\<rparr>
             else m1\<lparr>entries := AList.update clusterID (entry\<lparr>entry_refs := refs\<rparr>) (entries m)\<rparr>)"

section \<open>Back-off\<close>

definition millisecond :: duration where
  "millisecond = 1000000"

definition base :: duration where
  "base = 500 * millisecond"

definition maxDelay :: duration where
  "maxDelay = 15 * 1000 * millisecond"

text \<open>
  The arithmetic is that of 64-bit integers: a shift by 64 or more gives 0, the product wraps
  around, the quotient is truncated. \<^verbatim>\<open>rand.Int63n\<close> panics on an argument that is not positive;
  the number it draws is the input \<open>rnd\<close>.
\<close>

definition Int63n :: "(duration \<Rightarrow> 64 word) \<Rightarrow> duration \<Rightarrow> 64 word option" where
  "Int63n rnd n = (if sint n \<le> 0 then None else Some (rnd n))"

definition random_source :: "(duration \<Rightarrow> 64 word) \<Rightarrow> bool" where
  "random_source rnd \<longleftrightarrow> (\<forall>n. 0 < sint n \<longrightarrow> 0 \<le> sint (rnd n) \<and> sint (rnd n) < sint n)"

definition nextBackoff :: "(duration \<Rightarrow> 64 word) \<Rightarrow> 64 word \<Rightarrow> duration option" where
  "nextBackoff rnd attempt =
     (let attempt = (if sint attempt < 0 then 0 else attempt);
          d = base * push_bit (unat attempt) 1;
          d = (if sint d > sint maxDelay \<or> sint d \<le> 0 then maxDelay else d)
      in case Int63n rnd (word_of_int (sint d sdiv 2)) of
           None \<Rightarrow> None
         | Some jitter \<Rightarrow> Some (d + jitter))"

text \<open>
  Waiting ends with the timer or with the context; when both are ready either may be taken. The
  argument \<open>timer\<close> says which one is tried; a wait that cannot end yet is \<open>None\<close>.
\<close>

definition waitWithContext :: "bool \<Rightarrow> duration \<Rightarrow> bool \<Rightarrow> bool option" where
  "waitWithContext done d timer =
     (if sint d \<le> 0 then Some (\<not> done)
      else if timer then Some True
      else if done then Some False
      else None)"

section \<open>The watching goroutine\<close>

text \<open>
  One step per blocking call: opening the stream, a receive on it, a wait. The inputs are what the
  call returns.
\<close>

datatype watcher_input =
    Proceed | Open_failed | Opened | Recv_EOF | Recv_failed | Recv_response pb_WatchResponse | Wait_ended bool

definition put_watcher :: "nat \<Rightarrow> watcher \<Rightarrow> metric_call list \<Rightarrow> DiscoveryWatchManager \<Rightarrow> DiscoveryWatchManager" where
  "put_watcher i w cs m = m\<lparr>watchers := (watchers m)[i := w], calls := calls m @ cs\<rparr>"

definition back_off ::
  "(duration \<Rightarrow> 64 word) \<Rightarrow> nat \<Rightarrow> metric_call list \<Rightarrow> DiscoveryWatchManager \<Rightarrow> DiscoveryWatchManager option" where
  "back_off rnd i cs m =
     (case nextBackoff rnd (wt_attempt (watchers m ! i)) of
        None \<Rightarrow> None
      | Some d \<Rightarrow>
          Some (put_watcher i ((watchers m ! i)\<lparr>wt_pc := Backing_off d\<rparr>) (cs @ [Inc watchReconnects]) m))"

definition watch_response ::
  "(nat list \<Rightarrow> nat list) \<Rightarrow> (duration \<Rightarrow> 64 word) \<Rightarrow> nat \<Rightarrow> pb_WatchResponse \<Rightarrow>
   DiscoveryWatchManager \<Rightarrow> DiscoveryWatchManager option" where
  "watch_response ord rnd i resp m =
     (case affiliatesToJSON (WatchResponse_GetAffiliates (Some resp)) (WatchResponse_GetDeleted (Some resp)) of
        Inl err \<Rightarrow> back_off rnd i [Inc watchEvents] m
      | Inr data \<Rightarrow>
          (case Broadcast ord \<lparr>evt_Data = data\<rparr> (hubs m ! wt_hub (watchers m ! i))
                  (chans m, calls m @ [Inc watchEvents]) of
             None \<Rightarrow> None
           | Some (st, cs) \<Rightarrow> Some (m\<lparr>chans := st, calls := cs\<rparr>)))"

definition watchDiscovery ::
  "(nat list \<Rightarrow> nat list) \<Rightarrow> (duration \<Rightarrow> 64 word) \<Rightarrow> nat \<Rightarrow> watcher_input \<Rightarrow>
   DiscoveryWatchManager \<Rightarrow> DiscoveryWatchManager option" where
  "watchDiscovery ord rnd i inp m =
     (let w = watchers m ! i in
      case wt_pc w of
        Stopped \<Rightarrow> Some m
      | Loop_top \<Rightarrow> Some (put_watcher i (w\<lparr>wt_pc := if ctx_done m w then Stopped else Open_stream\<rparr>) [] m)
      | Open_stream \<Rightarrow>
          (case inp of
             Open_failed \<Rightarrow> back_off rnd i [Inc watchStreamErrors] m
           | Opened \<Rightarrow> Some (put_watcher i (w\<lparr>wt_attempt := 0, wt_pc := Receiving\<rparr>) [] m)
           | _ \<Rightarrow> Some m)
      | Receiving \<Rightarrow>
          (case inp of
             Recv_EOF \<Rightarrow> back_off rnd i [] m
           | Recv_failed \<Rightarrow> back_off rnd i [Inc watchStreamErrors] m
           | Recv_response resp \<Rightarrow> watch_response ord rnd i resp m
           | _ \<Rightarrow> Some m)
      | Backing_off d \<Rightarrow>
          (case inp of
             Wait_ended timer \<Rightarrow>
               (case waitWithContext (ctx_done m w) d timer of
                  None \<Rightarrow> Some m
                | Some False \<Rightarrow> Some (put_watcher i (w\<lparr>wt_pc := Stopped\<rparr>) [] m)
                | Some True \<Rightarrow>
                    Some (put_watcher i (w\<lparr>wt_attempt := wt_attempt w + 1, wt_pc := Loop_top\<rparr>) [] m))
           | _ \<Rightarrow> Some m))"

section \<open>Back-off delays\<close>

lemma small_delays:
  "list_all (\<lambda>k. base * push_bit k 1 = word_of_int (500000000 * 2 ^ k) \<and>
     0 < sint (base * push_bit k 1) \<and> sint (base * push_bit k 1) \<le> sint maxDelay) [0..<5]"
  by code_simp

lemma large_delays:
  "list_all (\<lambda>k. sint (base * push_bit k 1) > sint maxDelay \<or> sint (base * push_bit k 1) \<le> 0) [5..<64]"
  by (simp add: base_def maxDelay_def millisecond_def)

lemma clamped_delay:
  fixes k :: nat
  defines "d \<equiv> base * push_bit k 1"
  shows "(if sint d > sint maxDelay \<or> sint d \<le> 0 then maxDelay else d) =
    word_of_int (if k < 5 then 500000000 * 2 ^ k else 15000000000)"
proof -
  have max: "maxDelay = word_of_int 15000000000" by (simp add: maxDelay_def millisecond_def)
  consider "k < 5" | "5 \<le> k" "k < 64" | "64 \<le> k" by linarith
  then show ?thesis
  proof cases
    case 1
    then have d: "d = word_of_int (500000000 * 2 ^ k) \<and> 0 < sint d \<and> sint d \<le> sint maxDelay"
      unfolding d_def by (intro small_delays [unfolded list_all_iff, rule_format]) simp
    then have "\<not> (sint d > sint maxDelay \<or> sint d \<le> 0)" by linarith
    from if_not_P [OF this] d 1 show ?thesis by (simp only: if_True)
  next
    case 2
    then have "sint d > sint maxDelay \<or> sint d \<le> 0"
      unfolding d_def by (intro large_delays [unfolded list_all_iff, rule_format]) (simp only: set_upt atLeastLessThan_iff)
    moreover have "\<not> k < 5" using 2(1) by simp
    ultimately show ?thesis using max by (simp only: if_True if_False simp_thms)
  next
    case 3
    then have "push_bit k (1 :: 64 word) = 0" by (simp add: push_bit_eq_mult exp_eq_0_imp_not_bit)
    then have "d = 0" unfolding d_def by (simp only: mult_zero_right)
    with 3 show ?thesis by (simp add: max)
  qed
qed

lemma unat_nonneg: "0 \<le> sint (a :: 64 word) \<Longrightarrow> unat a = nat (sint a)"
proof -
  assume "0 \<le> sint a"
  moreover have "sint a < 2 ^ 63" using sint_less [of a] by simp
  ultimately have "uint (word_of_int (sint a) :: 64 word) = sint a"
    unfolding uint_word_of_int by simp
  then show ?thesis by (simp only: of_int_sint scast_id flip: nat_uint_eq)
qed

lemma sint_small: "- (2 ^ 63) \<le> n \<Longrightarrow> n < 2 ^ 63 \<Longrightarrow> sint (word_of_int n :: 64 word) = n"
  by (simp add: signed_of_int signed_take_bit_int_eq_self)

definition exp_delay :: "nat \<Rightarrow> int" where
  "exp_delay k = (if k < 5 then 500000000 * 2 ^ k else 15000000000)"

lemma exp_delay_bounds: "500000000 \<le> exp_delay k" "exp_delay k \<le> 15000000000"
proof -
  have "2 ^ k \<le> (16 :: int)" if "k < 5"
    using power_increasing [of k 4 "2 :: int"] that by simp
  then show "500000000 \<le> exp_delay k" "exp_delay k \<le> 15000000000" by (auto simp: exp_delay_def)
qed

lemma backoff_value:
  assumes "random_source rnd"
  shows "\<exists>j. nextBackoff rnd attempt = Some (word_of_int (exp_delay (nat (sint attempt))) + j) \<and>
    0 \<le> sint j \<and> 2 * sint j < exp_delay (nat (sint attempt))"
proof -
  define a where "a = (if sint attempt < 0 then 0 else attempt)"
  define delay where "delay = exp_delay (nat (sint attempt))"
  have "unat a = nat (sint attempt)"
    using unat_nonneg [of attempt] by (simp add: a_def)
  then have clamp: "(if sint (base * push_bit (unat a) 1) > sint maxDelay \<or> sint (base * push_bit (unat a) 1) \<le> 0
      then maxDelay else base * push_bit (unat a) 1) = word_of_int delay"
    using clamped_delay [of "unat a"] by (simp only: delay_def exp_delay_def)
  note bounds = exp_delay_bounds [of "nat (sint attempt)", folded delay_def]
  then have sd: "sint (word_of_int delay :: duration) = delay" by (intro sint_small) simp_all
  define half where "half = delay sdiv 2"
  have h: "half = delay div 2" using bounds by (simp add: half_def signed_divide_int_def)
  then have sh: "sint (word_of_int half :: duration) = half" using bounds by (intro sint_small) simp_all
  define j where "j = rnd (word_of_int half)"
  have j: "0 \<le> sint j" "2 * sint j < delay"
    using assms [unfolded random_source_def, rule_format, of "word_of_int half"] sh h bounds
    unfolding j_def by linarith+
  have "Int63n rnd (word_of_int half) = Some j"
    using sh h bounds by (simp add: Int63n_def j_def)
  then have "nextBackoff rnd attempt = Some (word_of_int delay + j)"
    unfolding nextBackoff_def Let_def a_def [symmetric] clamp sd half_def [symmetric] by simp
  with j show ?thesis unfolding delay_def by blast
qed

text \<open>
  C35: the reconnect delay. Whatever the number of failed attempts, also a negative or a huge one for
  which the shift and the product overflow, a delay is computed without a panic: half a second
  doubled for each failed attempt, 15 seconds from the fifth on, plus a jitter of less than half
  of that. So every delay is at least half a second and less than 22.5 seconds.
\<close>

theorem nextBackoff_delay:
  assumes "random_source rnd"
  shows "\<exists>d. nextBackoff rnd attempt = Some d \<and>
    (let k = nat (sint attempt); delay = (if k < 5 then 500000000 * 2 ^ k else 15000000000)
     in delay \<le> sint d \<and> 2 * sint d < 3 * delay) \<and>
    500000000 \<le> sint d \<and> sint d < 22500000000"
proof -
  define delay where "delay = exp_delay (nat (sint attempt))"
  note bounds = exp_delay_bounds [of "nat (sint attempt)", folded delay_def]
  from backoff_value [OF assms, of attempt] obtain j where
    j: "nextBackoff rnd attempt = Some (word_of_int delay + j)" "0 \<le> sint j" "2 * sint j < delay"
    unfolding delay_def by blast
  have "sint (word_of_int delay + j) = sint (word_of_int (delay + sint j) :: duration)" by simp
  also have "\<dots> = delay + sint j" using bounds j by (intro sint_small) simp_all
  finally have "sint (word_of_int delay + j) = delay + sint j" .
  with bounds j show ?thesis
    unfolding Let_def exp_delay_def [symmetric] delay_def [symmetric] by simp
qed

theorem nextBackoff_delay_witness:
  "random_source (\<lambda>n. n - 1) \<and>
   (\<exists>d. nextBackoff (\<lambda>n. n - 1) 70 = Some d \<and> 15000000000 \<le> sint d \<and> sint d < 22500000000)"
proof -
  have "sint (n - 1) = sint n - 1" if "0 < sint n" for n :: "64 word"
  proof -
    have "sint (word_of_int (sint n - 1) :: 64 word) = sint n - 1"
      using that sint_less [of n] by (intro sint_small) simp_all
    then show ?thesis by simp
  qed
  then have "random_source (\<lambda>n. n - 1)" by (simp add: random_source_def)
  moreover have "\<not> nat (sint (70 :: 64 word)) < 5" by simp
  ultimately show ?thesis using nextBackoff_delay [of "\<lambda>n. n - 1" 70] by (auto simp: Let_def)
qed

section \<open>Life of a goroutine\<close>

text \<open>
  The steps of one goroutine: each with the order of the clients, the random source and the
  input.
\<close>

type_synonym watcher_action = "(nat list \<Rightarrow> nat list) \<times> (duration \<Rightarrow> 64 word) \<times> watcher_input"

definition watcher_step :: "nat \<Rightarrow> DiscoveryWatchManager \<Rightarrow> watcher_action \<Rightarrow> DiscoveryWatchManager option" where
  "watcher_step i m a = (case a of (ord, rnd, inp) \<Rightarrow> watchDiscovery ord rnd i inp m)"

text \<open>An input that answers the call in which the goroutine blocks.\<close>

fun answers :: "bool \<Rightarrow> watcher_pc \<Rightarrow> watcher_input \<Rightarrow> bool" where
  "answers done Open_stream inp \<longleftrightarrow> inp \<in> {Open_failed, Opened}"
| "answers done Receiving inp \<longleftrightarrow> inp \<notin> {Proceed, Open_failed, Opened, Wait_ended True, Wait_ended False}"
| "answers done (Backing_off d) inp \<longleftrightarrow> (case inp of Wait_ended timer \<Rightarrow> timer \<or> done | _ \<Rightarrow> False)"
| "answers done _ inp \<longleftrightarrow> True"

definition is_response :: "watcher_input \<Rightarrow> bool" where
  "is_response inp \<longleftrightarrow> (\<exists>r. inp = Recv_response r)"

fun distance :: "watcher_pc \<Rightarrow> nat" where
  "distance Open_stream = 4"
| "distance Receiving = 3"
| "distance (Backing_off d) = 2"
| "distance Loop_top = 1"
| "distance Stopped = 0"

text \<open>
  Well-formedness of the store: channels are never closed, every hub's clients are channels, and
  every goroutine's hub exists.
\<close>

definition hub_wf :: "chan_store \<Rightarrow> Hub \<Rightarrow> bool" where
  "hub_wf st h \<longleftrightarrow> distinct (keys (clients h)) \<and> (\<forall>ch \<in> set (keys (clients h)). ch < length st)"

definition store_wf :: "DiscoveryWatchManager \<Rightarrow> bool" where
  "store_wf m \<longleftrightarrow> (\<forall>c \<in> set (chans m). \<not> ch_closed c) \<and> (\<forall>h \<in> set (hubs m). hub_wf (chans m) h) \<and>
     (\<forall>w \<in> set (watchers m). wt_hub w < length (hubs m))"

lemma Broadcast_deliver:
  assumes "range_order ord" and "hub_wf st h" and "\<forall>c \<in> set st. \<not> ch_closed c"
  shows "\<exists>n. Broadcast ord e h (st, cs) =
    Some (deliver e (set (keys (clients h))) st, cs @ replicate n (Inc broadcastDroppedEvents))"
  using broadcast_loop_deliver [of "ord (keys (clients h))" st e cs] assms
  by (auto simp: Broadcast_def hub_wf_def)

lemma deliver_open: "\<forall>c \<in> set st. \<not> ch_closed c \<Longrightarrow> \<forall>c \<in> set (deliver e S st). \<not> ch_closed c"
  by (auto simp: deliver_def)

text \<open>What a response does: the event is delivered and counted, nothing else changes.\<close>

lemma watch_response_delivers:
  assumes "store_wf m" and "range_order ord" and "i < length (watchers m)"
  shows "\<exists>data n. affiliatesToJSON (f_WatchResponse_Affiliates resp) (f_WatchResponse_Deleted resp) = Inr data \<and>
    watch_response ord rnd i resp m =
      Some (m\<lparr>chans := deliver \<lparr>evt_Data = data\<rparr> (set (keys (clients (hubs m ! wt_hub (watchers m ! i))))) (chans m),
              calls := (calls m @ [Inc watchEvents]) @ replicate n (Inc broadcastDroppedEvents)\<rparr>)"
proof -
  obtain data where data: "affiliatesToJSON (f_WatchResponse_Affiliates resp) (f_WatchResponse_Deleted resp) = Inr data"
    by (simp add: affiliatesToJSON_def Marshal_def)
  have "hubs m ! wt_hub (watchers m ! i) \<in> set (hubs m)" using assms by (simp add: store_wf_def)
  then have "hub_wf (chans m) (hubs m ! wt_hub (watchers m ! i))" "\<forall>c \<in> set (chans m). \<not> ch_closed c"
    using assms(1) by (simp_all add: store_wf_def)
  from Broadcast_deliver [OF assms(2) this, of "\<lparr>evt_Data = data\<rparr>" "calls m @ [Inc watchEvents]"] data
  show ?thesis by (auto simp: watch_response_def go_defs)
qed

lemma store_wf_deliver:
  "store_wf m \<Longrightarrow> store_wf (m\<lparr>chans := deliver e S (chans m), calls := cs\<rparr>)"
  using deliver_open by (auto simp: store_wf_def hub_wf_def)

lemma store_wf_put_watcher:
  "store_wf m \<Longrightarrow> i < length (watchers m) \<Longrightarrow> wt_hub w = wt_hub (watchers m ! i) \<Longrightarrow> store_wf (put_watcher i w cs m)"
  by (auto simp: store_wf_def put_watcher_def dest!: set_update_subset_insert [THEN subsetD])

text \<open>
  What a step of a goroutine changes: its own place and attempt counter, the contents of channels
  and the metrics other than the two gauges.
\<close>

definition same_setup :: "nat \<Rightarrow> DiscoveryWatchManager \<Rightarrow> DiscoveryWatchManager \<Rightarrow> bool" where
  "same_setup i m m' \<longleftrightarrow>
     hubs m' = hubs m \<and> entries m' = entries m \<and> root_done m' = root_done m \<and>
     length (chans m') = length (chans m) \<and> (\<forall>j < length (chans m). ch_cap (chans m' ! j) = ch_cap (chans m ! j)) \<and>
     length (watchers m') = length (watchers m) \<and>
     (\<forall>j < length (watchers m). j \<noteq> i \<longrightarrow> watchers m' ! j = watchers m ! j) \<and>
     wt_cluster (watchers m' ! i) = wt_cluster (watchers m ! i) \<and>
     wt_hub (watchers m' ! i) = wt_hub (watchers m ! i) \<and>
     wt_cancelled (watchers m' ! i) = wt_cancelled (watchers m ! i) \<and>
     reading activeSubscribers (calls m') = reading activeSubscribers (calls m) \<and>
     reading activeDiscoveryWatchers (calls m') = reading activeDiscoveryWatchers (calls m)"

lemma same_setup_put_watcher:
  "i < length (watchers m) \<Longrightarrow> wt_cluster w = wt_cluster (watchers m ! i) \<Longrightarrow> wt_hub w = wt_hub (watchers m ! i) \<Longrightarrow>
   wt_cancelled w = wt_cancelled (watchers m ! i) \<Longrightarrow> reading activeSubscribers cs = 0 \<Longrightarrow>
   reading activeDiscoveryWatchers cs = 0 \<Longrightarrow> same_setup i m (put_watcher i w cs m)"
  by (auto simp: same_setup_def put_watcher_def)

lemma same_setup_deliver:
  "reading activeSubscribers cs = 0 \<Longrightarrow> reading activeDiscoveryWatchers cs = 0 \<Longrightarrow>
   same_setup i m (m\<lparr>chans := deliver e S (chans m), calls := calls m @ cs\<rparr>)"
  by (auto simp: same_setup_def)

text \<open>
  A good step returns, keeps the store well-formed and the set-up of the manager, and, once the
  goroutine's context is done, an answered call brings it nearer to its end unless it was a
  response; a goroutine whose context is not done does not end.
\<close>

definition good_step :: "nat \<Rightarrow> watcher_input \<Rightarrow> DiscoveryWatchManager \<Rightarrow> DiscoveryWatchManager option \<Rightarrow> bool" where
  "good_step i inp m r \<longleftrightarrow> (\<exists>m'. r = Some m' \<and> store_wf m' \<and> same_setup i m m' \<and>
     (ctx_done m (watchers m ! i) \<and> answers True (wt_pc (watchers m ! i)) inp \<longrightarrow>
        distance (wt_pc (watchers m' ! i)) \<le> distance (wt_pc (watchers m ! i)) - (if is_response inp then 0 else 1)) \<and>
     (\<not> ctx_done m (watchers m ! i) \<and> wt_pc (watchers m ! i) \<noteq> Stopped \<longrightarrow> wt_pc (watchers m' ! i) \<noteq> Stopped))"

lemma good_stay:
  assumes "store_wf m"
    and "wt_pc (watchers m ! i) = Stopped \<or>
      \<not> (ctx_done m (watchers m ! i) \<and> answers True (wt_pc (watchers m ! i)) inp)"
  shows "good_step i inp m (Some m)"
  using assms by (auto simp: good_step_def same_setup_def)

lemma good_move:
  assumes "store_wf m" and "i < length (watchers m)"
    and "reading activeSubscribers cs = 0" and "reading activeDiscoveryWatchers cs = 0"
    and "ctx_done m (watchers m ! i) \<longrightarrow> distance q \<le> distance (wt_pc (watchers m ! i)) - 1"
    and "\<not> ctx_done m (watchers m ! i) \<longrightarrow> q \<noteq> Stopped"
  shows "good_step i inp m (Some (put_watcher i ((watchers m ! i)\<lparr>wt_attempt := a, wt_pc := q\<rparr>) cs m))"
proof -
  let ?w = "(watchers m ! i)\<lparr>wt_attempt := a, wt_pc := q\<rparr>"
  have "store_wf (put_watcher i ?w cs m)" "same_setup i m (put_watcher i ?w cs m)"
    "watchers (put_watcher i ?w cs m) ! i = ?w"
    using assms store_wf_put_watcher [of m i ?w cs] same_setup_put_watcher [of i m ?w cs]
    by (simp_all add: put_watcher_def)
  with assms(5,6) show ?thesis by (auto simp: good_step_def)
qed

lemma good_pc:
  assumes "store_wf m" and "i < length (watchers m)"
    and "reading activeSubscribers cs = 0" and "reading activeDiscoveryWatchers cs = 0"
    and "ctx_done m (watchers m ! i) \<longrightarrow> distance q \<le> distance (wt_pc (watchers m ! i)) - 1"
    and "\<not> ctx_done m (watchers m ! i) \<longrightarrow> q \<noteq> Stopped"
  shows "good_step i inp m (Some (put_watcher i ((watchers m ! i)\<lparr>wt_pc := q\<rparr>) cs m))"
  using good_move [OF assms, of inp "wt_attempt (watchers m ! i)"] by simp

lemma good_back_off:
  assumes "store_wf m" and "i < length (watchers m)" and "random_source rnd"
    and "reading activeSubscribers cs = 0" and "reading activeDiscoveryWatchers cs = 0"
    and "wt_pc (watchers m ! i) \<in> {Open_stream, Receiving}"
  shows "good_step i inp m (back_off rnd i cs m)"
proof -
  obtain d where "nextBackoff rnd (wt_attempt (watchers m ! i)) = Some d"
    using backoff_value [OF assms(3)] by blast
  with assms show ?thesis by (auto simp: back_off_def intro!: good_pc)
qed

lemma good_response:
  assumes "store_wf m" and "i < length (watchers m)" and "range_order ord"
  shows "good_step i (Recv_response resp) m (watch_response ord rnd i resp m)"
proof -
  obtain e S n where "watch_response ord rnd i resp m = Some (m\<lparr>chans := deliver e S (chans m),
      calls := calls m @ (Inc watchEvents # replicate n (Inc broadcastDroppedEvents))\<rparr>)"
    using watch_response_delivers [OF assms(1,3,2), of resp rnd] by auto
  then show ?thesis
    using store_wf_deliver [OF assms(1)]
      same_setup_deliver [of "Inc watchEvents # replicate n (Inc broadcastDroppedEvents)" i m]
    by (auto simp: good_step_def is_response_def)
qed

lemma watchDiscovery_good:
  assumes "store_wf m" and "i < length (watchers m)" and "random_source rnd" and "range_order ord"
  shows "good_step i inp m (watchDiscovery ord rnd i inp m)"
proof (cases "wt_pc (watchers m ! i)")
  case Loop_top
  with assms show ?thesis by (auto simp: watchDiscovery_def Let_def intro!: good_pc)
next
  case Open_stream
  with assms show ?thesis
    by (auto simp: watchDiscovery_def Let_def split: watcher_input.split
        intro!: good_back_off good_move good_stay)
next
  case Receiving
  with assms show ?thesis
    by (cases inp) (auto simp: watchDiscovery_def Let_def intro!: good_back_off good_response good_stay)
next
  case (Backing_off d)
  with assms show ?thesis
    by (cases inp) (auto simp: watchDiscovery_def waitWithContext_def Let_def
        intro!: good_pc good_move good_stay)
next
  case Stopped
  with assms show ?thesis by (auto simp: watchDiscovery_def Let_def intro!: good_stay)
qed

definition sound_action :: "watcher_action \<Rightarrow> bool" where
  "sound_action a \<longleftrightarrow> (case a of (ord, rnd, inp) \<Rightarrow> range_order ord \<and> random_source rnd)"

abbreviation input_of :: "watcher_action \<Rightarrow> watcher_input" where
  "input_of a \<equiv> snd (snd a)"

lemma watcher_run_distance:
  assumes "store_wf m" and "i < length (watchers m)" and "ctx_done m (watchers m ! i)"
    and "\<forall>a \<in> set acts. sound_action a"
    and "all_steps (watcher_step i) (\<lambda>m a. answers True (wt_pc (watchers m ! i)) (input_of a)) m acts"
  shows "\<exists>m'. run (watcher_step i) m acts = Some m' \<and>
    distance (wt_pc (watchers m' ! i)) \<le>
      distance (wt_pc (watchers m ! i)) - length (filter (\<lambda>a. \<not> is_response (input_of a)) acts)"
  using assms
proof (induction acts arbitrary: m)
  case (Cons a acts)
  obtain ord rnd inp where a: "a = (ord, rnd, inp)" by (cases a)
  with Cons.prems(4) have "random_source rnd" "range_order ord" by (simp_all add: sound_action_def)
  from watchDiscovery_good [OF Cons.prems(1,2) this, of inp] Cons.prems(3,5)
  obtain m1 where m1: "watcher_step i m a = Some m1" "store_wf m1" "same_setup i m m1"
    "distance (wt_pc (watchers m1 ! i)) \<le> distance (wt_pc (watchers m ! i)) - (if is_response inp then 0 else 1)"
    by (auto simp: good_step_def watcher_step_def a)
  then have "i < length (watchers m1)" "ctx_done m1 (watchers m1 ! i)"
    using Cons.prems(2,3) by (auto simp: same_setup_def ctx_done_def)
  with Cons.IH [of m1] Cons.prems(4,5) m1 obtain m' where
    "run (watcher_step i) m1 acts = Some m'"
    "distance (wt_pc (watchers m' ! i)) \<le>
      distance (wt_pc (watchers m1 ! i)) - length (filter (\<lambda>a. \<not> is_response (input_of a)) acts)"
    by auto
  with m1 show ?case by (auto simp: a)
qed simp

lemma distance_le: "distance p \<le> 4" "distance p = 0 \<longleftrightarrow> p = Stopped"
  by (cases p; simp)+

text \<open>
  C34: a cancelled watch ends. From any point of the loop, once its context is done, the goroutine
  returns after at most four answered calls besides the responses it still receives: opening the
  stream, a receive that fails or meets the end, a wait and the check at the top of the loop.
  Neither an endless reconnect loop nor a panic can keep it running.
\<close>

theorem cancelled_watcher_stops:
  assumes "store_wf m" and "i < length (watchers m)" and "ctx_done m (watchers m ! i)"
    and "\<forall>a \<in> set acts. sound_action a"
    and "all_steps (watcher_step i) (\<lambda>m a. answers True (wt_pc (watchers m ! i)) (input_of a)) m acts"
    and "4 \<le> length (filter (\<lambda>a. \<not> is_response (input_of a)) acts)"
  shows "\<exists>m'. run (watcher_step i) m acts = Some m' \<and> wt_pc (watchers m' ! i) = Stopped"
proof -
  from watcher_run_distance [OF assms(1-5)] obtain m' where
    "run (watcher_step i) m acts = Some m'" "distance (wt_pc (watchers m' ! i)) \<le>
      distance (wt_pc (watchers m ! i)) - length (filter (\<lambda>a. \<not> is_response (input_of a)) acts)" by blast
  with assms(6) distance_le(1) [of "wt_pc (watchers m ! i)"] distance_le(2) [of "wt_pc (watchers m' ! i)"]
  show ?thesis by auto
qed

definition demo_manager :: DiscoveryWatchManager where
  "demo_manager = \<lparr>chans = [make_chan 1], hubs = [\<lparr>clients = [(0, ())]\<rparr>],
     watchers = [\<lparr>wt_cluster = ''c'', wt_hub = 0, wt_cancelled = True, wt_attempt = 0, wt_pc = Open_stream\<rparr>],
     entries = [], root_done = False, calls = []\<rparr>"

definition demo_actions :: "watcher_action list" where
  "demo_actions = map (\<lambda>inp. (\<lambda>ks. ks, \<lambda>n. 0, inp))
     [Opened, Recv_response \<lparr>f_WatchResponse_Affiliates = [], f_WatchResponse_Deleted = False\<rparr>,
      Recv_failed, Wait_ended True, Proceed]"

theorem cancelled_watcher_stops_witness:
  "\<exists>m'. run (watcher_step 0) demo_manager demo_actions = Some m' \<and> wt_pc (watchers m' ! 0) = Stopped"
proof (rule cancelled_watcher_stops)
  show "store_wf demo_manager" by (simp add: demo_manager_def store_wf_def hub_wf_def)
  show "\<forall>a \<in> set demo_actions. sound_action a"
    by (simp add: demo_actions_def sound_action_def random_source_def)
  show "all_steps (watcher_step 0) (\<lambda>m a. answers True (wt_pc (watchers m ! 0)) (input_of a)) demo_manager demo_actions"
    by code_simp
qed (simp_all add: demo_manager_def demo_actions_def ctx_done_def is_response_def)

end
