(* ===== verification/Web_Endpoints.thy ===== *)
theory Web_Endpoints
  imports Watch_Manager ClusterServer
begin

text \<open>
  The HTTP endpoints of the web front end (\<^verbatim>\<open>internal/web/discovery_endpoints.go\<close>). The HTTP
  framework is not part of the repository: a handler's reply is the call it makes on the
  framework's context, that is the status with the value to be rendered as JSON, the file to be
  served, or the events it streams.
\<close>

section \<open>Replies\<close>

datatype json_body = H_error string | H_affiliates "affiliateJSON list"

datatype reply = Reply_JSON nat json_body | Reply_Data nat string bytes | Reply_Status nat

text \<open>The message of an error: a status prints its code and its text.\<close>

fun code_name :: "Code \<Rightarrow> string" where
  "code_name OK = ''OK''"
| "code_name Canceled = ''Canceled''"
| "code_name Unknown = ''Unknown''"
| "code_name InvalidArgument = ''InvalidArgument''"
| "code_name DeadlineExceeded = ''DeadlineExceeded''"
| "code_name NotFound = ''NotFound''"
| "code_name AlreadyExists = ''AlreadyExists''"
| "code_name PermissionDenied = ''PermissionDenied''"
| "code_name ResourceExhausted = ''ResourceExhausted''"
| "code_name FailedPrecondition = ''FailedPrecondition''"
| "code_name Aborted = ''Aborted''"
| "code_name OutOfRange = ''OutOfRange''"
| "code_name Unimplemented = ''Unimplemented''"
| "code_name Internal = ''Internal''"
| "code_name Unavailable = ''Unavailable''"
| "code_name DataLoss = ''DataLoss''"
| "code_name Unauthenticated = ''Unauthenticated''"

fun error_text :: "go_error \<Rightarrow> string" where
  "error_text (Status c msg) = ''rpc error: code = '' @ code_name c @ '' desc = '' @ msg"
| "error_text CtxCanceled = ''context canceled''"
| "error_text CtxDeadlineExceeded = ''context deadline exceeded''"
| "error_text (Plain msg) = msg"

fun code_to_http :: "Code \<Rightarrow> nat" where
  "code_to_http InvalidArgument = 400"
| "code_to_http FailedPrecondition = 400"
| "code_to_http OutOfRange = 400"
| "code_to_http Unauthenticated = 401"
| "code_to_http PermissionDenied = 403"
| "code_to_http NotFound = 404"
| "code_to_http AlreadyExists = 409"
| "code_to_http Aborted = 409"
| "code_to_http ResourceExhausted = 429"
| "code_to_http Canceled = 504"
| "code_to_http DeadlineExceeded = 504"
| "code_to_http Unimplemented = 501"
| "code_to_http Unavailable = 503"
| "code_to_http _ = 500"

definition grpcErrorToHTTPStatus :: "go_error option \<Rightarrow> nat" where
  "grpcErrorToHTTPStatus err = code_to_http (status_Code err)"

section \<open>Embedded files\<close>

text \<open>The embedded file system is generated from the files of the repository; it is a parameter.\<close>

definition serveEmbedded :: "(string \<Rightarrow> bytes option) \<Rightarrow> string \<Rightarrow> string \<Rightarrow> reply" where
  "serveEmbedded ReadFile name contentType =
     (case ReadFile name of
        None \<Rightarrow> Reply_Status 404
      | Some b \<Rightarrow> Reply_Data 200 contentType b)"

section \<open>Listing\<close>

definition list_entry :: "pb_Affiliate \<Rightarrow> affiliateJSON" where
  "list_entry a =
     \<lparr>aj_ID = Affiliate_GetId (Some a),
      aj_Data = EncodeToString (Affiliate_GetData (Some a)),
      aj_Endpoints = Some (map EncodeToString (Affiliate_GetEndpoints (Some a)))\<rparr>"

text \<open>The client's call \<^verbatim>\<open>List\<close> is a parameter.\<close>

definition listAffiliatesHandler ::
  "(pb_ListRequest option \<Rightarrow> go_error + pb_ListResponse) \<Rightarrow> string \<Rightarrow> reply" where
  "listAffiliatesHandler client_List clusterID =
     (case client_List (Some \<lparr>f_ListRequest_ClusterId = clusterID\<rparr>) of
        Inl err \<Rightarrow> Reply_JSON (grpcErrorToHTTPStatus (Some err)) (H_error (error_text err))
      | Inr resp \<Rightarrow> Reply_JSON 200 (H_affiliates (map list_entry (ListResponse_GetAffiliates (Some resp)))))"

section \<open>Routes\<close>

text \<open>
  The engine as the GET routes registered on it, in order. Matching a path against them is the
  framework's.
\<close>

datatype route_handler =
    Page string string | List_affiliates | Watch_affiliates | Health | Metrics_handler

type_synonym engine = "(string \<times> route_handler) list"

definition addDiscoveryEndpoints :: "engine \<Rightarrow> engine" where
  "addDiscoveryEndpoints engine = engine @
     [(''/'', Page ''index.html'' ''text/html; charset=utf-8''),
      (''/index.html'', Page ''index.html'' ''text/html; charset=utf-8''),
      (''/inspect.html'', Page ''inspect.html'' ''text/html; charset=utf-8''),
      (''/styles.css'', Page ''styles.css'' ''text/css; charset=utf-8''),
      (''/api/clusters/:id/affiliates'', List_affiliates),
      (''/api/clusters/:id/watch'', Watch_affiliates)]"

section \<open>Streaming\<close>

text \<open>
  A streaming handler: its cluster, its channel, the events it has written and whether it still
  runs. It blocks in one \<^verbatim>\<open>select\<close>, whose cases are the end of the request, an event and the
  ticker. Its deferred call unsubscribes it.
\<close>

record sse =
  sse_cluster :: string
  sse_chan :: nat
  sse_out :: "(string \<times> string) list"
  sse_open :: bool

record web =
  mgr :: DiscoveryWatchManager
  handlers :: "sse list"

definition sse_headers :: "(string \<times> string) list" where
  "sse_headers = [(''Content-Type'', ''text/event-stream''), (''Cache-Control'', ''no-cache''),
     (''Connection'', ''keep-alive''), (''X-Accel-Buffering'', ''no'')]"

definition watchAffiliatesHandler :: "string \<Rightarrow> web \<Rightarrow> web" where
  "watchAffiliatesHandler clusterID w =
     (case Subscribe clusterID (mgr w) of (ch, m) \<Rightarrow>
        w\<lparr>mgr := m, handlers := handlers w @ [\<lparr>sse_cluster = clusterID, sse_chan = ch, sse_out = [], sse_open = True\<rparr>]\<rparr>)"

datatype sse_case = Request_ended | Event_ready | Ping_ticked

definition put_handler :: "nat \<Rightarrow> sse \<Rightarrow> DiscoveryWatchManager \<Rightarrow> web \<Rightarrow> web" where
  "put_handler j h m w = w\<lparr>mgr := m, handlers := (handlers w)[j := h]\<rparr>"

definition sse_write :: "string \<times> string \<Rightarrow> sse \<Rightarrow> sse" where
  "sse_write e h = h\<lparr>sse_out := sse_out h @ [e]\<rparr>"

definition sse_step :: "nat \<Rightarrow> sse_case \<Rightarrow> web \<Rightarrow> web" where
  "sse_step j c w =
     (let h = handlers w ! j; m = mgr w in
      if \<not> sse_open h then w
      else case c of
        Request_ended \<Rightarrow> put_handler j (h\<lparr>sse_open := False\<rparr>) (Unsubscribe (sse_cluster h) (sse_chan h) m) w
      | Ping_ticked \<Rightarrow> put_handler j (sse_write (''ping'', '''') h) m w
      | Event_ready \<Rightarrow>
          (case recv_chan (chans m ! sse_chan h) of
             (Blocked, _) \<Rightarrow> w
           | (Got e, ch) \<Rightarrow>
               put_handler j (sse_write (''update'', evt_Data e) h) (m\<lparr>chans := (chans m)[sse_chan h := ch]\<rparr>) w
           | (Drained, _) \<Rightarrow> put_handler j (sse_write (''update'', '''') h) m w))"

end
