(* ===== verification/Web_Runs.thy ===== *)
theory Web_Runs
  imports Web_Endpoints
begin

text \<open>
  All executions of the web front end: browsers open streams, streams write events, pings or end,
  and the watching goroutines run, in any order. The invariant ties the reference counts, the
  hubs, the goroutines and the gauges to the streams that are open.
\<close>

datatype web_op =
    Open string
  | Stream nat sse_case
  | Watcher nat watcher_action
  | Root_cancelled

fun web_exec :: "web \<Rightarrow> web_op \<Rightarrow> web option" where
  "web_exec w (Open k) = Some (watchAffiliatesHandler k w)"
| "web_exec w (Stream j c) = Some (if j < length (handlers w) then sse_step j c w else w)"
| "web_exec w (Watcher i a) =
     (if i < length (watchers (mgr w))
      then (case watcher_step i (mgr w) a of None \<Rightarrow> None | Some m \<Rightarrow> Some (w\<lparr>mgr := m\<rparr>))
      else Some w)"
| "web_exec w Root_cancelled = Some (w\<lparr>mgr := (mgr w)\<lparr>root_done := True\<rparr>\<rparr>)"

fun web_op_ok :: "web_op \<Rightarrow> bool" where
  "web_op_ok (Watcher i a) \<longleftrightarrow> sound_action a"
| "web_op_ok _ \<longleftrightarrow> True"

definition fresh_web :: web where
  "fresh_web = \<lparr>mgr = \<lparr>chans = [], hubs = [], watchers = [], entries = [], root_done = False, calls = []\<rparr>, handlers = []\<rparr>"

section \<open>The invariant\<close>

definition open_streams :: "sse list \<Rightarrow> nat set" where
  "open_streams hs = {j. j < length hs \<and> sse_open (hs ! j)}"

definition streams_of :: "sse list \<Rightarrow> string \<Rightarrow> nat set" where
  "streams_of hs k = {j \<in> open_streams hs. sse_cluster (hs ! j) = k}"

definition entry_ok :: "DiscoveryWatchManager \<Rightarrow> nat set \<Rightarrow> string \<Rightarrow> watchEntry \<Rightarrow> bool" where
  "entry_ok m S k e \<longleftrightarrow>
     entry_cancel e = entry_hub e \<and> entry_hub e < length (watchers m) \<and>
     wt_cluster (watchers m ! entry_hub e) = k \<and> \<not> wt_cancelled (watchers m ! entry_hub e) \<and>
     set (keys (clients (hubs m ! entry_hub e))) = S \<and> entry_refs e = int (card S)"

definition mgr_ok :: "DiscoveryWatchManager \<Rightarrow> bool" where
  "mgr_ok m \<longleftrightarrow> store_wf m \<and> distinct (keys (entries m)) \<and> length (hubs m) = length (watchers m) \<and>
     (\<forall>i < length (watchers m). wt_hub (watchers m ! i) = i) \<and>
     (\<forall>i < length (watchers m). \<not> wt_cancelled (watchers m ! i) \<longrightarrow>
        (\<exists>e. map_of (entries m) (wt_cluster (watchers m ! i)) = Some e \<and> entry_hub e = i)) \<and>
     (\<forall>i < length (watchers m). \<not> ctx_done m (watchers m ! i) \<longrightarrow> wt_pc (watchers m ! i) \<noteq> Stopped) \<and>
     reading activeDiscoveryWatchers (calls m) = int (length (entries m))"

definition streams_ok :: "DiscoveryWatchManager \<Rightarrow> sse list \<Rightarrow> bool" where
  "streams_ok m hs \<longleftrightarrow> length (chans m) = length hs \<and> (\<forall>j < length hs. sse_chan (hs ! j) = j) \<and>
     (\<forall>k e. map_of (entries m) k = Some e \<longrightarrow> entry_ok m (streams_of hs k) k e) \<and>
     (\<forall>k. map_of (entries m) k = None \<longrightarrow> streams_of hs k = {}) \<and>
     (\<forall>j < length (chans m). ch_cap (chans m ! j) = subscriberChannelSize) \<and>
     reading activeSubscribers (calls m) = int (card (open_streams hs))"

definition web_inv :: "web \<Rightarrow> bool" where
  "web_inv w \<longleftrightarrow> mgr_ok (mgr w) \<and> streams_ok (mgr w) (handlers w) \<and>
     (\<forall>k e. map_of (entries (mgr w)) k = Some e \<longrightarrow> streams_of (handlers w) k \<noteq> {})"

lemma finite_streams [simp]: "finite (open_streams hs)" "finite (streams_of hs k)"
  by (simp_all add: open_streams_def streams_of_def)

lemma open_streams_snoc:
  "open_streams (hs @ [h]) = (if sse_open h then insert (length hs) (open_streams hs) else open_streams hs)"
  by (auto simp: open_streams_def nth_append less_Suc_eq)

lemma streams_of_snoc:
  "sse_open h \<Longrightarrow> streams_of (hs @ [h]) k =
     (if sse_cluster h = k then insert (length hs) (streams_of hs k) else streams_of hs k)"
  by (auto simp: streams_of_def open_streams_snoc) (auto simp: open_streams_def nth_append)

lemma length_not_open: "length hs \<notin> open_streams hs" "length hs \<notin> streams_of hs k"
  by (simp_all add: open_streams_def streams_of_def)

section \<open>Opening a stream\<close>

lemma start_watcher_mgr_ok:
  assumes "mgr_ok m" and "map_of (entries m) k = None"
  shows "mgr_ok (start_watcher k m)"
proof -
  have "store_wf (start_watcher k m)"
    using assms by (auto simp: mgr_ok_def store_wf_def start_watcher_def NewHub_def hub_wf_def less_Suc_eq)
  moreover have "wt_cluster (watchers m ! i) \<noteq> k" if "i < length (watchers m)" "\<not> wt_cancelled (watchers m ! i)" for i
    using assms that by (auto simp: mgr_ok_def)
  ultimately show ?thesis
    using assms by (auto simp: mgr_ok_def start_watcher_def nth_append less_Suc_eq ctx_done_def)
qed

lemma start_watcher_streams_ok:
  assumes "mgr_ok m" and "streams_ok m hs" and "map_of (entries m) k = None"
  shows "streams_ok (start_watcher k m) hs"
proof -
  have "length (hubs m) = length (watchers m)" using assms(1) by (simp add: mgr_ok_def)
  then show ?thesis
    using assms(2,3) by (auto simp: streams_ok_def entry_ok_def start_watcher_def nth_append NewHub_def intro: less_SucI)
qed

lemma hub_wf_more: "hub_wf st h \<Longrightarrow> length st \<le> length st' \<Longrightarrow> hub_wf st' h"
  by (auto simp: hub_wf_def)

lemma Hub_Subscribe_result:
  assumes "Hub_Subscribe st h = (ch, st', h')" and "hub_wf st h"
  shows "ch = length st" and "st' = st @ [make_chan 64]" and "hub_wf st' h'"
    and "set (keys (clients h')) = insert (length st) (set (keys (clients h)))"
proof -
  from assms(1) have r: "ch = length st" "st' = st @ [make_chan 64]"
    "h' = h\<lparr>clients := AList.update (length st) () (clients h)\<rparr>"
    by (auto simp: Hub_Subscribe_def Let_def subscriberChannelSize_def)
  then show "ch = length st" "st' = st @ [make_chan 64]" by simp_all
  show ks: "set (keys (clients h')) = insert (length st) (set (keys (clients h)))"
    by (simp add: r dom_update)
  from assms(2) show "hub_wf st' h'" unfolding hub_wf_def ks by (auto simp: r)
qed

lemma store_wf_hub: "store_wf m \<Longrightarrow> i < length (hubs m) \<Longrightarrow> hub_wf (chans m) (hubs m ! i)"
  by (simp add: store_wf_def)

lemma entry_in_range: "mgr_ok m \<Longrightarrow> streams_ok m hs \<Longrightarrow> map_of (entries m) k = Some e \<Longrightarrow> entry_hub e < length (hubs m)"
  by (auto simp: mgr_ok_def streams_ok_def entry_ok_def)

lemma join_entry_mgr_ok:
  assumes "mgr_ok m" and "streams_ok m hs" and "map_of (entries m) k = Some e"
    and "join_entry k e m = (ch, m')"
  shows "mgr_ok m'"
proof -
  have e: "entry_hub e < length (hubs m)" by (rule entry_in_range [OF assms(1-3)])
  have wf: "store_wf m" using assms(1) by (simp add: mgr_ok_def)
  obtain st h where sub: "Hub_Subscribe (chans m) (hubs m ! entry_hub e) = (ch, st, h)"
    and m': "m' = m\<lparr>entries := AList.update k (e\<lparr>entry_refs := entry_refs e + 1\<rparr>) (entries m),
               calls := calls m @ [Inc activeSubscribers], chans := st, hubs := (hubs m)[entry_hub e := h]\<rparr>"
    using assms(4) by (auto simp: join_entry_def split: prod.splits)
  note res = Hub_Subscribe_result [OF sub store_wf_hub [OF wf e]]
  have "\<forall>g \<in> set ((hubs m)[entry_hub e := h]). hub_wf st g"
    using wf res by (auto simp: store_wf_def intro: hub_wf_more dest!: set_update_subset_insert [THEN subsetD])
  with wf have "store_wf m'" by (simp add: store_wf_def m' res(2))
  then show ?thesis using assms(1,3) by (auto simp: mgr_ok_def m' ctx_done_def)
qed

lemma join_entry_streams_ok:
  assumes "mgr_ok m" and "streams_ok m hs" and "map_of (entries m) k = Some e"
    and "join_entry k e m = (ch, m')"
  shows "streams_ok m' (hs @ [\<lparr>sse_cluster = k, sse_chan = ch, sse_out = [], sse_open = True\<rparr>])"
proof -
  have e: "entry_hub e < length (hubs m)" by (rule entry_in_range [OF assms(1-3)])
  have wf: "store_wf m" using assms(1) by (simp add: mgr_ok_def)
  obtain st h where sub: "Hub_Subscribe (chans m) (hubs m ! entry_hub e) = (ch, st, h)"
    and m': "m' = m\<lparr>entries := AList.update k (e\<lparr>entry_refs := entry_refs e + 1\<rparr>) (entries m),
               calls := calls m @ [Inc activeSubscribers], chans := st, hubs := (hubs m)[entry_hub e := h]\<rparr>"
    using assms(4) by (auto simp: join_entry_def split: prod.splits)
  note res = Hub_Subscribe_result [OF sub store_wf_hub [OF wf e]]
  have ch: "ch = length hs" using assms(2) res(1) by (simp add: streams_ok_def)
  let ?hs = "hs @ [\<lparr>sse_cluster = k, sse_chan = ch, sse_out = [], sse_open = True\<rparr>]"
  have ok: "entry_ok m (streams_of hs k') k' e'" if "map_of (entries m) k' = Some e'" for k' e'
    using assms(2) that by (simp add: streams_ok_def)
  have "entry_ok m' (streams_of ?hs k) k (e\<lparr>entry_refs := entry_refs e + 1\<rparr>)"
    using ok [OF assms(3)] e res ch length_not_open(2) [of hs k] assms(2)
    by (simp add: entry_ok_def m' streams_of_snoc streams_ok_def)
  moreover have "entry_ok m' (streams_of ?hs k') k' e'" if "map_of (entries m) k' = Some e'" "k' \<noteq> k" for k' e'
  proof -
    have "entry_hub e' \<noteq> entry_hub e" using ok [OF that(1)] ok [OF assms(3)] that(2) by (auto simp: entry_ok_def)
    with ok [OF that(1)] that(2) show ?thesis by (simp add: entry_ok_def m' streams_of_snoc)
  qed
  moreover have "\<forall>j < length ?hs. sse_chan (?hs ! j) = j"
    using assms(2) ch by (auto simp: streams_ok_def nth_append less_Suc_eq)
  ultimately show ?thesis
    using assms(2,3) res(2) length_not_open(1) [of hs]
    by (auto simp: streams_ok_def m' streams_of_snoc open_streams_snoc nth_append less_Suc_eq
        subscriberChannelSize_def split: if_splits)
qed

lemma Open_inv: "web_inv w \<Longrightarrow> web_inv (watchAffiliatesHandler k w)"
proof -
  assume inv: "web_inv w"
  define m1 where "m1 = (if map_of (entries (mgr w)) k = None then start_watcher k (mgr w) else mgr w)"
  have m1: "mgr_ok m1" "streams_ok m1 (handlers w)"
    using inv start_watcher_mgr_ok start_watcher_streams_ok by (auto simp: web_inv_def m1_def)
  obtain e where e: "map_of (entries m1) k = Some e"
    by (cases "map_of (entries (mgr w)) k") (auto simp: m1_def start_watcher_def)
  obtain ch m' where j: "join_entry k e m1 = (ch, m')" by force
  have keys: "map_of (entries m') k' \<noteq> None \<longleftrightarrow> k' = k \<or> map_of (entries (mgr w)) k' \<noteq> None" for k'
    using j by (auto simp: join_entry_def m1_def start_watcher_def split: prod.splits if_splits)
  have "watchAffiliatesHandler k w =
      w\<lparr>mgr := m', handlers := handlers w @ [\<lparr>sse_cluster = k, sse_chan = ch, sse_out = [], sse_open = True\<rparr>]\<rparr>"
    using e j by (simp add: watchAffiliatesHandler_def Subscribe_def Let_def flip: m1_def)
  moreover have "streams_of (handlers w) k' \<noteq> {}" if "map_of (entries (mgr w)) k' \<noteq> None" for k'
    using inv that by (auto simp: web_inv_def)
  ultimately show ?thesis
    using join_entry_mgr_ok [OF m1 e j] join_entry_streams_ok [OF m1 e j] keys
    by (auto simp: web_inv_def streams_of_snoc)
qed

section \<open>Ending a stream\<close>

abbreviation end_stream :: "sse list \<Rightarrow> nat \<Rightarrow> sse list" where
  "end_stream hs j \<equiv> hs[j := (hs ! j)\<lparr>sse_open := False\<rparr>]"

lemma streams_end:
  assumes "j < length hs"
  shows "open_streams (end_stream hs j) = open_streams hs - {j}"
    and "streams_of (end_stream hs j) k = streams_of hs k - {j}"
proof -
  show o: "open_streams (end_stream hs j) = open_streams hs - {j}"
    using assms by (auto simp: open_streams_def nth_list_update split: if_splits)
  show "streams_of (end_stream hs j) k = streams_of hs k - {j}"
    unfolding streams_of_def o by (auto simp: nth_list_update split: if_splits)
qed

lemma Hub_Unsubscribe_wf:
  "hub_wf st h \<Longrightarrow> hub_wf st (Hub_Unsubscribe ch h)"
  "set (keys (clients (Hub_Unsubscribe ch h))) = set (keys (clients h)) - {ch}"
  by (auto simp: hub_wf_def Hub_Unsubscribe_def keys_delete set_delete)

text \<open>The effect of leaving, in one piece: the hub loses the client; the last one takes the entry along.\<close>

lemma Unsubscribe_result:
  assumes "map_of (entries m) k = Some e"
  shows "Unsubscribe k ch m =
    m\<lparr>hubs := (hubs m)[entry_hub e := Hub_Unsubscribe ch (hubs m ! entry_hub e)],
      watchers := (if entry_refs e \<le> 1
        then (watchers m)[entry_cancel e := (watchers m ! entry_cancel e)\<lparr>wt_cancelled := True\<rparr>] else watchers m),
      entries := (if entry_refs e \<le> 1 then AList.delete k (entries m)
        else AList.update k (e\<lparr>entry_refs := entry_refs e - 1\<rparr>) (entries m)),
      calls := calls m @ Dec activeSubscribers # (if entry_refs e \<le> 1 then [Dec activeDiscoveryWatchers] else [])\<rparr>"
  using assms by (simp add: Unsubscribe_def Let_def)

lemma Unsubscribe_store_wf:
  assumes "store_wf m" and "map_of (entries m) k = Some e" and "entry_cancel e < length (watchers m)"
    and "entry_hub e < length (hubs m)"
  shows "store_wf (Unsubscribe k ch m)"
proof -
  have "\<forall>h \<in> set ((hubs m)[entry_hub e := Hub_Unsubscribe ch (hubs m ! entry_hub e)]). hub_wf (chans m) h"
    using assms(1,4) Hub_Unsubscribe_wf(1)
    by (auto simp: store_wf_def dest!: set_update_subset_insert [THEN subsetD])
  moreover have "wt_hub (watchers m ! entry_cancel e) < length (hubs m)"
    using assms(1,3) by (simp add: store_wf_def)
  ultimately show ?thesis
    using assms(1) by (auto simp: store_wf_def Unsubscribe_result [OF assms(2)]
        dest!: set_update_subset_insert [THEN subsetD] split: if_splits)
qed

lemma Unsubscribe_mgr_ok:
  assumes "mgr_ok m" and "streams_ok m hs" and "map_of (entries m) k = Some e"
  shows "mgr_ok (Unsubscribe k ch m)"
proof -
  let ?m = "Unsubscribe k ch m"
  have e: "entry_cancel e = entry_hub e" "entry_hub e < length (watchers m)" "wt_cluster (watchers m ! entry_hub e) = k"
    using assms by (auto simp: streams_ok_def entry_ok_def)
  have live: "\<exists>e'. map_of (entries ?m) (wt_cluster (watchers ?m ! i)) = Some e' \<and> entry_hub e' = i"
    if "i < length (watchers ?m)" "\<not> wt_cancelled (watchers ?m ! i)" for i
  proof -
    from that e(1,2) have i: "i < length (watchers m)" "\<not> wt_cancelled (watchers m ! i)" "entry_refs e \<le> 1 \<longrightarrow> i \<noteq> entry_hub e"
      and w: "wt_cluster (watchers ?m ! i) = wt_cluster (watchers m ! i)"
      by (auto simp: Unsubscribe_result [OF assms(3)] nth_list_update split: if_splits)
    with assms(1) obtain e' where e': "map_of (entries m) (wt_cluster (watchers m ! i)) = Some e'" "entry_hub e' = i"
      by (auto simp: mgr_ok_def)
    show ?thesis
    proof (cases "wt_cluster (watchers m ! i) = k")
      case True
      with e' assms(3) i(3) show ?thesis unfolding w by (auto simp: Unsubscribe_result [OF assms(3)])
    next
      case False
      with e' show ?thesis unfolding w by (auto simp: Unsubscribe_result [OF assms(3)])
    qed
  qed
  have "length (AList.delete k (entries m)) = length (entries m) - 1" "0 < length (entries m)"
    using assms(1,3) gm.len_del [of "entries m" k] by (auto simp: mgr_ok_def)
  then have "int (length (AList.delete k (entries m))) = int (length (entries m)) - 1" by linarith
  then have "reading activeDiscoveryWatchers (calls ?m) = int (length (entries ?m))"
    using assms(1,3) by (simp add: mgr_ok_def Unsubscribe_result [OF assms(3)])
  with live Unsubscribe_store_wf [of m k e ch] assms(1,3) e show ?thesis
    by (auto simp: mgr_ok_def Unsubscribe_result [OF assms(3)] ctx_done_def nth_list_update)
qed

lemma Unsubscribe_streams_ok:
  assumes "mgr_ok m" and "streams_ok m hs" and "map_of (entries m) k = Some e" and "j \<in> streams_of hs k"
  shows "streams_ok (Unsubscribe k j m) (end_stream hs j)"
proof -
  let ?m = "Unsubscribe k j m"
  have j: "j < length hs" "j \<in> open_streams hs" "sse_cluster (hs ! j) = k"
    using assms(4) by (auto simp: streams_of_def open_streams_def)
  have ok: "entry_ok m (streams_of hs k') k' e'" if "map_of (entries m) k' = Some e'" for k' e'
    using assms(2) that by (simp add: streams_ok_def)
  have refs: "entry_refs e = int (card (streams_of hs k))" "entry_cancel e = entry_hub e"
      "entry_hub e < length (hubs m)"
    using ok [OF assms(3)] assms(1) by (auto simp: entry_ok_def mgr_ok_def)
  have card: "int (card (streams_of hs k - {j})) = entry_refs e - 1" "int (card (open_streams hs - {j})) = int (card (open_streams hs)) - 1"
    using card_Suc_Diff1 [OF finite_streams(2) assms(4)] card_Suc_Diff1 [OF finite_streams(1) j(2)] refs(1) by linarith+
  have last: "entry_refs e \<le> 1 \<longleftrightarrow> streams_of hs k - {j} = {}"
  proof -
    have "entry_refs e \<le> 1 \<longleftrightarrow> card (streams_of hs k - {j}) = 0" using card(1) by linarith
    then show ?thesis by (simp only: card_eq_0_iff finite_Diff finite_streams simp_thms)
  qed
  have same: "entry_ok ?m (streams_of (end_stream hs j) k') k' e'" if "map_of (entries m) k' = Some e'" "k' \<noteq> k" for k' e'
  proof -
    have "entry_hub e' \<noteq> entry_hub e" using ok [OF that(1)] ok [OF assms(3)] that(2) by (auto simp: entry_ok_def)
    moreover have "j \<notin> streams_of hs k'" using j(3) that(2) by (auto simp: streams_of_def)
    ultimately show ?thesis
      using ok [OF that(1)] refs(2) by (simp add: entry_ok_def Unsubscribe_result [OF assms(3)] streams_end [OF j(1)])
  qed
  have "entry_ok ?m (streams_of (end_stream hs j) k) k (e\<lparr>entry_refs := entry_refs e - 1\<rparr>)" if "\<not> entry_refs e \<le> 1"
    using ok [OF assms(3)] that card(1) refs(3) Hub_Unsubscribe_wf(2)
    by (simp add: entry_ok_def Unsubscribe_result [OF assms(3)] streams_end [OF j(1)])
  with same have "\<forall>k' e'. map_of (entries ?m) k' = Some e' \<longrightarrow> entry_ok ?m (streams_of (end_stream hs j) k') k' e'"
    by (auto simp: Unsubscribe_result [OF assms(3)] split: if_splits)
  moreover have "\<forall>k'. map_of (entries ?m) k' = None \<longrightarrow> streams_of (end_stream hs j) k' = {}"
    using assms(2) last
    by (auto simp: streams_ok_def Unsubscribe_result [OF assms(3)] streams_end [OF j(1)] split: if_splits)
  moreover have "\<forall>i < length (end_stream hs j). sse_chan (end_stream hs j ! i) = i"
    using assms(2) j(1) by (simp add: streams_ok_def nth_list_update)
  ultimately show ?thesis
    using assms(2) card(2) by (simp add: streams_ok_def Unsubscribe_result [OF assms(3)] streams_end [OF j(1)])
qed

text \<open>A stream that ends leaves the invariant in place, with its entry when it was the last one.\<close>

lemma end_stream_inv:
  assumes "web_inv w" and "j < length (handlers w)" and "sse_open (handlers w ! j)"
  defines "h \<equiv> handlers w ! j"
  shows "web_inv (put_handler j (h\<lparr>sse_open := False\<rparr>) (Unsubscribe (sse_cluster h) (sse_chan h) (mgr w)) w)"
proof -
  let ?k = "sse_cluster h" and ?m = "mgr w" and ?hs = "handlers w"
  have ok: "mgr_ok ?m" "streams_ok ?m ?hs" and ne: "\<And>k e. map_of (entries ?m) k = Some e \<Longrightarrow> streams_of ?hs k \<noteq> {}"
    using assms(1) by (simp_all add: web_inv_def)
  have j: "j \<in> streams_of ?hs ?k" "sse_chan h = j"
    using assms(2,3) ok(2) by (auto simp: streams_of_def open_streams_def h_def streams_ok_def)
  then obtain e where e: "map_of (entries ?m) ?k = Some e"
    using ok(2) by (cases "map_of (entries ?m) ?k") (auto simp: streams_ok_def)
  note un = Unsubscribe_result [OF e, of j]
  have refs: "entry_refs e = int (card (streams_of ?hs ?k))" using ok(2) e by (auto simp: streams_ok_def entry_ok_def)
  have "streams_of (end_stream ?hs j) k' \<noteq> {}" if "map_of (entries (Unsubscribe ?k j ?m)) k' = Some e'" for k' e'
  proof (cases "k' = ?k")
    case True
    with that have "1 < card (streams_of ?hs ?k)" using refs by (auto simp: un split: if_splits)
    then have "\<not> streams_of ?hs ?k \<subseteq> {j}"
      by (metis card_mono finite.emptyI finite.insertI is_singletonI is_singleton_altdef linorder_not_less)
    with True show ?thesis by (auto simp: streams_end [OF assms(2)])
  next
    case False
    with that ne have "streams_of ?hs k' \<noteq> {}" by (auto simp: un split: if_splits)
    moreover have "j \<notin> streams_of ?hs k'" using False by (auto simp: streams_of_def h_def)
    ultimately show ?thesis by (auto simp: streams_end [OF assms(2)])
  qed
  then show ?thesis
    using Unsubscribe_mgr_ok [OF ok e, of j] Unsubscribe_streams_ok [OF ok e j(1)] j(2)
    by (auto simp: web_inv_def put_handler_def h_def)
qed

section \<open>The other steps\<close>

text \<open>A step that keeps the streams' identities and the manager's set-up keeps the invariant.\<close>

definition same_streams :: "sse list \<Rightarrow> sse list \<Rightarrow> bool" where
  "same_streams hs hs' \<longleftrightarrow> map (\<lambda>h. (sse_cluster h, sse_chan h, sse_open h)) hs' =
     map (\<lambda>h. (sse_cluster h, sse_chan h, sse_open h)) hs"

lemma same_streams_facts:
  assumes "same_streams hs hs'"
  shows "length hs' = length hs" and "open_streams hs' = open_streams hs" and "streams_of hs' k = streams_of hs k"
    and "j < length hs \<Longrightarrow> sse_chan (hs' ! j) = sse_chan (hs ! j)"
proof -
  show l: "length hs' = length hs" using assms map_eq_imp_length_eq by (auto simp: same_streams_def)
  have "sse_cluster (hs' ! i) = sse_cluster (hs ! i) \<and> sse_chan (hs' ! i) = sse_chan (hs ! i) \<and>
      sse_open (hs' ! i) = sse_open (hs ! i)" if "i < length hs" for i
    using assms that l by (auto simp: same_streams_def list_eq_iff_nth_eq)
  then show "open_streams hs' = open_streams hs" "streams_of hs' k = streams_of hs k"
    "j < length hs \<Longrightarrow> sse_chan (hs' ! j) = sse_chan (hs ! j)"
    using l by (auto simp: open_streams_def streams_of_def)
qed

lemma same_setup_streams_ok:
  assumes "streams_ok m hs" and "same_setup i m m'" and "same_streams hs hs'"
  shows "streams_ok m' hs'"
proof -
  have "wt_cluster (watchers m' ! n) = wt_cluster (watchers m ! n) \<and>
      wt_cancelled (watchers m' ! n) = wt_cancelled (watchers m ! n)" if "n < length (watchers m)" for n
    using assms(2) that by (cases "n = i") (auto simp: same_setup_def)
  moreover have "hubs m' = hubs m" "length (watchers m') = length (watchers m)"
    using assms(2) by (simp_all add: same_setup_def)
  ultimately have "entry_ok m' S k e" if "entry_ok m S k e" for S k e
    using that by (simp add: entry_ok_def)
  with assms show ?thesis
    by (auto simp: streams_ok_def same_streams_facts same_setup_def)
qed

lemma same_setup_mgr_ok:
  assumes "mgr_ok m" and "same_setup i m m'" and "store_wf m'" and "i < length (watchers m)"
    and "\<not> ctx_done m (watchers m ! i) \<longrightarrow> wt_pc (watchers m' ! i) \<noteq> Stopped"
  shows "mgr_ok m'"
proof -
  have w: "wt_cluster (watchers m' ! n) = wt_cluster (watchers m ! n)" "wt_hub (watchers m' ! n) = wt_hub (watchers m ! n)"
      "wt_cancelled (watchers m' ! n) = wt_cancelled (watchers m ! n)" if "n < length (watchers m)" for n
    using assms(2) that by (cases "n = i"; auto simp: same_setup_def)+
  have "wt_pc (watchers m' ! n) \<noteq> Stopped" if "n < length (watchers m)" "\<not> ctx_done m' (watchers m' ! n)" for n
  proof -
    have "\<not> ctx_done m (watchers m ! n)" using that w(3) assms(2) by (auto simp: ctx_done_def same_setup_def)
    then show ?thesis using assms(1,2,5) that(1) by (cases "n = i") (auto simp: mgr_ok_def same_setup_def)
  qed
  with assms(1-3) w show ?thesis by (auto simp: mgr_ok_def same_setup_def)
qed

lemma recv_open:
  "\<not> ch_closed c \<Longrightarrow> recv_chan c = (r, c') \<Longrightarrow> r \<noteq> Drained \<and> \<not> ch_closed c' \<and> ch_cap c' = ch_cap c"
  by (auto simp: recv_chan_def split: list.splits)

lemma put_handler_inv:
  assumes "web_inv w" and "same_streams (handlers w) ((handlers w)[j := h])"
    and "\<forall>c \<in> set cs. \<not> ch_closed c" and "map ch_cap cs = map ch_cap (chans (mgr w))"
  shows "web_inv (put_handler j h ((mgr w)\<lparr>chans := cs\<rparr>) w)"
proof -
  let ?m = "mgr w" and ?m' = "(mgr w)\<lparr>chans := cs\<rparr>"
  have len: "length cs = length (chans ?m)" and cap: "\<forall>i < length cs. ch_cap (cs ! i) = ch_cap (chans ?m ! i)"
    using assms(4) by (auto simp: list_eq_iff_nth_eq)
  note same = same_streams_facts [OF assms(2)]
  have "store_wf ?m'" "mgr_ok ?m" using assms(1,3) len by (auto simp: web_inv_def mgr_ok_def store_wf_def hub_wf_def)
  then have "mgr_ok ?m'" by (auto simp: mgr_ok_def ctx_done_def)
  moreover have "streams_ok ?m' ((handlers w)[j := h])"
    using assms(1) len cap same by (auto simp: web_inv_def streams_ok_def entry_ok_def)
  ultimately show ?thesis using assms(1) same(3) by (simp add: web_inv_def put_handler_def)
qed

lemma sse_write_same: "j < length hs \<Longrightarrow> same_streams hs (hs[j := sse_write e (hs ! j)])"
  by (auto simp: same_streams_def sse_write_def list_eq_iff_nth_eq nth_list_update)

lemma Stream_inv:
  assumes "web_inv w" and "j < length (handlers w)"
  shows "web_inv (sse_step j c w)"
proof -
  let ?h = "handlers w ! j" and ?m = "mgr w"
  have opened: "\<forall>c \<in> set (chans ?m). \<not> ch_closed c" and ch: "sse_chan ?h < length (chans ?m)"
    using assms by (auto simp: web_inv_def mgr_ok_def store_wf_def streams_ok_def)
  have written: "web_inv (put_handler j (sse_write e ?h) (?m\<lparr>chans := cs\<rparr>) w)"
    if "\<forall>c \<in> set cs. \<not> ch_closed c" "map ch_cap cs = map ch_cap (chans ?m)" for e cs
    using put_handler_inv [OF assms(1) sse_write_same [OF assms(2)] that] .
  obtain r c' where r: "recv_chan (chans ?m ! sse_chan ?h) = (r, c')" by force
  with recv_open [OF _ r] opened ch have c': "r \<noteq> Drained" "\<not> ch_closed c'" "ch_cap c' = ch_cap (chans ?m ! sse_chan ?h)" by auto
  have "map ch_cap ((chans ?m)[sse_chan ?h := c']) = map ch_cap (chans ?m)"
    by (simp add: map_update c'(3)) (metis list_update_id map_update)
  moreover have "\<forall>c \<in> set ((chans ?m)[sse_chan ?h := c']). \<not> ch_closed c"
    using opened c'(2) by (auto dest!: set_update_subset_insert [THEN subsetD])
  ultimately show ?thesis
    using written [of "(chans ?m)[sse_chan ?h := c']"] written [OF opened refl] end_stream_inv [OF assms] assms(1) r c'(1)
    by (auto simp: sse_step_def Let_def split: sse_case.split recv.split)
qed

lemma Watcher_inv:
  assumes "web_inv w" and "sound_action a" and "i < length (watchers (mgr w))"
  shows "\<exists>m. watcher_step i (mgr w) a = Some m \<and> web_inv (w\<lparr>mgr := m\<rparr>)"
proof -
  obtain ord rnd inp where a: "a = (ord, rnd, inp)" by (cases a)
  have wf: "store_wf (mgr w)" "random_source rnd" "range_order ord"
    using assms by (simp_all add: a sound_action_def web_inv_def mgr_ok_def)
  from watchDiscovery_good [OF wf(1) assms(3) wf(2,3), of inp] obtain m where
    m: "watcher_step i (mgr w) a = Some m" "store_wf m" "same_setup i (mgr w) m"
      "\<not> ctx_done (mgr w) (watchers (mgr w) ! i) \<and> wt_pc (watchers (mgr w) ! i) \<noteq> Stopped \<longrightarrow> wt_pc (watchers m ! i) \<noteq> Stopped"
    by (auto simp: good_step_def watcher_step_def a)
  have ok: "mgr_ok (mgr w)" "streams_ok (mgr w) (handlers w)" using assms(1) by (simp_all add: web_inv_def)
  then have "\<not> ctx_done (mgr w) (watchers (mgr w) ! i) \<longrightarrow> wt_pc (watchers m ! i) \<noteq> Stopped"
    using m(4) assms(3) by (auto simp: mgr_ok_def)
  with same_setup_mgr_ok [OF ok(1) m(3,2) assms(3)] same_setup_streams_ok [OF ok(2) m(3), of "handlers w"] m assms(1)
  show ?thesis by (auto simp: web_inv_def same_streams_def same_setup_def)
qed

lemma Root_inv: "web_inv w \<Longrightarrow> web_inv (w\<lparr>mgr := (mgr w)\<lparr>root_done := True\<rparr>\<rparr>)"
  by (auto simp: web_inv_def mgr_ok_def streams_ok_def store_wf_def entry_ok_def ctx_done_def)

section \<open>Executions\<close>

interpretation web_machine: total_machine web_exec web_op_ok "\<lambda>_. web_inv"
proof unfold_locales
  fix s x
  assume inv: "web_inv s" and ok: "web_op_ok x"
  show "\<exists>s'. web_exec s x = Some s' \<and> web_inv s'"
  proof (cases x)
    case (Watcher i a)
    with inv ok Watcher_inv [OF inv, of a i] show ?thesis by auto
  qed (use inv Open_inv Stream_inv Root_inv in auto)
qed

lemma fresh_web_inv: "web_inv fresh_web"
  by (auto simp: web_inv_def fresh_web_def mgr_ok_def streams_ok_def store_wf_def streams_of_def open_streams_def)

definition live_watchers :: "DiscoveryWatchManager \<Rightarrow> string \<Rightarrow> nat set" where
  "live_watchers m k = {i. i < length (watchers m) \<and> \<not> wt_cancelled (watchers m ! i) \<and> wt_cluster (watchers m ! i) = k}"

lemma live_watchers_entry:
  assumes "web_inv w"
  shows "live_watchers (mgr w) k =
    (case map_of (entries (mgr w)) k of None \<Rightarrow> {} | Some e \<Rightarrow> {entry_hub e})"
proof -
  have sub: "i \<in> live_watchers (mgr w) k \<Longrightarrow> \<exists>e. map_of (entries (mgr w)) k = Some e \<and> entry_hub e = i" for i
    using assms by (auto simp: live_watchers_def web_inv_def mgr_ok_def)
  have sup: "entry_hub e \<in> live_watchers (mgr w) k" if "map_of (entries (mgr w)) k = Some e" for e
  proof -
    have "entry_ok (mgr w) (streams_of (handlers w) k) k e"
      using assms that by (simp add: web_inv_def streams_ok_def)
    then show ?thesis by (simp add: live_watchers_def entry_ok_def)
  qed
  show ?thesis
  proof (cases "map_of (entries (mgr w)) k")
    case None
    then show ?thesis using sub by auto
  next
    case (Some e)
    then have "i = entry_hub e" if "i \<in> live_watchers (mgr w) k" for i using sub [OF that] by simp
    then have "live_watchers (mgr w) k = {entry_hub e}" using sup [OF Some] by blast
    then show ?thesis by (simp only: Some option.simps)
  qed
qed

text \<open>
  C30: one upstream watch per cluster that is being looked at. After any execution from the start,
  and none panics: a cluster has exactly one running watch, not cancelled, when browsers stream
  it, and none otherwise; the reference count is the number of its open streams; the clients of
  its hub are exactly their channels; its goroutine has not returned unless the whole service is
  stopping; and the gauges of subscribers and of watches show the number of open streams and of
  clusters with a watch.
\<close>

theorem web_accounting:
  assumes "\<forall>x \<in> set xs. web_op_ok x"
  shows "\<exists>w. run web_exec fresh_web xs = Some w \<and>
    (\<forall>k. let streams = {j. j < length (handlers w) \<and> sse_open (handlers w ! j) \<and> sse_cluster (handlers w ! j) = k} in
       case map_of (entries (mgr w)) k of
         None \<Rightarrow> streams = {} \<and> live_watchers (mgr w) k = {}
       | Some e \<Rightarrow> streams \<noteq> {} \<and> entry_refs e = int (card streams) \<and>
           live_watchers (mgr w) k = {entry_hub e} \<and>
           set (keys (clients (hubs (mgr w) ! entry_hub e))) = (\<lambda>j. sse_chan (handlers w ! j)) ` streams \<and>
           (root_done (mgr w) \<or> wt_pc (watchers (mgr w) ! entry_hub e) \<noteq> Stopped)) \<and>
    reading activeSubscribers (calls (mgr w)) = int (card {j. j < length (handlers w) \<and> sse_open (handlers w ! j)}) \<and>
    reading activeDiscoveryWatchers (calls (mgr w)) = int (length (entries (mgr w)))"
proof -
  from web_machine.run_total [where s = fresh_web and xs = xs] fresh_web_inv assms
  obtain w where w: "run web_exec fresh_web xs = Some w" "web_inv w" by auto
  have streams: "{j. j < length (handlers w) \<and> sse_open (handlers w ! j) \<and> sse_cluster (handlers w ! j) = k} =
      streams_of (handlers w) k" for k
    by (auto simp: streams_of_def open_streams_def)
  have "(\<lambda>j. sse_chan (handlers w ! j)) ` streams_of (handlers w) k = streams_of (handlers w) k" for k
    using w(2) by (force simp: web_inv_def streams_ok_def streams_of_def open_streams_def)
  moreover have "{j. j < length (handlers w) \<and> sse_open (handlers w ! j)} = open_streams (handlers w)"
    by (simp add: open_streams_def)
  ultimately show ?thesis
    using w live_watchers_entry [OF w(2)]
    by (intro exI [of _ w])
      (auto simp: streams Let_def web_inv_def mgr_ok_def streams_ok_def entry_ok_def ctx_done_def split: option.split)
qed

definition demo_web_ops :: "web_op list" where
  "demo_web_ops = [Open ''c'', Open ''c'', Watcher 0 (\<lambda>ks. ks, \<lambda>n. 0, Proceed), Stream 0 Request_ended]"

theorem web_accounting_witness:
  "\<exists>w. run web_exec fresh_web demo_web_ops = Some w \<and> live_watchers (mgr w) ''c'' = {0} \<and>
     reading activeSubscribers (calls (mgr w)) = 1 \<and> reading activeDiscoveryWatchers (calls (mgr w)) = 1"
proof -
  have "\<forall>x \<in> set demo_web_ops. web_op_ok x"
    by (simp add: demo_web_ops_def sound_action_def random_source_def)
  from web_accounting [OF this] obtain w where w: "run web_exec fresh_web demo_web_ops = Some w"
    and k: "\<forall>k. let streams = {j. j < length (handlers w) \<and> sse_open (handlers w ! j) \<and> sse_cluster (handlers w ! j) = k} in
       case map_of (entries (mgr w)) k of
         None \<Rightarrow> streams = {} \<and> live_watchers (mgr w) k = {}
       | Some e \<Rightarrow> streams \<noteq> {} \<and> entry_refs e = int (card streams) \<and>
           live_watchers (mgr w) k = {entry_hub e} \<and>
           set (keys (clients (hubs (mgr w) ! entry_hub e))) = (\<lambda>j. sse_chan (handlers w ! j)) ` streams \<and>
           (root_done (mgr w) \<or> wt_pc (watchers (mgr w) ! entry_hub e) \<noteq> Stopped)"
    by (elim exE conjE) (rule that)
  have "map_option (\<lambda>w. (entries (mgr w), calls (mgr w))) (run web_exec fresh_web demo_web_ops) =
      Some ([(''c'', \<lparr>entry_hub = 0, entry_cancel = 0, entry_refs = 1\<rparr>)],
        [Inc activeDiscoveryWatchers, Inc activeSubscribers, Inc activeSubscribers, Dec activeSubscribers])"
    by code_simp
  with w have "entries (mgr w) = [(''c'', \<lparr>entry_hub = 0, entry_cancel = 0, entry_refs = 1\<rparr>)]"
    "calls (mgr w) = [Inc activeDiscoveryWatchers, Inc activeSubscribers, Inc activeSubscribers, Dec activeSubscribers]"
    by auto
  with w k [rule_format, of "''c''"] show ?thesis by (simp add: Let_def)
qed

end
