(* ===== verification/Server_Setup.thy ===== *)
theory Server_Setup
  imports Snapshot Server_Spec Web_Runs
begin

text \<open>
  How the process is put together: the configuration (\<^verbatim>\<open>internal/config/config.go\<close>), the
  interceptors (\<^verbatim>\<open>internal/server/discovery_server.go\<close>), the actors of the run group
  (\<^verbatim>\<open>internal/server/server.go\<close>, \<^verbatim>\<open>internal/runutil/server_actors.go\<close>) and the web server
  (\<^verbatim>\<open>internal/web/web_server.go\<close>, \<^verbatim>\<open>internal/web/server.go\<close>).

  Network listeners, TLS configuration, gRPC connections and the run group belong to other
  packages: what their calls return is a parameter. An actor is what it does on each signal it
  waits for.
\<close>

section \<open>Configuration\<close>

definition InMemoryTransport :: string where
  "InMemoryTransport = '':in-memory''"

record 't ServerConfig =
  Addr :: string
  ServerTLS :: 't

record 't ClientConfig =
  Target :: string
  ClientTLS :: 't

record ('t, 'u) ServiceCommandConfig =
  Server :: "'t ServerConfig"
  DiscoveryConf :: DiscoveryConfig
  WebServerConf :: "'t ServerConfig"
  WebEnable :: bool
  WebDiscoveryClient :: "'u ClientConfig"

record ('t, 'u) WebCommandConfig =
  web_WebServer :: "'t ServerConfig"
  web_WebDiscoveryClient :: "'u ClientConfig"

text \<open>The version recorded in the build information, when there is one, or the linked one.\<close>

definition GetBuildVersion :: "string option \<Rightarrow> string \<Rightarrow> string" where
  "GetBuildVersion build_info version =
     (case build_info of Some v \<Rightarrow> if v \<noteq> '''' then v else version | None \<Rightarrow> version)"

section \<open>Interceptors\<close>

text \<open>
  A unary interceptor wraps a handler from requests to a response and an error; a stream
  interceptor wraps one that only reports an error.
\<close>

definition normalizeContextUnaryServerInterceptor ::
  "('q \<Rightarrow> 'r \<times> go_error option) \<Rightarrow> 'q \<Rightarrow> 'r \<times> go_error option" where
  "normalizeContextUnaryServerInterceptor handler req =
     (case handler req of (resp, err) \<Rightarrow> (resp, normalizeContextErr err))"

definition normalizeContextStreamServerInterceptor :: "('q \<Rightarrow> go_error option) \<Rightarrow> 'q \<Rightarrow> go_error option" where
  "normalizeContextStreamServerInterceptor handler srv = normalizeContextErr (handler srv)"

definition debugStartUnaryInterceptor ::
  "('q \<Rightarrow> 'r \<times> go_error option) \<Rightarrow> string \<Rightarrow> 'q \<Rightarrow> (string \<times> string) \<times> 'r \<times> go_error option" where
  "debugStartUnaryInterceptor handler method req = ((method, ''unary''), handler req)"

definition methodType :: "bool \<Rightarrow> bool \<Rightarrow> string" where
  "methodType isClientStream isServerStream =
     (if isClientStream \<and> isServerStream then ''bidi_stream''
      else if isClientStream then ''client_stream''
      else ''server_stream'')"

definition debugStartStreamInterceptor ::
  "('q \<Rightarrow> go_error option) \<Rightarrow> string \<Rightarrow> bool \<Rightarrow> bool \<Rightarrow> 'q \<Rightarrow> (string \<times> string) \<times> go_error option" where
  "debugStartStreamInterceptor handler method isClientStream isServerStream srv =
     ((method, methodType isClientStream isServerStream), handler srv)"

datatype level = LevelDebug | LevelInfo | LevelWarn | LevelError | OtherLevel

definition call_level :: "(Code \<Rightarrow> level) \<Rightarrow> Code \<Rightarrow> level" where
  "call_level DefaultServerCodeToLevel cd =
     (if cd \<in> {OK, Canceled, DeadlineExceeded} then LevelInfo else DefaultServerCodeToLevel cd)"

fun grpcInterceptorLogger :: "level \<Rightarrow> level" where
  "grpcInterceptorLogger LevelDebug = LevelDebug"
| "grpcInterceptorLogger LevelInfo = LevelInfo"
| "grpcInterceptorLogger LevelWarn = LevelWarn"
| "grpcInterceptorLogger LevelError = LevelError"
| "grpcInterceptorLogger _ = LevelInfo"

text \<open>Wrapping an error in a message (\<^verbatim>\<open>fmt.Errorf\<close>), as far as its text goes.\<close>

fun wrap :: "string \<Rightarrow> go_error \<Rightarrow> go_error" where
  "wrap msg (Plain e) = Plain (msg @ e)"
| "wrap msg CtxCanceled = Plain (msg @ ''context canceled'')"
| "wrap msg CtxDeadlineExceeded = Plain (msg @ ''context deadline exceeded'')"
| "wrap msg (Status c e) = Plain (msg @ error_text (Status c e))"

section \<open>Listeners\<close>

text \<open>
  Building a listener: what \<^verbatim>\<open>net.Listen\<close> and the TLS configuration return are arguments. The
  result is the listener or the error, with whether a socket is left open.
\<close>

datatype listener = Plain_listener | TLS_listener

definition buildListener ::
  "('t \<Rightarrow> bool) \<Rightarrow> 't ServerConfig \<Rightarrow> string option \<Rightarrow> string option \<Rightarrow> (go_error + listener) \<times> bool" where
  "buildListener tls_Enable cfg listen_err tls_err =
     (case listen_err of
        Some e \<Rightarrow> (Inl (Plain (''error listening on '' @ Addr cfg @ '': '' @ e)), False)
      | None \<Rightarrow>
          if \<not> tls_Enable (ServerTLS cfg) then (Inr Plain_listener, True)
          else (case tls_err of
                  Some e \<Rightarrow> (Inl (Plain (''error creating TLS server config: '' @ e)), False)
                | None \<Rightarrow> (Inr TLS_listener, True)))"

text \<open>
  The actor of a listening server: it builds its listener, stores it in the variable that its
  interrupt function reads, and serves. Serving ends when the listener is closed, or by itself
  with an error.
\<close>

datatype listener_pc = Building | Serving | Ended "go_error option"

record listener_actor =
  la_pc :: listener_pc
  la_ln :: bool
  la_closed :: bool

definition AddListenerServer :: listener_actor where
  "AddListenerServer = \<lparr>la_pc = Building, la_ln = False, la_closed = False\<rparr>"

datatype listener_event = Built "go_error + listener" | Serve_failed go_error | Serve_closed | Interrupted

fun listener_step :: "listener_actor \<Rightarrow> listener_event \<Rightarrow> listener_actor option" where
  "listener_step a (Built r) =
     Some (if la_pc a \<noteq> Building then a
           else case r of
             Inl err \<Rightarrow> a\<lparr>la_pc := Ended (Some (wrap ''error building listener: '' err))\<rparr>
           | Inr _ \<Rightarrow> a\<lparr>la_pc := Serving, la_ln := True\<rparr>)"
| "listener_step a (Serve_failed err) = Some (if la_pc a = Serving then a\<lparr>la_pc := Ended (Some err)\<rparr> else a)"
| "listener_step a Serve_closed =
     Some (if la_pc a = Serving \<and> la_closed a then a\<lparr>la_pc := Ended None\<rparr> else a)"
| "listener_step a Interrupted = Some (if la_ln a then a\<lparr>la_closed := True\<rparr> else a)"

section \<open>The actors of the service\<close>

datatype actor_signal = Ctx_done | Ticked

text \<open>On a tick the cleanup actor cleans up; it returns when the context is done.\<close>

definition addCleanupActor :: "DiscoveryConfig \<Rightarrow> bool" where
  "addCleanupActor cfg \<longleftrightarrow> \<not> sint (CleanupInterval cfg) \<le> 0"

definition cleanup_actor ::
  "'m xsync \<Rightarrow> (uint64 list \<Rightarrow> uint64 list) \<Rightarrow> (string list \<Rightarrow> string list) \<Rightarrow> cleanup_clock \<Rightarrow>
   actor_signal \<Rightarrow> 'm State \<Rightarrow> (bool \<times> 'm State) option" where
  "cleanup_actor X so ao clk sig s =
     (case sig of
        Ctx_done \<Rightarrow> Some (True, s)
      | Ticked \<Rightarrow> map_option (Pair False) (Cleanup X so ao clk s))"

text \<open>
  The snapshot actor saves on every tick and once more when the context is done; a failed save is
  only logged. The result is whether it has returned and the states the files go through.
\<close>

definition addSnapshotActor :: "DiscoveryConfig \<Rightarrow> bool" where
  "addSnapshotActor cfg \<longleftrightarrow> \<not> (sint (SnapshotInterval cfg) \<le> 0 \<or> SnapshotPath cfg = '''')"

definition snapshot_actor ::
  "'m xsync \<Rightarrow> 'ts pbrt \<Rightarrow> (string list \<Rightarrow> string list) \<Rightarrow> string \<Rightarrow> actor_signal \<Rightarrow> io \<Rightarrow> 'm State \<Rightarrow> fs \<Rightarrow>
   bool \<times> fs list" where
  "snapshot_actor X R ao path sig os s fs =
     (case sig of
        Ctx_done \<Rightarrow> (True, fst (SaveSnapshot X R ao os path s fs))
      | Ticked \<Rightarrow> (False, fst (SaveSnapshot X R ao os path s fs)))"

text \<open>Its life: one entry per signal, with the state of the service at that time.\<close>

fun snapshot_actor_run ::
  "'m xsync \<Rightarrow> 'ts pbrt \<Rightarrow> (string list \<Rightarrow> string list) \<Rightarrow> string \<Rightarrow> (actor_signal \<times> io \<times> 'm State) list \<Rightarrow> fs \<Rightarrow>
   bool \<times> fs list" where
  "snapshot_actor_run X R ao path [] fs = (False, [fs])"
| "snapshot_actor_run X R ao path ((sig, os, s) # evs) fs =
     (case snapshot_actor X R ao path sig os s fs of
        (True, tr) \<Rightarrow> (True, tr)
      | (False, tr) \<Rightarrow> (case snapshot_actor_run X R ao path evs (last tr) of (r, tr') \<Rightarrow> (r, tr @ tr')))"

text \<open>
  The two actors that wait for the context: the first returns without an error, and its interrupt
  cancels the context; the second shuts a server down and reports its error.
\<close>

definition AddContextCancelActor :: "bool \<Rightarrow> go_error option option" where
  "AddContextCancelActor ctx_is_done = (if ctx_is_done then Some None else None)"

definition AddGracefulShutdownActor :: "string \<Rightarrow> go_error option \<Rightarrow> bool \<Rightarrow> go_error option option" where
  "AddGracefulShutdownActor component shutdown_err ctx_is_done =
     (if ctx_is_done
      then Some (case shutdown_err of Some e \<Rightarrow> Some (wrap (''shutdown '' @ component @ '': '') e) | None \<Rightarrow> None)
      else None)"

section \<open>The web server\<close>

text \<open>
  A discovery client is the connection it was made with. Closing it is an effect: the model returns
  the closed connections.
\<close>

record ('c, 'u, 'g) webServerOptions =
  discoveryClient :: "'c option"
  clientConfig :: "'u ClientConfig"
  metricsRegistry :: "'g option"

definition WithMetrics :: "'g \<Rightarrow> ('c, 'u, 'g) webServerOptions \<Rightarrow> ('c, 'u, 'g) webServerOptions" where
  "WithMetrics registry opts = opts\<lparr>metricsRegistry := Some registry\<rparr>"

definition WithClient :: "'c \<Rightarrow> ('c, 'u, 'g) webServerOptions \<Rightarrow> ('c, 'u, 'g) webServerOptions" where
  "WithClient client opts = opts\<lparr>discoveryClient := Some client\<rparr>"

definition WithClientConfig :: "'u ClientConfig \<Rightarrow> ('c, 'u, 'g) webServerOptions \<Rightarrow> ('c, 'u, 'g) webServerOptions" where
  "WithClientConfig cfg opts = opts\<lparr>clientConfig := cfg\<rparr>"

record 'c WebServer =
  ws_engine :: engine
  ws_manager :: DiscoveryWatchManager
  ws_client :: 'c

definition addHealthEndpoints :: "engine \<Rightarrow> engine" where
  "addHealthEndpoints engine = engine @ [(''/healthz'', Health), (''/readyz'', Health)]"

definition newEngine :: engine where
  "newEngine = addHealthEndpoints []"

definition web_client ::
  "('u ClientConfig \<Rightarrow> string + 'c) \<Rightarrow> ('c, 'u, 'g) webServerOptions \<Rightarrow> go_error + 'c" where
  "web_client NewDiscoveryClient opts =
     (case discoveryClient opts of
        Some client \<Rightarrow> Inr client
      | None \<Rightarrow>
          if Target (clientConfig opts) = ''''
          then Inl (Plain ''missing discovery client configuration: provide WithClient or WithClientConfig'')
          else (case NewDiscoveryClient (clientConfig opts) of
                  Inl e \<Rightarrow> Inl (Plain (''create discovery client: '' @ e))
                | Inr client \<Rightarrow> Inr client))"

definition NewWebServer ::
  "('u ClientConfig \<Rightarrow> string + 'c) \<Rightarrow> ('r \<Rightarrow> string \<Rightarrow> string option \<times> 'r) \<Rightarrow> 'u \<Rightarrow> 'r \<Rightarrow>
   (('c, 'u, 'g) webServerOptions \<Rightarrow> ('c, 'u, 'g) webServerOptions) list \<Rightarrow>
   (go_error + 'c WebServer) \<times> 'c list \<times> 'r" where
  "NewWebServer NewDiscoveryClient Register no_tls registry opts =
     (let serverOpts = fold (\<lambda>opt acc. opt acc) opts
            \<lparr>discoveryClient = None, clientConfig = \<lparr>Target = '''', ClientTLS = no_tls\<rparr>, metricsRegistry = None\<rparr>
      in case web_client NewDiscoveryClient serverOpts of
           Inl err \<Rightarrow> (Inl err, [], registry)
         | Inr client \<Rightarrow>
             (case NewDiscoveryWatchManager Register registry of
                (Inl e, r') \<Rightarrow> (Inl (Plain (''create discovery watch manager: '' @ e)), [client], r')
              | (Inr m, r') \<Rightarrow>
                  (Inr \<lparr>ws_engine = addDiscoveryEndpoints newEngine @
                          (if metricsRegistry serverOpts \<noteq> None then [(''/metrics'', Metrics_handler)] else []),
                        ws_manager = m, ws_client = client\<rparr>, [], r')))"

text \<open>What \<^verbatim>\<open>Serve\<close> and \<^verbatim>\<open>Shutdown\<close> of the HTTP server return; a closed server is not an error.\<close>

datatype serve_result = Server_closed | Serve_error go_error

definition RunListener :: "serve_result option \<Rightarrow> go_error option" where
  "RunListener err = (case err of Some (Serve_error e) \<Rightarrow> Some e | _ \<Rightarrow> None)"

definition Shutdown :: "serve_result option \<Rightarrow> 'c WebServer \<Rightarrow> go_error option \<times> 'c list" where
  "Shutdown err ws =
     ((case err of Some Server_closed \<Rightarrow> None | Some (Serve_error e) \<Rightarrow> Some e | None \<Rightarrow> None), [ws_client ws])"

text \<open>
  Which transport the embedded web server uses. \<^verbatim>\<open>strings.EqualFold\<close> folds letter case; the
  letters of the compared constant have no case variants outside ASCII.
\<close>

definition ascii_lower :: "char \<Rightarrow> char" where
  "ascii_lower c = (if 65 \<le> code c \<and> code c \<le> 90 then char_of (code c + 32) else c)"

definition EqualFold :: "string \<Rightarrow> string \<Rightarrow> bool" where
  "EqualFold s t \<longleftrightarrow> map ascii_lower s = map ascii_lower t"

definition in_memory_target :: "string \<Rightarrow> bool" where
  "in_memory_target configured =
     (let target = TrimSpace configured in target = '''' \<or> EqualFold target InMemoryTransport)"

datatype actor =
    Listener_actor string | Bufconn_actor | Graceful_shutdown string | Cleanup_actor | Snapshot_actor | Context_cancel_actor

text \<open>
  The in-memory transport: an actor serves its listener; making the connection to it may fail, and
  then the listener is closed. \<open>dial\<close> is what making the connection returns.
\<close>

definition addBufconnDiscoveryListener :: "actor list \<Rightarrow> actor list" where
  "addBufconnDiscoveryListener actors = actors @ [Bufconn_actor]"

definition newBufconnDiscoveryClientConn :: "string + 'c \<Rightarrow> (go_error + 'c) \<times> bool" where
  "newBufconnDiscoveryClientConn dial =
     (case dial of
        Inl e \<Rightarrow> (Inl (Plain (''failed to create bufconn gRPC client: '' @ e)), True)
      | Inr conn \<Rightarrow> (Inr conn, False))"

text \<open>
  The embedded server uses the in-memory transport or the configured target. The result is the
  server, the actors added so far, the clients closed and the registry.
\<close>

definition newEmbeddedWebServer ::
  "('u ClientConfig \<Rightarrow> string + 'c) \<Rightarrow> ('r \<Rightarrow> string \<Rightarrow> string option \<times> 'r) \<Rightarrow> 'u \<Rightarrow> 'r \<Rightarrow> string + 'c \<Rightarrow>
   ('t, 'u) ServiceCommandConfig \<Rightarrow> actor list \<Rightarrow> (go_error + 'c WebServer) \<times> actor list \<times> 'c list \<times> 'r" where
  "newEmbeddedWebServer NewDiscoveryClient Register no_tls registry dial cfg actors =
     (if in_memory_target (Target (WebDiscoveryClient cfg)) then
        (let actors1 = addBufconnDiscoveryListener actors
         in case newBufconnDiscoveryClientConn dial of
              (Inl err, _) \<Rightarrow> (Inl err, actors1, [], registry)
            | (Inr conn, _) \<Rightarrow>
                (case NewWebServer NewDiscoveryClient Register no_tls registry [WithMetrics registry, WithClient conn] of
                   (ws, closed, r') \<Rightarrow> (ws, actors1, closed, r')))
      else
        (case NewWebServer NewDiscoveryClient Register no_tls registry
                [WithMetrics registry, WithClientConfig (WebDiscoveryClient cfg)] of
           (ws, closed, r') \<Rightarrow> (ws, actors, closed, r')))"

text \<open>
  Starting the service: the state is made first, from the snapshot when one is configured, then the
  actors are added in order. The result is the reason of an early return, or the state with the
  group of actors that is run.
\<close>

datatype start_error = State_failed load_error | Web_failed go_error

definition StartDiscoveryServer ::
  "'m xsync \<Rightarrow> 'ts pbrt \<Rightarrow> time \<Rightarrow> bool \<Rightarrow> fs \<Rightarrow>
   ('u ClientConfig \<Rightarrow> string + 'c) \<Rightarrow> ('r \<Rightarrow> string \<Rightarrow> string option \<times> 'r) \<Rightarrow> 'u \<Rightarrow> 'r \<Rightarrow> string + 'c \<Rightarrow>
   ('t, 'u) ServiceCommandConfig \<Rightarrow> start_error + 'm State \<times> actor list" where
  "StartDiscoveryServer X R now readable fs NewDiscoveryClient Register no_tls registry dial cfg =
     (case NewState X R now readable [WithSnapshot (SnapshotPath (DiscoveryConf cfg))] fs of
        Inl e \<Rightarrow> Inl (State_failed e)
      | Inr st \<Rightarrow>
          (let actors = [Listener_actor ''discovery''];
               rest = (if addCleanupActor (DiscoveryConf cfg) then [Cleanup_actor] else []) @
                      (if addSnapshotActor (DiscoveryConf cfg) then [Snapshot_actor] else []) @ [Context_cancel_actor]
           in if WebEnable cfg then
                (case newEmbeddedWebServer NewDiscoveryClient Register no_tls registry dial cfg actors of
                   (Inl err, _) \<Rightarrow> Inl (Web_failed (wrap ''failed to initialize embedded web: '' err))
                 | (Inr ws, actors1, _) \<Rightarrow>
                     Inr (st, actors1 @ [Listener_actor ''web'', Graceful_shutdown ''embedded web server''] @ rest))
              else Inr (st, actors @ rest)))"

definition StartDiscoveryWeb ::
  "('u ClientConfig \<Rightarrow> string + 'c) \<Rightarrow> ('r \<Rightarrow> string \<Rightarrow> string option \<times> 'r) \<Rightarrow> 'u \<Rightarrow> 'r \<Rightarrow>
   ('t, 'u) WebCommandConfig \<Rightarrow> go_error + actor list" where
  "StartDiscoveryWeb NewDiscoveryClient Register no_tls registry cfg =
     (case NewWebServer NewDiscoveryClient Register no_tls registry
             [WithClientConfig (web_WebDiscoveryClient cfg), WithMetrics registry] of
        (Inl err, _) \<Rightarrow> Inl (wrap ''start discovery web server: '' err)
      | (Inr ws, _) \<Rightarrow> Inr [Context_cancel_actor, Listener_actor ''web'', Graceful_shutdown ''web server''])"

section \<open>Snapshots on disk\<close>

lemma atomicWriteFile_path:
  assumes "atomicWriteFile os path bs perm fs = (tr, r)" and "io_create os \<noteq> Some path"
  shows "tr \<noteq> [] \<and> (\<forall>f \<in> set tr. f path \<in> {fs path, Some \<lparr>f_bytes = bs, f_perm = perm\<rparr>})"
  using assms
  by (cases "io_create os"; cases "io_write os")
    (auto simp: atomicWriteFile_def remove_tmp_def Let_def split: if_splits)

definition snapshot_of :: "'m xsync \<Rightarrow> 'ts pbrt \<Rightarrow> (string list \<Rightarrow> string list) \<Rightarrow> 'm State \<Rightarrow> os_file option \<Rightarrow> bool" where
  "snapshot_of X R ao s f \<longleftrightarrow>
     (\<exists>bs. pb_Marshal R (take_snapshot X R ao s) = Some bs \<and> f = Some \<lparr>f_bytes = bs, f_perm = defaultPerm\<rparr>)"

lemma SaveSnapshot_path:
  assumes "SaveSnapshot X R ao os path s fs = (tr, r)" and "io_create os \<noteq> Some path" and "f \<in> set tr"
  shows "f path = fs path \<or> snapshot_of X R ao s (f path)"
  using assms atomicWriteFile_path [of os path _ defaultPerm fs tr r]
  by (fastforce simp: SaveSnapshot_def snapshot_of_def split: option.splits)

lemma SaveSnapshot_nonempty: "fst (SaveSnapshot X R ao os path s fs) \<noteq> []"
  by (auto simp: SaveSnapshot_def atomicWriteFile_def Let_def split: option.splits)

lemma snapshot_actor_history:
  assumes "snapshot_actor_run X R ao path evs fs = (ret, tr)" and "\<forall>(sig, os, s) \<in> set evs. io_create os \<noteq> Some path"
    and "f \<in> set tr"
  shows "f path = fs path \<or> (\<exists>(sig, os, s) \<in> set evs. snapshot_of X R ao s (f path))"
  using assms
proof (induction evs arbitrary: fs ret tr)
  case (Cons ev evs)
  obtain sig os s where ev: "ev = (sig, os, s)" by (cases ev)
  obtain tr1 r1 where save: "SaveSnapshot X R ao os path s fs = (tr1, r1)" by force
  have ok: "io_create os \<noteq> Some path" using Cons.prems(2) by (simp add: ev)
  note here = SaveSnapshot_path [OF save ok]
  have ne: "last tr1 \<in> set tr1" using SaveSnapshot_nonempty [of X R ao os path s fs] save by simp
  show ?case
  proof (cases sig)
    case Ctx_done
    then have "tr = tr1" using Cons.prems(1) save by (simp add: ev snapshot_actor_def)
    then show ?thesis using here Cons.prems(3) by (auto simp: ev)
  next
    case Ticked
    obtain ret' tr' where rest: "snapshot_actor_run X R ao path evs (last tr1) = (ret', tr')" by force
    then have "tr = tr1 @ tr'" using Cons.prems(1) save Ticked by (auto simp: ev snapshot_actor_def)
    then consider "f \<in> set tr1" | "f \<in> set tr'" using Cons.prems(3) by auto
    then show ?thesis
    proof cases
      case 1
      then show ?thesis using here by (auto simp: ev)
    next
      case 2
      from Cons.IH [OF rest _ 2] Cons.prems(2) here [OF ne] show ?thesis by (auto simp: ev)
    qed
  qed
qed simp

lemma snapshot_actor_run_nonempty: "snd (snapshot_actor_run X R ao path evs fs) \<noteq> []"
proof (cases evs)
  case (Cons ev evs')
  then show ?thesis
    by (cases ev) (auto simp: snapshot_actor_def SaveSnapshot_nonempty split: prod.splits actor_signal.splits)
qed simp

lemma snapshot_actor_shutdown:
  assumes "\<forall>(sig, os, s) \<in> set ticks. sig = Ticked"
    and "snapshot_actor_run X R ao path (ticks @ [(Ctx_done, os, s)]) fs = (ret, tr)"
  shows "ret \<and> (\<exists>fs1. last tr = last (fst (SaveSnapshot X R ao os path s fs1)))"
  using assms
proof (induction ticks arbitrary: fs ret tr)
  case Nil
  then show ?case by (auto simp: snapshot_actor_def)
next
  case (Cons ev ticks)
  obtain os' s' where ev: "ev = (Ticked, os', s')" using Cons.prems(1) by (cases ev) auto
  obtain tr1 r1 where save: "SaveSnapshot X R ao os' path s' fs = (tr1, r1)" by force
  obtain ret' tr' where rest: "snapshot_actor_run X R ao path (ticks @ [(Ctx_done, os, s)]) (last tr1) = (ret', tr')" by force
  then have "tr' \<noteq> []" by (metis snapshot_actor_run_nonempty snd_conv)
  with Cons.IH [OF _ rest] Cons.prems save rest show ?case by (auto simp: ev snapshot_actor_def)
qed

definition io_works :: "io \<Rightarrow> bool" where
  "io_works os \<longleftrightarrow> io_create os \<noteq> None \<and> io_chmod os \<and> io_write os = None \<and> io_sync os \<and> io_close os \<and> io_rename os"

lemma SaveSnapshot_works:
  assumes "io_works os" and "pb_Marshal R (take_snapshot X R ao s) \<noteq> None"
  shows "\<exists>tr. SaveSnapshot X R ao os path s fs = (tr, None)"
  using assms by (auto simp: io_works_def SaveSnapshot_def atomicWriteFile_def Let_def)

lemma reloaded_discovered:
  assumes "snapshot_setup X R ao" and "state_inv X s" and "all_times_ok X s"
  shows "discovered X (snapshot_setup.reloaded X R ao now s) = discovered X s"
proof
  fix i
  show "discovered X (snapshot_setup.reloaded X R ao now s) i = discovered X s i"
    using snapshot_setup.reloaded_same [OF assms, of i now]
    by (auto simp: discovered_def aff_view_def split: option.splits)
qed

text \<open>
  C33: the service survives a restart, and a crash. Whatever the states of the service at the ticks
  and whichever file operations fail, the snapshot file holds at every moment either what it held
  at the start or a complete snapshot of a state at one of the ticks. When the context ends the
  actor saves once more and returns; if that save works, a service started from the file serves
  exactly the affiliates of the final state.
\<close>

theorem snapshot_actor_crash_safe:
  assumes "xsync_map X" and "protobuf_runtime R" and "range_order ao" and "path \<noteq> ''''"
    and "\<forall>(sig, os, s) \<in> set ticks. sig = Ticked" and "\<forall>(sig, os, s) \<in> set (ticks @ [(Ctx_done, os, s)]). io_create os \<noteq> Some path"
    and "snapshot_actor_run X R ao path (ticks @ [(Ctx_done, os, s)]) fs = (ret, tr)"
  shows "ret \<and>
    (\<forall>f \<in> set tr. f path = fs path \<or>
       (\<exists>(sig, os', s') \<in> set (ticks @ [(Ctx_done, os, s)]). snapshot_of X R ao s' (f path))) \<and>
    (io_works os \<and> pb_Marshal R (take_snapshot X R ao s) \<noteq> None \<and> state_inv X s \<and> all_times_ok X s \<longrightarrow>
       (\<exists>s'. NewState X R now True [WithSnapshot path] (last tr) = Inr s' \<and> state_inv X s' \<and> discovered X s' = discovered X s))"
proof -
  have ss: "snapshot_setup X R ao"
    using assms(1-3) by (simp add: snapshot_setup_def snapshot_setup_axioms_def)
  from snapshot_actor_shutdown [OF assms(5,7)] obtain fs1 where
    ret: "ret" and last: "last tr = last (fst (SaveSnapshot X R ao os path s fs1))" by blast
  have "\<exists>s'. NewState X R now True [WithSnapshot path] (last tr) = Inr s' \<and> state_inv X s' \<and> discovered X s' = discovered X s"
    if works: "io_works os" "pb_Marshal R (take_snapshot X R ao s) \<noteq> None" and inv: "state_inv X s" "all_times_ok X s"
  proof -
    obtain tr1 where tr1: "SaveSnapshot X R ao os path s fs1 = (tr1, None)"
      using SaveSnapshot_works [OF works] by blast
    have "io_create os \<noteq> Some path" using assms(6) by simp
    from snapshot_setup.saved_then_loaded [OF ss tr1 assms(4) this, of now]
    show ?thesis
      using snapshot_setup.reloaded_inv [OF ss inv] reloaded_discovered [OF ss inv] last tr1 by auto
  qed
  with ret snapshot_actor_history [OF assms(7,6)] show ?thesis by blast
qed

theorem snapshot_actor_crash_safe_witness:
  "\<exists>tr s'. snapshot_actor_run alist_xsync demo_runtime rev ''state''
      ([(Ticked, \<lparr>io_create = Some ''.tmp-1'', io_chmod = True, io_write = Some 0, io_sync = True, io_close = True,
           io_rename = True, io_remove = True\<rparr>, stored_state)] @
       [(Ctx_done, \<lparr>io_create = Some ''.tmp-2'', io_chmod = True, io_write = None, io_sync = True, io_close = True,
           io_rename = True, io_remove = True\<rparr>, stored_state)]) Map.empty = (True, tr) \<and>
    NewState alist_xsync demo_runtime 7 True [WithSnapshot ''state''] (last tr) = Inr s' \<and>
    discovered alist_xsync s' = discovered alist_xsync stored_state"
proof -
  let ?bad = "\<lparr>io_create = Some ''.tmp-1'', io_chmod = True, io_write = Some 0, io_sync = True, io_close = True,
     io_rename = True, io_remove = True\<rparr>"
  let ?good = "\<lparr>io_create = Some ''.tmp-2'', io_chmod = True, io_write = None, io_sync = True, io_close = True,
     io_rename = True, io_remove = True\<rparr>"
  obtain ret tr where run: "snapshot_actor_run alist_xsync demo_runtime rev ''state''
      ([(Ticked, ?bad, stored_state)] @ [(Ctx_done, ?good, stored_state)]) Map.empty = (ret, tr)" by force
  have m: "pb_Marshal demo_runtime demo_snapshot = Some [1]" by (simp add: demo_runtime_def)
  have "ret" and "\<exists>s'. NewState alist_xsync demo_runtime 7 True [WithSnapshot ''state''] (last tr) = Inr s' \<and>
      state_inv alist_xsync s' \<and> discovered alist_xsync s' = discovered alist_xsync stored_state"
    using snapshot_actor_crash_safe [OF axs.xsync_map_axioms demo_rt.protobuf_runtime_axioms range_order_rev _ _ _ run, of 7]
      stored_state_inv m stored_snapshot by (auto simp: io_works_def)
  with run show ?thesis by auto
qed

section \<open>Stopping a listener\<close>

lemma buildListener_no_leak:
  "buildListener en cfg l t = (r, left_open) \<Longrightarrow> left_open \<longleftrightarrow> (\<exists>x. r = Inr x)"
  by (auto simp: buildListener_def split: option.splits if_splits)

lemma unclosed_listener_serves:
  "la_pc a = Serving \<Longrightarrow> \<not> la_closed a \<Longrightarrow> \<forall>e \<in> set evs. e \<noteq> Interrupted \<and> (\<forall>err. e \<noteq> Serve_failed err) \<Longrightarrow>
   \<exists>a'. run listener_step a evs = Some a' \<and> la_pc a' = Serving"
proof (induction evs arbitrary: a)
  case (Cons e evs)
  then have "listener_step a e = Some a" by (cases e) auto
  with Cons show ?case by simp
qed simp



end
