(* ===== verification/Flags.thy ===== *)
theory Flags
  imports Server_Setup
begin

text \<open>
  Command line, environment and configuration file (\<^verbatim>\<open>cmd/discovery-service/main.go\<close>,
  \<^verbatim>\<open>internal/config/viper.go\<close>).

  The packages that parse flags and look up settings are not part of the repository. Of them the
  model uses what they document: registering a flag twice panics; setting a flag from a text
  parses it, which may fail (the parameter \<open>parse\<close>), and marks the flag as changed; a setting
  is looked up in the environment first and then in the configuration file that was read; the
  flags of a set are visited in the order of their names.
\<close>

section \<open>Flags\<close>

datatype flag_value = FString string | FBool bool | FDuration duration

record flag =
  fl_Name :: string
  fl_Value :: flag_value
  fl_Changed :: bool

abbreviation flag_names :: "flag list \<Rightarrow> string list" where
  "flag_names fs \<equiv> map fl_Name fs"

text \<open>
  A flag set is the list of its flags in the order of their names, which is the order in which
  \<^verbatim>\<open>VisitAll\<close> goes through them.
\<close>

fun name_less :: "string \<Rightarrow> string \<Rightarrow> bool" where
  "name_less xs [] = False"
| "name_less [] (y # ys) = True"
| "name_less (x # xs) (y # ys) = (code x < code y \<or> x = y \<and> name_less xs ys)"

fun insert_flag :: "flag \<Rightarrow> flag list \<Rightarrow> flag list" where
  "insert_flag f [] = [f]"
| "insert_flag f (g # gs) = (if name_less (fl_Name f) (fl_Name g) then f # g # gs else g # insert_flag f gs)"

text \<open>\<^verbatim>\<open>StringVar\<close>, \<^verbatim>\<open>BoolVar\<close> and \<^verbatim>\<open>DurationVar\<close> with their default.\<close>

definition add_flag :: "string \<times> flag_value \<Rightarrow> flag list option \<Rightarrow> flag list option" where
  "add_flag nv fs =
     (case fs of
        None \<Rightarrow> None
      | Some l \<Rightarrow> if fst nv \<in> set (flag_names l) then None
                 else Some (insert_flag \<lparr>fl_Name = fst nv, fl_Value = snd nv, fl_Changed = False\<rparr> l))"

definition add_flags :: "(string \<times> flag_value) list \<Rightarrow> flag list option \<Rightarrow> flag list option" where
  "add_flags nvs fs = fold add_flag nvs fs"

definition lookup_flag :: "flag list \<Rightarrow> string \<Rightarrow> flag_value option" where
  "lookup_flag fs name = map_of (map (\<lambda>f. (fl_Name f, fl_Value f)) fs) name"

section \<open>The flags of the commands\<close>

definition defaultServicePort :: string where
  "defaultServicePort = ''3000''"

definition registerRootFlags :: "flag list option \<Rightarrow> flag list option" where
  "registerRootFlags = add_flags [(''config'', FString '''')]"

definition registerWebServerFlags :: "flag list option \<Rightarrow> flag list option" where
  "registerWebServerFlags = add_flags
     [(''web-addr'', FString '':8080''),
      (''web-tls-enable'', FBool False),
      (''web-tls-refresh'', FDuration 0),
      (''web-tls-key-password'', FString ''''),
      (''web-tls-file-key'', FString ''''),
      (''web-tls-file-cert'', FString ''''),
      (''web-tls-file-client-ca'', FString ''''),
      (''web-tls-file-client-crl'', FString '''')]"

definition registerDiscoveryClientTLSFlags :: "flag list option \<Rightarrow> flag list option" where
  "registerDiscoveryClientTLSFlags = add_flags
     [(''web-discovery-client-tls-enable'', FBool False),
      (''web-discovery-client-tls-refresh'', FDuration 0),
      (''web-discovery-client-tls-insecure-skip-verify'', FBool False),
      (''web-discovery-client-tls-use-system-pool'', FBool True),
      (''web-discovery-client-tls-key-password'', FString ''''),
      (''web-discovery-client-tls-file-root-ca'', FString ''''),
      (''web-discovery-client-tls-file-key'', FString ''''),
      (''web-discovery-client-tls-file-cert'', FString '''')]"

definition registerServiceFlags :: "flag list option \<Rightarrow> flag list option" where
  "registerServiceFlags fs =
     registerDiscoveryClientTLSFlags
       (add_flags [(''web-enable'', FBool False), (''web-discovery-client-target'', FString InMemoryTransport)]
         (registerWebServerFlags
           (add_flags
             [(''server-addr'', FString ('':'' @ defaultServicePort)),
              (''server-tls-enable'', FBool False),
              (''server-tls-refresh'', FDuration 0),
              (''server-tls-key-password'', FString ''''),
              (''server-tls-file-key'', FString ''''),
              (''server-tls-file-cert'', FString ''''),
              (''server-tls-file-client-ca'', FString ''''),
              (''server-tls-file-client-crl'', FString ''''),
              (''discovery-redirect-endpoint'', FString ''''),
              (''discovery-cleanup-interval'', FDuration (5 * 60 * 1000 * millisecond)),
              (''discovery-snapshot-path'', FString ''''),
              (''discovery-snapshot-interval'', FDuration (60 * 1000 * millisecond))] fs)))"

definition registerWebFlags :: "flag list option \<Rightarrow> flag list option" where
  "registerWebFlags fs =
     registerDiscoveryClientTLSFlags
       (add_flags [(''web-discovery-client-target'', FString (''localhost:'' @ defaultServicePort))]
         (registerWebServerFlags fs))"

text \<open>
  The command tree: each command with its flags, those it inherits first. The flags of a command
  are kept per command; the inherited ones are the same at every command because they are set from
  the same sources.
\<close>

datatype command = Command (cmd_Inherited: "flag list") (cmd_Flags: "flag list") (cmd_Commands: "command list")

definition newRootCommand :: "command option" where
  "newRootCommand =
     (case (registerRootFlags (Some []), registerServiceFlags (Some []), registerWebFlags (Some [])) of
        (Some r, Some s, Some w) \<Rightarrow> Some (Command [] r [Command r s [], Command r w []])
      | _ \<Rightarrow> None)"

section \<open>Settings\<close>

text \<open>
  The name of the environment variable of a key: dashes become underscores, letters upper case. A
  setting is read from the environment first.
\<close>

definition env_key :: "string \<Rightarrow> string" where
  "env_key k = map (\<lambda>c. if c = CHR ''-'' then CHR ''_'' else if 97 \<le> code c \<and> code c \<le> 122 then char_of (code c - 32) else c) k"

type_synonym settings = "string \<Rightarrow> string option"

text \<open>An environment variable that is set to the empty text counts as not set.\<close>

definition os_setting :: "settings \<Rightarrow> settings" where
  "os_setting env name = (case env name of Some v \<Rightarrow> if v = '''' then None else Some v | None \<Rightarrow> None)"

definition viper_Get :: "settings \<Rightarrow> settings \<Rightarrow> settings" where
  "viper_Get env cfg k = (case os_setting env (env_key k) of Some v \<Rightarrow> Some v | None \<Rightarrow> cfg k)"

datatype config_error = Bad_flag string string | Bad_config string

definition set_flag ::
  "(flag_value \<Rightarrow> string \<Rightarrow> flag_value option) \<Rightarrow> settings \<Rightarrow> flag \<Rightarrow> config_error + flag" where
  "set_flag parse get f =
     (if fl_Changed f then Inr f
      else case get (fl_Name f) of
        None \<Rightarrow> Inr f
      | Some v \<Rightarrow>
          (case parse (fl_Value f) v of
             None \<Rightarrow> Inl (Bad_flag (fl_Name f) v)
           | Some x \<Rightarrow> Inr (f\<lparr>fl_Value := x, fl_Changed := True\<rparr>)))"

text \<open>The flags of a set in the order in which they are visited; a value that does not parse ends the process.\<close>

fun applyViperToFlagSet ::
  "(flag_value \<Rightarrow> string \<Rightarrow> flag_value option) \<Rightarrow> settings \<Rightarrow> flag list \<Rightarrow> config_error + flag list" where
  "applyViperToFlagSet parse get [] = Inr []"
| "applyViperToFlagSet parse get (f # fs) =
     (case set_flag parse get f of
        Inl e \<Rightarrow> Inl e
      | Inr f' \<Rightarrow>
          (case applyViperToFlagSet parse get fs of
             Inl e \<Rightarrow> Inl e
           | Inr fs' \<Rightarrow> Inr (f' # fs')))"

definition applyViperToCommand ::
  "(flag_value \<Rightarrow> string \<Rightarrow> flag_value option) \<Rightarrow> settings \<Rightarrow> command \<Rightarrow> config_error + command" where
  "applyViperToCommand parse get c =
     (case applyViperToFlagSet parse get (cmd_Inherited c) of
        Inl e \<Rightarrow> Inl e
      | Inr inh \<Rightarrow>
          (case applyViperToFlagSet parse get (cmd_Flags c) of
             Inl e \<Rightarrow> Inl e
           | Inr fs \<Rightarrow> Inr (Command inh fs (cmd_Commands c))))"

fun bindCommandTreeFlags ::
  "(flag_value \<Rightarrow> string \<Rightarrow> flag_value option) \<Rightarrow> settings \<Rightarrow> command \<Rightarrow> config_error + command"
and bind_subcommands ::
  "(flag_value \<Rightarrow> string \<Rightarrow> flag_value option) \<Rightarrow> settings \<Rightarrow> command list \<Rightarrow> config_error + command list" where
  "bindCommandTreeFlags parse get (Command inh fs cmds) =
     (case applyViperToCommand parse get (Command inh fs cmds) of
        Inl e \<Rightarrow> Inl e
      | Inr c \<Rightarrow>
          (case bind_subcommands parse get cmds of
             Inl e \<Rightarrow> Inl e
           | Inr cmds' \<Rightarrow> Inr (Command (cmd_Inherited c) (cmd_Flags c) cmds')))"
| "bind_subcommands parse get [] = Inr []"
| "bind_subcommands parse get (c # cs) =
     (case bindCommandTreeFlags parse get c of
        Inl e \<Rightarrow> Inl e
      | Inr c' \<Rightarrow>
          (case bind_subcommands parse get cs of
             Inl e \<Rightarrow> Inl e
           | Inr cs' \<Rightarrow> Inr (c' # cs')))"

text \<open>
  Initialisation applies the environment to every command, then reads the configuration file that
  the settings name; before the command runs, its flags are set once more, now also from the file.
  \<open>files\<close> gives the settings of a readable file, and \<open>i\<close> is the subcommand that runs.
\<close>

definition read_config :: "(string \<Rightarrow> settings option) \<Rightarrow> settings \<Rightarrow> config_error + settings" where
  "read_config files get =
     (case get ''config'' of
        None \<Rightarrow> Inr Map.empty
      | Some path \<Rightarrow> (case files path of None \<Rightarrow> Inl (Bad_config path) | Some cfg \<Rightarrow> Inr cfg))"

definition BindFlagsToViper ::
  "(flag_value \<Rightarrow> string \<Rightarrow> flag_value option) \<Rightarrow> settings \<Rightarrow> (string \<Rightarrow> settings option) \<Rightarrow> command \<Rightarrow> nat \<Rightarrow>
   config_error + command" where
  "BindFlagsToViper parse env files root i =
     (case bindCommandTreeFlags parse (viper_Get env Map.empty) root of
        Inl e \<Rightarrow> Inl e
      | Inr root1 \<Rightarrow>
          (case read_config files (viper_Get env Map.empty) of
             Inl e \<Rightarrow> Inl e
           | Inr cfg \<Rightarrow> applyViperToCommand parse (viper_Get env cfg) (cmd_Commands root1 ! i)))"

section \<open>The configuration behind the flags\<close>

record TLSServerConfig =
  srv_Enable :: bool
  srv_Refresh :: duration
  srv_KeyPassword :: string
  srv_File_Key :: string
  srv_File_Cert :: string
  srv_File_ClientCAs :: string
  srv_File_ClientCRL :: string

record TLSClientConfig =
  cli_Enable :: bool
  cli_Refresh :: duration
  cli_InsecureSkipVerify :: bool
  cli_UseSystemPool :: bool
  cli_KeyPassword :: string
  cli_File_RootCAs :: string
  cli_File_Key :: string
  cli_File_Cert :: string

text \<open>The variable behind a flag holds the flag's value.\<close>

definition str_of :: "flag list \<Rightarrow> string \<Rightarrow> string" where
  "str_of fs name = (case lookup_flag fs name of Some (FString s) \<Rightarrow> s | _ \<Rightarrow> '''')"

definition bool_of :: "flag list \<Rightarrow> string \<Rightarrow> bool" where
  "bool_of fs name = (case lookup_flag fs name of Some (FBool b) \<Rightarrow> b | _ \<Rightarrow> False)"

definition dur_of :: "flag list \<Rightarrow> string \<Rightarrow> duration" where
  "dur_of fs name = (case lookup_flag fs name of Some (FDuration d) \<Rightarrow> d | _ \<Rightarrow> 0)"

definition server_tls :: "flag list \<Rightarrow> string \<Rightarrow> TLSServerConfig" where
  "server_tls fs p =
     \<lparr>srv_Enable = bool_of fs (p @ ''-tls-enable''), srv_Refresh = dur_of fs (p @ ''-tls-refresh''),
      srv_KeyPassword = str_of fs (p @ ''-tls-key-password''), srv_File_Key = str_of fs (p @ ''-tls-file-key''),
      srv_File_Cert = str_of fs (p @ ''-tls-file-cert''), srv_File_ClientCAs = str_of fs (p @ ''-tls-file-client-ca''),
      srv_File_ClientCRL = str_of fs (p @ ''-tls-file-client-crl'')\<rparr>"

definition client_config :: "flag list \<Rightarrow> TLSClientConfig ClientConfig" where
  "client_config fs =
     \<lparr>Target = str_of fs ''web-discovery-client-target'',
      ClientTLS =
        \<lparr>cli_Enable = bool_of fs ''web-discovery-client-tls-enable'',
         cli_Refresh = dur_of fs ''web-discovery-client-tls-refresh'',
         cli_InsecureSkipVerify = bool_of fs ''web-discovery-client-tls-insecure-skip-verify'',
         cli_UseSystemPool = bool_of fs ''web-discovery-client-tls-use-system-pool'',
         cli_KeyPassword = str_of fs ''web-discovery-client-tls-key-password'',
         cli_File_RootCAs = str_of fs ''web-discovery-client-tls-file-root-ca'',
         cli_File_Key = str_of fs ''web-discovery-client-tls-file-key'',
         cli_File_Cert = str_of fs ''web-discovery-client-tls-file-cert''\<rparr>\<rparr>"

definition service_config :: "flag list \<Rightarrow> (TLSServerConfig, TLSClientConfig) ServiceCommandConfig" where
  "service_config fs =
     \<lparr>Server = \<lparr>Addr = str_of fs ''server-addr'', ServerTLS = server_tls fs ''server''\<rparr>,
      DiscoveryConf =
        \<lparr>RedirectEndpoint = str_of fs ''discovery-redirect-endpoint'',
         CleanupInterval = dur_of fs ''discovery-cleanup-interval'',
         SnapshotPath = str_of fs ''discovery-snapshot-path'',
         SnapshotInterval = dur_of fs ''discovery-snapshot-interval''\<rparr>,
      WebServerConf = \<lparr>Addr = str_of fs ''web-addr'', ServerTLS = server_tls fs ''web''\<rparr>,
      WebEnable = bool_of fs ''web-enable'',
      WebDiscoveryClient = client_config fs\<rparr>"

definition web_config :: "flag list \<Rightarrow> (TLSServerConfig, TLSClientConfig) WebCommandConfig" where
  "web_config fs =
     \<lparr>web_WebServer = \<lparr>Addr = str_of fs ''web-addr'', ServerTLS = server_tls fs ''web''\<rparr>,
      web_WebDiscoveryClient = client_config fs\<rparr>"

text \<open>The commands: each hands its configuration to the start of its server and passes an error on.\<close>

definition runService ::
  "'m xsync \<Rightarrow> 'ts pbrt \<Rightarrow> time \<Rightarrow> bool \<Rightarrow> fs \<Rightarrow>
   (TLSClientConfig ClientConfig \<Rightarrow> string + 'c) \<Rightarrow> ('r \<Rightarrow> string \<Rightarrow> string option \<times> 'r) \<Rightarrow> TLSClientConfig \<Rightarrow> 'r \<Rightarrow>
   string + 'c \<Rightarrow> command \<Rightarrow> start_error + 'm State \<times> actor list" where
  "runService X R now readable fs NewDiscoveryClient Register no_tls registry dial cmd =
     (case StartDiscoveryServer X R now readable fs NewDiscoveryClient Register no_tls registry dial
             (service_config (cmd_Flags cmd)) of
        Inl err \<Rightarrow> Inl err
      | Inr started \<Rightarrow> Inr started)"

definition runWeb ::
  "(TLSClientConfig ClientConfig \<Rightarrow> string + 'c) \<Rightarrow> ('r \<Rightarrow> string \<Rightarrow> string option \<times> 'r) \<Rightarrow> TLSClientConfig \<Rightarrow> 'r \<Rightarrow>
   command \<Rightarrow> go_error + actor list" where
  "runWeb NewDiscoveryClient Register no_tls registry cmd =
     (case StartDiscoveryWeb NewDiscoveryClient Register no_tls registry (web_config (cmd_Flags cmd)) of
        Inl err \<Rightarrow> Inl err
      | Inr actors \<Rightarrow> Inr actors)"

text \<open>
  The commands by the name they are called with, and the process: the root command is made, which
  panics if a flag is registered twice; the command named on the command line is looked up, its
  flags are set (\<open>given\<close> sets those of the command line), and it is run. An error ends the process.
\<close>

datatype command_run = Run_service | Run_web

record command_entry =
  cmd_Use :: string
  cmd_RunE :: command_run

definition newServiceCommand :: command_entry where
  "newServiceCommand = \<lparr>cmd_Use = ''service'', cmd_RunE = Run_service\<rparr>"

definition newWebCommand :: command_entry where
  "newWebCommand = \<lparr>cmd_Use = ''web'', cmd_RunE = Run_web\<rparr>"

datatype 'm process =
    Panic
  | Unknown_command string
  | Bad_settings config_error
  | Service_process "start_error + 'm State \<times> actor list"
  | Web_process "go_error + actor list"

definition main_process ::
  "'m xsync \<Rightarrow> 'ts pbrt \<Rightarrow> time \<Rightarrow> bool \<Rightarrow> fs \<Rightarrow>
   (TLSClientConfig ClientConfig \<Rightarrow> string + 'c) \<Rightarrow> ('r \<Rightarrow> string \<Rightarrow> string option \<times> 'r) \<Rightarrow> TLSClientConfig \<Rightarrow> 'r \<Rightarrow>
   string + 'c \<Rightarrow> (flag_value \<Rightarrow> string \<Rightarrow> flag_value option) \<Rightarrow> settings \<Rightarrow> (string \<Rightarrow> settings option) \<Rightarrow>
   string \<Rightarrow> (command \<Rightarrow> command) \<Rightarrow> 'm process" where
  "main_process X R now readable fs NewDiscoveryClient Register no_tls registry dial parse env files name given =
     (case newRootCommand of
        None \<Rightarrow> Panic
      | Some root \<Rightarrow>
          (case map_of (zip [cmd_Use newServiceCommand, cmd_Use newWebCommand]
                            [(0, cmd_RunE newServiceCommand), (1, cmd_RunE newWebCommand)]) name of
             None \<Rightarrow> Unknown_command name
           | Some (i, run_e) \<Rightarrow>
               (case BindFlagsToViper parse env files (given root) i of
                  Inl e \<Rightarrow> Bad_settings e
                | Inr cmd \<Rightarrow>
                    (case run_e of
                       Run_service \<Rightarrow>
                         Service_process (runService X R now readable fs NewDiscoveryClient Register no_tls registry dial cmd)
                     | Run_web \<Rightarrow> Web_process (runWeb NewDiscoveryClient Register no_tls registry cmd)))))"

section \<open>Precedence\<close>

lemma applyViper_nth:
  assumes "applyViperToFlagSet parse get fs = Inr fs'"
  shows "length fs' = length fs \<and> (\<forall>n < length fs. set_flag parse get (fs ! n) = Inr (fs' ! n))"
  using assms
proof (induction fs arbitrary: fs')
  case (Cons f fs)
  then obtain f' fs1 where "set_flag parse get f = Inr f'" "applyViperToFlagSet parse get fs = Inr fs1" "fs' = f' # fs1"
    by (auto split: sum.splits)
  with Cons.IH show ?case by (auto simp: nth_Cons split: nat.splits)
qed simp

lemma bind_subcommands_nth:
  "bind_subcommands parse get cs = Inr cs' \<Longrightarrow>
   length cs' = length cs \<and> (\<forall>i < length cs. bindCommandTreeFlags parse get (cs ! i) = Inr (cs' ! i))"
proof (induction cs arbitrary: cs')
  case (Cons c cs)
  then obtain c' cs1 where "bindCommandTreeFlags parse get c = Inr c'" "bind_subcommands parse get cs = Inr cs1" "cs' = c' # cs1"
    by (auto split: sum.splits)
  with Cons.IH show ?case by (auto simp: nth_Cons split: nat.splits)
qed simp

lemma bind_tree_flags:
  "bindCommandTreeFlags parse get c = Inr c' \<Longrightarrow>
     applyViperToFlagSet parse get (cmd_Flags c) = Inr (cmd_Flags c') \<and>
     bind_subcommands parse get (cmd_Commands c) = Inr (cmd_Commands c')"
  by (cases c) (auto simp: applyViperToCommand_def split: sum.splits)

text \<open>The value that a flag ends up with: the sources of a setting in their order of precedence.\<close>

definition effective_value ::
  "(flag_value \<Rightarrow> string \<Rightarrow> flag_value option) \<Rightarrow> settings \<Rightarrow> settings \<Rightarrow> flag \<Rightarrow> flag_value" where
  "effective_value parse env cfg f =
     (if fl_Changed f then fl_Value f
      else case os_setting env (env_key (fl_Name f)) of
        Some v \<Rightarrow> the (parse (fl_Value f) v)
      | None \<Rightarrow> (case cfg (fl_Name f) of Some v \<Rightarrow> the (parse (fl_Value f) v) | None \<Rightarrow> fl_Value f))"

lemma set_flag_twice:
  assumes "set_flag parse (viper_Get env Map.empty) f = Inr f1" and "set_flag parse (viper_Get env cfg) f1 = Inr f2"
  shows "fl_Name f2 = fl_Name f \<and> fl_Value f2 = effective_value parse env cfg f"
  using assms by (auto simp: set_flag_def viper_Get_def effective_value_def split: if_splits option.splits)

text \<open>
  C38: where a setting comes from. When the process gets past its initialisation, every flag of the
  command that runs has the value given on the command line, or else that of its environment
  variable, or else that of the configuration file, or else its default. The configuration file is
  the one that the environment variable \<^verbatim>\<open>CONFIG\<close> names: the value of the flag \<^verbatim>\<open>--config\<close> plays
  no part.
\<close>

theorem flag_precedence:
  assumes "BindFlagsToViper parse env files root i = Inr cmd" and "i < length (cmd_Commands root)"
  shows "let cfg = (case os_setting env (env_key ''config'') of None \<Rightarrow> Map.empty | Some path \<Rightarrow> the (files path))
    in map (\<lambda>f. (fl_Name f, fl_Value f)) (cmd_Flags cmd) =
       map (\<lambda>f. (fl_Name f, effective_value parse env cfg f)) (cmd_Flags (cmd_Commands root ! i))"
proof -
  let ?env = "viper_Get env Map.empty"
  let ?cfg = "case os_setting env (env_key ''config'') of None \<Rightarrow> Map.empty | Some path \<Rightarrow> the (files path)"
  from assms(1) obtain root1 cfg where
    root1: "bindCommandTreeFlags parse ?env root = Inr root1" and cfg: "read_config files ?env = Inr cfg"
    and cmd: "applyViperToCommand parse (viper_Get env cfg) (cmd_Commands root1 ! i) = Inr cmd"
    by (auto simp: BindFlagsToViper_def split: sum.splits)
  from cfg have cfg': "cfg = ?cfg"
    by (auto simp: read_config_def viper_Get_def split: option.splits)
  from bind_subcommands_nth bind_tree_flags [OF root1] assms(2)
  have sub: "bindCommandTreeFlags parse ?env (cmd_Commands root ! i) = Inr (cmd_Commands root1 ! i)" by blast
  note first = applyViper_nth [OF bind_tree_flags [OF sub, THEN conjunct1]]
  from cmd have "applyViperToFlagSet parse (viper_Get env cfg) (cmd_Flags (cmd_Commands root1 ! i)) = Inr (cmd_Flags cmd)"
    by (auto simp: applyViperToCommand_def split: sum.splits)
  note second = applyViper_nth [OF this]
  have one: "fl_Name (cmd_Flags cmd ! n) = fl_Name (cmd_Flags (cmd_Commands root ! i) ! n) \<and>
      fl_Value (cmd_Flags cmd ! n) = effective_value parse env cfg (cmd_Flags (cmd_Commands root ! i) ! n)"
    if "n < length (cmd_Flags cmd)" for n
    by (rule set_flag_twice [where ?f1.0 = "cmd_Flags (cmd_Commands root1 ! i) ! n"]) (use first second that in simp_all)
  show ?thesis
    unfolding Let_def cfg' [symmetric] by (rule nth_equalityI) (use first second one in simp_all)
qed

lemma env_key_samples: "env_key ''config'' = ''CONFIG''" "env_key ''a'' = ''A''" "env_key ''b'' = ''B''"
  by code_simp+

theorem flag_precedence_witness:
  "\<exists>cmd. BindFlagsToViper (\<lambda>v s. case v of FString _ \<Rightarrow> Some (FString s) | _ \<Rightarrow> None)
      [''CONFIG'' \<mapsto> ''f'', ''A'' \<mapsto> ''e''] [''f'' \<mapsto> [''a'' \<mapsto> ''x'', ''b'' \<mapsto> ''y'']]
      (Command [] [] [Command [] [\<lparr>fl_Name = ''a'', fl_Value = FString '''', fl_Changed = False\<rparr>,
                                  \<lparr>fl_Name = ''b'', fl_Value = FString '''', fl_Changed = False\<rparr>] []]) 0 = Inr cmd \<and>
    map (\<lambda>f. (fl_Name f, fl_Value f)) (cmd_Flags cmd) = [(''a'', FString ''e''), (''b'', FString ''y'')]"
    (is "\<exists>cmd. BindFlagsToViper ?parse ?env ?files ?root 0 = _ \<and> _")
proof -
  obtain cmd where cmd: "BindFlagsToViper ?parse ?env ?files ?root 0 = Inr cmd"
    by (simp add: BindFlagsToViper_def applyViperToCommand_def set_flag_def viper_Get_def os_setting_def
        env_key_samples read_config_def)
  with flag_precedence [OF cmd] show ?thesis
    by (simp add: effective_value_def os_setting_def env_key_samples)
qed

section \<open>Defaults\<close>

lemma lookup_insert_flag:
  "fl_Name f \<notin> set (flag_names fs) \<Longrightarrow>
   lookup_flag (insert_flag f fs) n = (if n = fl_Name f then Some (fl_Value f) else lookup_flag fs n)"
  by (induction fs) (auto simp: lookup_flag_def)

lemma set_insert_flag [simp]: "set (insert_flag f fs) = insert f (set fs)"
  by (induction fs) auto

text \<open>Flags with new and distinct names are registered, and each is found with its default.\<close>

lemma add_flags_registers:
  assumes "distinct (map fst nvs)" and "set (map fst nvs) \<inter> set (flag_names fs) = {}"
  shows "\<exists>fs'. add_flags nvs (Some fs) = Some fs' \<and>
    set (flag_names fs') = set (map fst nvs) \<union> set (flag_names fs) \<and>
    (\<forall>n. lookup_flag fs' n = (case map_of nvs n of Some v \<Rightarrow> Some v | None \<Rightarrow> lookup_flag fs n))"
  using assms
proof (induction nvs arbitrary: fs)
  case (Cons nv nvs)
  let ?fs = "insert_flag \<lparr>fl_Name = fst nv, fl_Value = snd nv, fl_Changed = False\<rparr> fs"
  from Cons.prems obtain fs' where fs': "add_flags nvs (Some ?fs) = Some fs'"
    "set (flag_names fs') = set (map fst nvs) \<union> set (flag_names ?fs)"
    "\<forall>n. lookup_flag fs' n = (case map_of nvs n of Some v \<Rightarrow> Some v | None \<Rightarrow> lookup_flag ?fs n)"
    using Cons.IH [of ?fs] by auto
  moreover from Cons.prems have "map_of nvs (fst nv) = None" by (simp add: map_of_eq_None_iff)
  ultimately show ?case
    using Cons.prems lookup_insert_flag [of "\<lparr>fl_Name = fst nv, fl_Value = snd nv, fl_Changed = False\<rparr>" fs]
    by (auto simp: add_flags_def add_flag_def split: option.splits)
qed (simp add: add_flags_def)

lemma add_flags_fresh:
  assumes "distinct (map fst nvs)"
  obtains fs where "add_flags nvs (Some []) = Some fs" and "\<And>n. lookup_flag fs n = map_of nvs n"
proof -
  have "(case x of Some v \<Rightarrow> Some v | None \<Rightarrow> lookup_flag [] n) = x" for x :: "flag_value option" and n
    by (simp add: lookup_flag_def split: option.splits)
  with add_flags_registers [OF assms, of "[]"] that show thesis by auto
qed

lemma add_flags_append: "add_flags ms (add_flags ns fs) = add_flags (ns @ ms) fs"
  by (simp add: add_flags_def)

lemmas flag_tables = registerRootFlags_def registerServiceFlags_def registerWebFlags_def registerWebServerFlags_def
  registerDiscoveryClientTLSFlags_def

text \<open>The tables of the two commands have no name twice, so registering them does not panic.\<close>

lemma registerServiceFlags_defaults:
  "\<exists>fs. registerServiceFlags (Some []) = Some fs \<and>
     lookup_flag fs ''server-addr'' = Some (FString '':3000'') \<and>
     lookup_flag fs ''discovery-cleanup-interval'' = Some (FDuration (5 * 60 * 1000 * millisecond)) \<and>
     lookup_flag fs ''discovery-snapshot-path'' = Some (FString '''') \<and>
     lookup_flag fs ''web-enable'' = Some (FBool False)"
proof -
  have tab: "registerServiceFlags (Some []) = add_flags
      ([(''server-addr'', FString ('':'' @ defaultServicePort)), (''server-tls-enable'', FBool False),
        (''server-tls-refresh'', FDuration 0), (''server-tls-key-password'', FString ''''),
        (''server-tls-file-key'', FString ''''), (''server-tls-file-cert'', FString ''''),
        (''server-tls-file-client-ca'', FString ''''), (''server-tls-file-client-crl'', FString ''''),
        (''discovery-redirect-endpoint'', FString ''''),
        (''discovery-cleanup-interval'', FDuration (5 * 60 * 1000 * millisecond)),
        (''discovery-snapshot-path'', FString ''''),
        (''discovery-snapshot-interval'', FDuration (60 * 1000 * millisecond))] @
       [(''web-addr'', FString '':8080''), (''web-tls-enable'', FBool False), (''web-tls-refresh'', FDuration 0),
        (''web-tls-key-password'', FString ''''), (''web-tls-file-key'', FString ''''),
        (''web-tls-file-cert'', FString ''''), (''web-tls-file-client-ca'', FString ''''),
        (''web-tls-file-client-crl'', FString '''')] @
       [(''web-enable'', FBool False), (''web-discovery-client-target'', FString InMemoryTransport)] @
       [(''web-discovery-client-tls-enable'', FBool False), (''web-discovery-client-tls-refresh'', FDuration 0),
        (''web-discovery-client-tls-insecure-skip-verify'', FBool False),
        (''web-discovery-client-tls-use-system-pool'', FBool True),
        (''web-discovery-client-tls-key-password'', FString ''''),
        (''web-discovery-client-tls-file-root-ca'', FString ''''),
        (''web-discovery-client-tls-file-key'', FString ''''),
        (''web-discovery-client-tls-file-cert'', FString '''')]) (Some [])" (is "_ = add_flags ?tab _")
    by (simp only: flag_tables add_flags_append append_assoc)
  have "distinct (map fst ?tab)" by simp
  then obtain fs where reg: "add_flags ?tab (Some []) = Some fs" and look: "\<And>n. lookup_flag fs n = map_of ?tab n"
    using add_flags_fresh [where nvs = ?tab] by metis
  have "lookup_flag fs ''server-addr'' = Some (FString '':3000'')" by (simp add: look defaultServicePort_def)
  moreover have "lookup_flag fs ''discovery-cleanup-interval'' = Some (FDuration (5 * 60 * 1000 * millisecond))"
    by (simp add: look)
  moreover have "lookup_flag fs ''discovery-snapshot-path'' = Some (FString '''')" by (simp add: look)
  moreover have "lookup_flag fs ''web-enable'' = Some (FBool False)" by (simp add: look)
  ultimately show ?thesis unfolding tab reg by blast
qed

lemma add_flags_ok: "distinct (map fst nvs) \<Longrightarrow> \<exists>fs. add_flags nvs (Some []) = Some fs"
  by (metis add_flags_fresh)

lemma registerWebFlags_ok: "\<exists>fs. registerWebFlags (Some []) = Some fs"
  unfolding flag_tables add_flags_append by (rule add_flags_ok) simp

lemma registerRootFlags_ok: "\<exists>fs. registerRootFlags (Some []) = Some fs"
  unfolding flag_tables by (rule add_flags_ok) simp

text \<open>Without settings nothing is changed.\<close>

lemma viper_Get_none: "viper_Get Map.empty Map.empty = Map.empty"
  by (rule ext) (simp add: viper_Get_def os_setting_def)

lemma applyViper_none [simp]: "applyViperToFlagSet parse Map.empty fs = Inr fs"
  by (induction fs) (simp_all add: set_flag_def)

lemma BindFlagsToViper_none:
  "BindFlagsToViper parse Map.empty files (Command [] r [Command r s [], Command r w []]) 0 = Inr (Command r s [])"
  by (simp add: BindFlagsToViper_def viper_Get_none applyViperToCommand_def read_config_def)

text \<open>
  The service without arguments, environment and configuration file: all flags are registered, and
  the process starts with an empty state, the gRPC listener and the periodic cleanup, and without
  snapshots and web server.
\<close>

theorem service_with_defaults:
  "\<exists>root cmd. newRootCommand = Some root \<and> BindFlagsToViper parse Map.empty files root 0 = Inr cmd \<and>
     Addr (Server (service_config (cmd_Flags cmd))) = '':3000'' \<and>
     runService X R now readable fs NewDiscoveryClient Register no_tls registry dial cmd =
       Inr (empty_state X, [Listener_actor ''discovery'', Cleanup_actor, Context_cancel_actor])"
proof -
  obtain r s w where root: "newRootCommand = Some (Command [] r [Command r s [], Command r w []])"
    and s: "lookup_flag s ''server-addr'' = Some (FString '':3000'')"
    "lookup_flag s ''discovery-cleanup-interval'' = Some (FDuration (5 * 60 * 1000 * millisecond))"
    "lookup_flag s ''discovery-snapshot-path'' = Some (FString '''')" "lookup_flag s ''web-enable'' = Some (FBool False)"
    using registerRootFlags_ok registerServiceFlags_defaults registerWebFlags_ok
    by (auto simp: newRootCommand_def)
  have "sint (5 * 60 * 1000 * millisecond :: duration) > 0" by (simp add: millisecond_def)
  then have "runService X R now readable fs NewDiscoveryClient Register no_tls registry dial (Command r s []) =
      Inr (empty_state X, [Listener_actor ''discovery'', Cleanup_actor, Context_cancel_actor])"
    by (simp add: runService_def StartDiscoveryServer_def NewState_def WithSnapshot_def addCleanupActor_def
        addSnapshotActor_def service_config_def str_of_def bool_of_def dur_of_def s)
  with root BindFlagsToViper_none show ?thesis
    by (fastforce simp: service_config_def str_of_def s)
qed

lemma main_service_with_defaults:
  "main_process X R now readable fs NewDiscoveryClient Register no_tls registry dial parse Map.empty files ''service'' (\<lambda>c. c) =
     Service_process (Inr (empty_state X, [Listener_actor ''discovery'', Cleanup_actor, Context_cancel_actor]))"
proof -
  obtain root cmd where facts: "newRootCommand = Some root" "BindFlagsToViper parse Map.empty files root 0 = Inr cmd"
    "runService X R now readable fs NewDiscoveryClient Register no_tls registry dial cmd =
       Inr (empty_state X, [Listener_actor ''discovery'', Cleanup_actor, Context_cancel_actor])"
    using service_with_defaults [where parse = parse and files = files and X = X and R = R and now = now and
        readable = readable and fs = fs and NewDiscoveryClient = NewDiscoveryClient and Register = Register and
        no_tls = no_tls and registry = registry and dial = dial] by blast
  show ?thesis unfolding main_process_def facts(1) by (simp add: newServiceCommand_def newWebCommand_def facts(2,3))
qed

end
