(* ===== verification/Grpc_Server.thy ===== *)
theory Grpc_Server
  imports Flags
begin

text \<open>
  The gRPC server around the handlers (\<^verbatim>\<open>internal/server/discovery_server.go\<close>), the registry of the
  metrics (\<^verbatim>\<open>internal/metrics/registry.go\<close>) and the client of the web server
  (\<^verbatim>\<open>internal/web/discovery_client.go\<close>).

  A handler returns a response and an error, or panics. An interceptor wraps a handler; the first of
  a chain is the outermost. The interceptors for logging, metrics and recovery belong to other
  packages and are parameters, as are the Prometheus registry and the constructors of credentials
  and connections.
\<close>

section \<open>Interceptor chains\<close>

datatype 'r outcome = Answered 'r "go_error option" | Panicked string

type_synonym ('q, 'r) handler = "'q \<Rightarrow> 'r outcome"
type_synonym ('q, 'r) interceptor = "string \<Rightarrow> ('q, 'r) handler \<Rightarrow> ('q, 'r) handler"

definition chain :: "('q, 'r) interceptor list \<Rightarrow> ('q, 'r) interceptor" where
  "chain is method h = foldr (\<lambda>i h'. i method h') is h"

text \<open>An interceptor of the repository has no deferred function: a panic of the handler passes through it.\<close>

definition around ::
  "(('q \<Rightarrow> 'r \<times> go_error option) \<Rightarrow> 'q \<Rightarrow> 'r \<times> go_error option) \<Rightarrow> ('q, 'r) handler \<Rightarrow> ('q, 'r) handler" where
  "around f h q =
     (case h q of
        Panicked p \<Rightarrow> Panicked p
      | Answered r err \<Rightarrow> (case f (\<lambda>_. (r, err)) q of (r', err') \<Rightarrow> Answered r' err'))"

definition on_stream :: "(('q \<Rightarrow> go_error option) \<Rightarrow> 'q \<Rightarrow> go_error option) \<Rightarrow> ('q, unit) handler \<Rightarrow> ('q, unit) handler" where
  "on_stream f = around (\<lambda>h q. ((), f (\<lambda>q'. snd (h q')) q))"

record ('q, 'r, 's) grpc_packages =
  logging_Unary :: "(level \<Rightarrow> level) \<Rightarrow> (Code \<Rightarrow> level) \<Rightarrow> ('q, 'r) interceptor"
  logging_Stream :: "(level \<Rightarrow> level) \<Rightarrow> (Code \<Rightarrow> level) \<Rightarrow> ('s, unit) interceptor"
  metrics_Unary :: "('q, 'r) interceptor"
  metrics_Stream :: "('s, unit) interceptor"
  recovery_Unary :: "('q, 'r) interceptor"
  recovery_Stream :: "('s, unit) interceptor"
  default_level :: "Code \<Rightarrow> level"

section \<open>The server\<close>

datatype service = Reflection_service | Cluster_service clusterServer | Health_service "(string \<times> bool) list"

record ('q, 'r, 's) DiscoveryServer =
  unary_interceptors :: "('q, 'r) interceptor list"
  stream_interceptors :: "('s, unit) interceptor list"
  services :: "service list"

definition MustRegister :: "('g \<Rightarrow> string \<Rightarrow> string option \<times> 'g) \<Rightarrow> string list \<Rightarrow> 'g \<Rightarrow> 'g option" where
  "MustRegister Register cs registry =
     fold (\<lambda>c acc. case acc of
         None \<Rightarrow> None
       | Some g \<Rightarrow> (case Register g c of (Some _, _) \<Rightarrow> None | (None, g') \<Rightarrow> Some g')) cs (Some registry)"

definition NewRegistry :: "('g \<Rightarrow> string \<Rightarrow> string option \<times> 'g) \<Rightarrow> 'g \<Rightarrow> 'g option" where
  "NewRegistry Register new = MustRegister Register [''go_collector'', ''process_collector''] new"

text \<open>
  The metrics are registered first, which panics when the registry refuses them. A stream is
  intercepted with its kind, which only the debug message uses.
\<close>

definition NewDiscoveryServer ::
  "('g \<Rightarrow> string \<Rightarrow> string option \<times> 'g) \<Rightarrow> ('q, 'r, 's) grpc_packages \<Rightarrow> ('s \<Rightarrow> bool \<times> bool) \<Rightarrow> DiscoveryConfig \<Rightarrow> 'g \<Rightarrow>
   (('q, 'r, 's) DiscoveryServer \<times> 'g) option" where
  "NewDiscoveryServer Register P kind cfg registry =
     (case MustRegister Register [''grpc_server_metrics''] registry of
        None \<Rightarrow> None
      | Some registry' \<Rightarrow> Some
          (\<lparr>unary_interceptors =
              [\<lambda>m. around (\<lambda>h q. snd (debugStartUnaryInterceptor h m q)),
               logging_Unary P grpcInterceptorLogger (call_level (default_level P)),
               \<lambda>m. around normalizeContextUnaryServerInterceptor,
               metrics_Unary P,
               recovery_Unary P],
            stream_interceptors =
              [\<lambda>m. on_stream (\<lambda>h q. snd (debugStartStreamInterceptor h m (fst (kind q)) (snd (kind q)) q)),
               logging_Stream P grpcInterceptorLogger (call_level (default_level P)),
               \<lambda>m. on_stream normalizeContextStreamServerInterceptor,
               metrics_Stream P,
               recovery_Stream P],
            services =
              [Reflection_service, Cluster_service (newClusterServer cfg),
               Health_service [(''sidero.discovery.server.Cluster'', True)]]\<rparr>, registry'))"

section \<open>What a caller sees\<close>

text \<open>
  What the packages document: logging and metrics pass a result on, and the recovery turns a panic
  into an error with code Internal.
\<close>

definition passes_on :: "('q, 'r) interceptor \<Rightarrow> bool" where
  "passes_on i \<longleftrightarrow> (\<forall>m h q. i m h q = h q)"

definition recovers :: "'r \<Rightarrow> ('q, 'r) interceptor \<Rightarrow> bool" where
  "recovers none i \<longleftrightarrow>
     (\<forall>m h q. i m h q = (case h q of Panicked p \<Rightarrow> Answered none (Some (Status Internal p)) | out \<Rightarrow> out))"

definition documented :: "'r \<Rightarrow> ('q, 'r, 's) grpc_packages \<Rightarrow> bool" where
  "documented none P \<longleftrightarrow>
     (\<forall>l c. passes_on (logging_Unary P l c) \<and> passes_on (logging_Stream P l c)) \<and>
     passes_on (metrics_Unary P) \<and> passes_on (metrics_Stream P) \<and>
     recovers none (recovery_Unary P) \<and> recovers () (recovery_Stream P)"

fun seen :: "'r \<Rightarrow> 'r outcome \<Rightarrow> 'r outcome" where
  "seen none (Answered r err) = Answered r (normalizeContextErr err)"
| "seen none (Panicked p) = Answered none (Some (Status Internal p))"

text \<open>
  Behind the interceptors a call always returns: with the handler's response and its error, where
  the errors of a context have become their status codes, or with an internal error when the
  handler panicked. The same holds for streams.
\<close>

theorem call_through_interceptors:
  assumes "documented none P" and "NewDiscoveryServer Register P kind cfg registry = Some (srv, registry')"
  shows "chain (unary_interceptors srv) m h q = seen none (h q) \<and>
    chain (stream_interceptors srv) m sh st = seen () (sh st)"
proof
  from assms(2) have srv:
    "unary_interceptors srv = [\<lambda>m. around (\<lambda>h q. snd (debugStartUnaryInterceptor h m q)),
       logging_Unary P grpcInterceptorLogger (call_level (default_level P)),
       \<lambda>m. around normalizeContextUnaryServerInterceptor, metrics_Unary P, recovery_Unary P]"
    "stream_interceptors srv =
      [\<lambda>m. on_stream (\<lambda>h q. snd (debugStartStreamInterceptor h m (fst (kind q)) (snd (kind q)) q)),
       logging_Stream P grpcInterceptorLogger (call_level (default_level P)),
       \<lambda>m. on_stream normalizeContextStreamServerInterceptor, metrics_Stream P, recovery_Stream P]"
    by (auto simp: NewDiscoveryServer_def split: option.splits)
  note laws = assms(1) [unfolded documented_def passes_on_def recovers_def]
  show "chain (unary_interceptors srv) m h q = seen none (h q)"
    using laws by (cases "h q")
      (simp_all add: chain_def srv around_def debugStartUnaryInterceptor_def normalizeContextUnaryServerInterceptor_def)
  show "chain (stream_interceptors srv) m sh st = seen () (sh st)"
    using laws by (cases "sh st")
      (simp_all add: chain_def srv on_stream_def around_def debugStartStreamInterceptor_def
        normalizeContextStreamServerInterceptor_def)
qed

text \<open>
  The handlers as the server calls them, with the state that they leave. A handler that panics
  leaves no statement about the state.
\<close>

definition unary_outcome :: "'r \<Rightarrow> go_error + 'r \<Rightarrow> 'r outcome" where
  "unary_outcome none x = (case x of Inl err \<Rightarrow> Answered none (Some err) | Inr r \<Rightarrow> Answered r None)"

definition AffiliateUpdate_handler ::
  "'m xsync \<Rightarrow> ('d \<Rightarrow> duration) \<Rightarrow> env \<Rightarrow> 'm State \<Rightarrow> ('d pb_AffiliateUpdateRequest option, unit) handler" where
  "AffiliateUpdate_handler X AsDuration e s req =
     (case AffiliateUpdate X AsDuration e req s of
        None \<Rightarrow> Panicked ''send on closed channel''
      | Some (_, r) \<Rightarrow> unary_outcome () r)"

lemma validateAffiliateEndpoints_status:
  "validateAffiliateEndpoints es = Some err \<Longrightarrow> err = ErrAffiliateEndpointTooBig"
  by (induction es) (auto split: if_splits)

lemma validateUpdate_status:
  "validateUpdate AsDuration req = Some err \<Longrightarrow>
   \<exists>c msg. err = Status c msg \<and> c \<in> {InvalidArgument, OutOfRange}"
  by (auto simp: validateUpdate_def validateClusterID_def validateAffiliateID_def validateAffiliateData_def
      validateAffiliateTTL_def validateTTL_def
      ErrClusterIDEmpty_def ErrClusterIDTooLong_def ErrAffiliateIDEmpty_def ErrAffiliateIDTooLong_def
      ErrAffiliateDataTooBig_def ErrAffiliateEndpointTooBig_def ErrAffiliateTTLEmpty_def ErrTTLTooLong_def
      dest!: validateAffiliateEndpoints_status split: if_splits option.splits)

lemma AffiliateUpdate_status:
  assumes "AffiliateUpdate X AsDuration e req s = Some (s', r)"
  shows "r = Inr () \<or> (\<exists>c msg. r = Inl (Status c msg) \<and> c \<in> {InvalidArgument, OutOfRange, ResourceExhausted})"
  using assms validateUpdate_status [of AsDuration req]
  by (auto simp: AffiliateUpdate_def split: option.splits prod.splits)

lemma AffiliateUpdate_returns:
  assumes "xsync_map X" and "state_inv X s" and "range_order (sub_order e)"
  shows "\<exists>s' r. AffiliateUpdate X AsDuration e req s = Some (s', r)"
proof (cases "validateUpdate AsDuration req")
  case None
  show ?thesis by (rule xsync_map.AffiliateUpdate_cases [OF assms None]) blast
qed (simp add: AffiliateUpdate_def)


definition demo_packages :: "('q, unit, 's) grpc_packages" where
  "demo_packages =
     (let recover = (\<lambda>h q. case h q of Panicked p \<Rightarrow> Answered () (Some (Status Internal p)) | out \<Rightarrow> out) in
      \<lparr>logging_Unary = \<lambda>l c m h. h, logging_Stream = \<lambda>l c m h. h, metrics_Unary = \<lambda>m h. h, metrics_Stream = \<lambda>m h. h,
       recovery_Unary = \<lambda>m. recover,
       recovery_Stream = \<lambda>m h q. case h q of Panicked p \<Rightarrow> Answered () (Some (Status Internal p)) | out \<Rightarrow> out,
       default_level = \<lambda>c. LevelError\<rparr>)"

lemma demo_packages_documented: "documented () demo_packages"
  by (simp add: documented_def passes_on_def recovers_def demo_packages_def)


section \<open>The discovery client\<close>

record ('n, 'k) DiscoveryClient =
  dc_conn :: 'n
  dc_client :: 'k

definition NewDiscoveryClientWithConn :: "('n \<Rightarrow> 'k) \<Rightarrow> 'n \<Rightarrow> ('n, 'k) DiscoveryClient" where
  "NewDiscoveryClientWithConn NewClusterClient conn = \<lparr>dc_conn = conn, dc_client = NewClusterClient conn\<rparr>"

definition NewDiscoveryClient ::
  "(TLSClientConfig \<Rightarrow> string + 't) \<Rightarrow> ('t \<Rightarrow> 'cred) \<Rightarrow> 'cred \<Rightarrow> (string \<Rightarrow> 'cred \<Rightarrow> string + 'n) \<Rightarrow> ('n \<Rightarrow> 'k) \<Rightarrow>
   TLSClientConfig ClientConfig \<Rightarrow> string + ('n, 'k) DiscoveryClient" where
  "NewDiscoveryClient GetTLSClientConfigFunc NewTLS insecure NewClient NewClusterClient cfg =
     (case (if cli_Enable (ClientTLS cfg)
            then (case GetTLSClientConfigFunc (ClientTLS cfg) of
                    Inl err \<Rightarrow> Inl (''create tls client config: '' @ err)
                  | Inr tls \<Rightarrow> Inr (NewTLS tls))
            else Inr insecure) of
        Inl err \<Rightarrow> Inl err
      | Inr creds \<Rightarrow>
          (case NewClient (Target cfg) creds of
             Inl err \<Rightarrow> Inl err
           | Inr conn \<Rightarrow> Inr (NewDiscoveryClientWithConn NewClusterClient conn)))"

definition DiscoveryClient_Close :: "('n \<Rightarrow> 'w \<Rightarrow> string option \<times> 'w) \<Rightarrow> ('n, 'k) DiscoveryClient \<Rightarrow> 'w \<Rightarrow> 'w" where
  "DiscoveryClient_Close CloseConn c w = snd (CloseConn (dc_conn c) w)"

text \<open>
  The web command with TLS towards the discovery service: a TLS configuration that cannot be made
  keeps the process from starting, with an error that names every layer, and no connection is made
  without the configured credentials.
\<close>

theorem web_refuses_bad_tls:
  assumes "cli_Enable (ClientTLS (client_config (cmd_Flags cmd)))" and "str_of (cmd_Flags cmd) ''web-discovery-client-target'' \<noteq> ''''"
    and "GetTLSClientConfigFunc (ClientTLS (client_config (cmd_Flags cmd))) = Inl err"
  shows "runWeb (NewDiscoveryClient GetTLSClientConfigFunc NewTLS insecure NewClient NewClusterClient) Register no_tls registry cmd =
    Inl (Plain (''start discovery web server: create discovery client: create tls client config: '' @ err))"
  using assms
  by (simp add: runWeb_def StartDiscoveryWeb_def NewWebServer_def web_client_def NewDiscoveryClient_def web_config_def
      client_config_def WithClientConfig_def WithMetrics_def)

end
