(* ===== verification/Http_Metrics.thy ===== *)
theory Http_Metrics
  imports Text_Encoding Validation "HOL-Library.Char_ord" "HOL-Library.List_Lexorder"
begin

text \<open>
  The HTTP metrics middleware (\<^verbatim>\<open>internal/metrics/prometheus.go\<close>): which labels a metric has,
  which values a request gives them, and what is recorded.

  The Prometheus client and the HTTP framework are not part of the repository. Of a request the
  middleware reads the fields of \<open>gin_ctx\<close>; registering a metric and selecting its series by label
  values are parameters that may fail; a recorded observation is a call. Go strings are compared
  bytewise, as the lexicographic order on lists of characters does.
\<close>

section \<open>Requests\<close>

record gin_ctx =
  FullPath :: string
  Request_Method :: string
  Request_Host :: string
  Writer_Status :: int

type_synonym LabelValueFunc = "gin_ctx \<Rightarrow> go_error option \<Rightarrow> string"

definition defaultStatusResolver :: "gin_ctx \<Rightarrow> go_error option \<Rightarrow> int" where
  "defaultStatusResolver c err =
     (let status = Writer_Status c;
          status = (if err \<noteq> None \<and> (status = 0 \<or> status = 200) then 500 else status)
      in if status = 0 then 200 else status)"

text \<open>\<^verbatim>\<open>strconv.Itoa\<close>, and \<^verbatim>\<open>strings.ToValidUTF8\<close>, which replaces each run of undecodable bytes.\<close>

definition decimal_digit :: "nat \<Rightarrow> char" where
  "decimal_digit n = ''0123456789'' ! (n mod 10)"

fun nat_text :: "nat \<Rightarrow> string" where
  "nat_text n = (if n < 10 then [decimal_digit n] else nat_text (n div 10) @ [decimal_digit n])"

declare nat_text.simps [simp del]

definition Itoa :: "int \<Rightarrow> string" where
  "Itoa i = (if i < 0 then CHR ''-'' # nat_text (nat (- i)) else nat_text (nat i))"

fun replace_runs :: "string \<Rightarrow> bool \<Rightarrow> rune list \<Rightarrow> string" where
  "replace_runs new inside [] = ''''"
| "replace_runs new inside (Rune u # rs) = u @ replace_runs new False rs"
| "replace_runs new inside (Bad c # rs) = (if inside then '''' else new) @ replace_runs new True rs"

definition ToValidUTF8 :: "string \<Rightarrow> string \<Rightarrow> string" where
  "ToValidUTF8 s new = replace_runs new False (runes s)"

section \<open>Labels\<close>

fun contains_from :: "int \<Rightarrow> 'k list \<Rightarrow> 'k \<Rightarrow> int" where
  "contains_from i [] needle = - 1"
| "contains_from i (v # vs) needle = (if v = needle then i else contains_from (i + 1) vs needle)"

definition containsAt :: "'k list \<Rightarrow> 'k \<Rightarrow> int" where
  "containsAt haystack needle = contains_from 0 haystack needle"

record customLabelValuer =
  cv_index :: int
  cv_label :: string
  cv_valueFunc :: LabelValueFunc

fun place_labels :: "customLabelValuer list \<Rightarrow> string list \<Rightarrow> string list \<times> customLabelValuer list" where
  "place_labels [] labelNames = (labelNames, [])"
| "place_labels (cv # cvs) labelNames =
     (let idx = containsAt labelNames (cv_label cv);
          found = idx \<noteq> - 1;
          names = (if found then labelNames else labelNames @ [cv_label cv]);
          at = (if found then idx else int (length labelNames))
      in case place_labels cvs names of (ns, rest) \<Rightarrow> (ns, cv\<lparr>cv_index := at\<rparr> # rest))"

definition createLabels ::
  "(string list \<Rightarrow> string list) \<Rightarrow> string list \<Rightarrow> (string \<times> LabelValueFunc) list \<Rightarrow>
   string list \<times> customLabelValuer list" where
  "createLabels ord baseLabels customLabelFuncs =
     (if length customLabelFuncs = 0 then (baseLabels, [])
      else
        let customValuers = map (\<lambda>label. \<lparr>cv_index = 0, cv_label = label,
              cv_valueFunc = the (map_of customLabelFuncs label)\<rparr>) (ord (keys customLabelFuncs))
        in place_labels (sort_key cv_label customValuers) baseLabels)"

section \<open>The middleware\<close>

record metric_opts =
  opt_Namespace :: string
  opt_Subsystem :: string
  opt_Name :: string

record MiddlewareConfig =
  Namespace :: string
  Subsystem :: string
  IncludeHost :: bool
  LabelFuncs :: "(string \<times> LabelValueFunc) list"
  HistogramOptsFunc :: "(metric_opts \<Rightarrow> metric_opts) option"
  CounterOptsFunc :: "(metric_opts \<Rightarrow> metric_opts) option"
  StatusCodeResolver :: "(gin_ctx \<Rightarrow> go_error option \<Rightarrow> int) option"

definition defaultSubsystem :: string where
  "defaultSubsystem = ''gin''"

definition baseLabels :: "MiddlewareConfig \<Rightarrow> string list" where
  "baseLabels conf = [''code'', ''method'', ''url''] @ (if IncludeHost conf then [''host''] else [])"

definition base_value :: "gin_ctx \<Rightarrow> int \<Rightarrow> string \<Rightarrow> string" where
  "base_value c status name =
     (let url = (if FullPath c = '''' then ''/'' else FullPath c)
      in if name = ''code'' then Itoa status
         else if name = ''method'' then Request_Method c
         else if name = ''host'' then Request_Host c
         else if name = ''url'' then ToValidUTF8 url replacement
         else '''')"

text \<open>Writing the custom values; an index out of range panics.\<close>

fun put_custom :: "gin_ctx \<Rightarrow> go_error option \<Rightarrow> customLabelValuer list \<Rightarrow> string list \<Rightarrow> string list option" where
  "put_custom c err [] values = Some values"
| "put_custom c err (cv # cvs) values =
     (if 0 \<le> cv_index cv \<and> nat (cv_index cv) < length values
      then put_custom c err cvs (values[nat (cv_index cv) := cv_valueFunc cv c err])
      else None)"

datatype 's metric_effect = Observed 's int | Counted 's

record 's middleware =
  mw_labelNames :: "string list"
  mw_valuers :: "customLabelValuer list"
  mw_resolver :: "gin_ctx \<Rightarrow> go_error option \<Rightarrow> int"
  mw_duration :: "string list \<Rightarrow> string + 's"
  mw_count :: "string list \<Rightarrow> string + 's"

text \<open>
  Registering gives back the metric's \<^verbatim>\<open>GetMetricWithLabelValues\<close>, which may fail with a message, or fails.
\<close>

definition ToMiddleware ::
  "(string list \<Rightarrow> string list) \<Rightarrow> ('r \<Rightarrow> metric_opts \<Rightarrow> string list \<Rightarrow> (go_error + (string list \<Rightarrow> string + 's)) \<times> 'r) \<Rightarrow>
   'r \<Rightarrow> MiddlewareConfig \<Rightarrow> (go_error + 's middleware) \<times> 'r" where
  "ToMiddleware ord Register r conf =
     (let subsystem = (if Subsystem conf = '''' then defaultSubsystem else Subsystem conf);
          counterOpts = (case CounterOptsFunc conf of None \<Rightarrow> \<lambda>opts. opts | Some f \<Rightarrow> f);
          histogramOpts = (case HistogramOptsFunc conf of None \<Rightarrow> \<lambda>opts. opts | Some f \<Rightarrow> f);
          resolver = (case StatusCodeResolver conf of None \<Rightarrow> defaultStatusResolver | Some f \<Rightarrow> f);
          (labelNames, customValuers) = createLabels ord (baseLabels conf) (LabelFuncs conf)
      in case Register r (counterOpts \<lparr>opt_Namespace = Namespace conf, opt_Subsystem = subsystem,
                 opt_Name = ''requests_total''\<rparr>) labelNames of
           (Inl err, r1) \<Rightarrow> (Inl err, r1)
         | (Inr requestCount, r1) \<Rightarrow>
             (case Register r1 (histogramOpts \<lparr>opt_Namespace = Namespace conf, opt_Subsystem = subsystem,
                     opt_Name = ''request_duration_seconds''\<rparr>) labelNames of
                (Inl err, r2) \<Rightarrow> (Inl err, r2)
              | (Inr requestDuration, r2) \<Rightarrow>
                  (Inr \<lparr>mw_labelNames = labelNames, mw_valuers = customValuers, mw_resolver = resolver,
                        mw_duration = requestDuration, mw_count = requestCount\<rparr>, r2)))"

definition NewMiddlewareWithConfig ::
  "(string list \<Rightarrow> string list) \<Rightarrow> ('r \<Rightarrow> metric_opts \<Rightarrow> string list \<Rightarrow> (go_error + (string list \<Rightarrow> string + 's)) \<times> 'r) \<Rightarrow>
   'r \<Rightarrow> MiddlewareConfig \<Rightarrow> (go_error + 's middleware) \<times> 'r" where
  "NewMiddlewareWithConfig ord Register r conf = ToMiddleware ord Register r conf"

definition NewMiddleware ::
  "(string list \<Rightarrow> string list) \<Rightarrow> ('r \<Rightarrow> metric_opts \<Rightarrow> string list \<Rightarrow> (go_error + (string list \<Rightarrow> string + 's)) \<times> 'r) \<Rightarrow>
   'r \<Rightarrow> string \<Rightarrow> (go_error + 's middleware) \<times> 'r" where
  "NewMiddleware ord Register r subsystem =
     NewMiddlewareWithConfig ord Register r
       \<lparr>Namespace = '''', Subsystem = subsystem, IncludeHost = False, LabelFuncs = [], HistogramOptsFunc = None,
        CounterOptsFunc = None, StatusCodeResolver = None\<rparr>"

text \<open>
  The handler that serves the metrics: of a configured gatherer or of the default one, and
  instrumented when the gatherer is also a registerer.
\<close>

record 'g HandlerConfig =
  Gatherer :: "'g option"

datatype 'g metrics_handler = HandlerFor 'g | InstrumentMetricHandler 'g "'g metrics_handler"

definition NewHandlerWithConfig :: "('g \<Rightarrow> bool) \<Rightarrow> 'g \<Rightarrow> 'g HandlerConfig \<Rightarrow> 'g metrics_handler" where
  "NewHandlerWithConfig is_Registerer DefaultGatherer config =
     (let gatherer = (case Gatherer config of None \<Rightarrow> DefaultGatherer | Some g \<Rightarrow> g);
          h = HandlerFor gatherer
      in if is_Registerer gatherer then InstrumentMetricHandler gatherer h else h)"

definition NewHandler :: "('g \<Rightarrow> bool) \<Rightarrow> 'g \<Rightarrow> 'g metrics_handler" where
  "NewHandler is_Registerer DefaultGatherer =
     NewHandlerWithConfig is_Registerer DefaultGatherer \<lparr>Gatherer = None\<rparr>"

definition label_values :: "'s middleware \<Rightarrow> gin_ctx \<Rightarrow> go_error option \<Rightarrow> string list option" where
  "label_values mw c err =
     put_custom c err (mw_valuers mw) (map (base_value c (mw_resolver mw c err)) (mw_labelNames mw))"

text \<open>
  One request: \<open>start\<close> and \<open>stop\<close> are the two clock readings, \<open>err\<close> what the next handler returned
  and \<open>c\<close> the context it left. The result is the recorded calls and the returned error.
\<close>

definition handle ::
  "'s middleware \<Rightarrow> time \<Rightarrow> time \<Rightarrow> gin_ctx \<Rightarrow> go_error option \<Rightarrow> ('s metric_effect list \<times> go_error option) option" where
  "handle mw start stop c err =
     (case label_values mw c err of
        None \<Rightarrow> None
      | Some values \<Rightarrow>
          Some (case mw_duration mw values of
                  Inl e \<Rightarrow> ([], Some (Plain (''failed to label request duration metric with values, err: '' @ e)))
                | Inr obs \<Rightarrow>
                    (case mw_count mw values of
                       Inl e \<Rightarrow> ([Observed obs (stop - start)],
                          Some (Plain (''failed to label request count metric with values, err: '' @ e)))
                     | Inr cnt \<Rightarrow> ([Observed obs (stop - start), Counted cnt], err))))"

text \<open>
  The adapter for the framework: the errors that the rest of the chain left on the context; the
  first one is what the middleware returns, and a returned error is recorded on the context.
\<close>

definition GinMiddleware ::
  "'s middleware \<Rightarrow> time \<Rightarrow> time \<Rightarrow> gin_ctx \<Rightarrow> go_error list \<Rightarrow> ('s metric_effect list \<times> go_error list) option" where
  "GinMiddleware mw start stop c errors =
     (case handle mw start stop c (if 0 < length errors then Some (errors ! 0) else None) of
        None \<Rightarrow> None
      | Some (effects, None) \<Rightarrow> Some (effects, errors)
      | Some (effects, Some err) \<Rightarrow> Some (effects, errors @ [err]))"

section \<open>Label values\<close>

lemma contains_from_spec:
  "if x \<in> set xs then \<exists>n < length xs. contains_from i xs x = i + int n \<and> xs ! n = x else contains_from i xs x = - 1"
proof (induction xs arbitrary: i)
  case (Cons y ys)
  show ?case
  proof (cases "y = x")
    case False
    with Cons [of "i + 1"] show ?thesis by (fastforce intro: exI [of _ "Suc n" for n])
  qed auto
qed simp

lemma containsAt_spec:
  "x \<notin> set xs \<Longrightarrow> containsAt xs x = - 1"
  "x \<in> set xs \<Longrightarrow> 0 \<le> containsAt xs x \<and> nat (containsAt xs x) < length xs \<and> xs ! nat (containsAt xs x) = x"
  using contains_from_spec [of x xs 0] by (auto simp: containsAt_def)

definition well_placed :: "string list \<Rightarrow> customLabelValuer \<Rightarrow> bool" where
  "well_placed names p \<longleftrightarrow> 0 \<le> cv_index p \<and> nat (cv_index p) < length names \<and> names ! nat (cv_index p) = cv_label p"

lemma well_placed_append: "well_placed names p \<Longrightarrow> well_placed (names @ ms) p"
  by (auto simp: well_placed_def nth_append)

lemma place_labels_spec:
  assumes "distinct (map cv_label cvs)" and "place_labels cvs names = (ns, ps)"
  shows "ns = names @ filter (\<lambda>l. l \<notin> set names) (map cv_label cvs) \<and>
    map (\<lambda>p. (cv_label p, cv_valueFunc p)) ps = map (\<lambda>p. (cv_label p, cv_valueFunc p)) cvs \<and>
    (\<forall>p \<in> set ps. well_placed ns p)"
  using assms
proof (induction cvs arbitrary: names ns ps)
  case (Cons cv cvs)
  let ?found = "cv_label cv \<in> set names"
  let ?names = "if ?found then names else names @ [cv_label cv]"
  let ?at = "if ?found then containsAt names (cv_label cv) else int (length names)"
  have idx: "containsAt names (cv_label cv) \<noteq> - 1 \<longleftrightarrow> ?found"
    using containsAt_spec [of "cv_label cv" names] by fastforce
  then obtain rest where rest: "place_labels cvs ?names = (ns, rest)" "ps = cv\<lparr>cv_index := ?at\<rparr> # rest"
    using Cons.prems(2) by (auto simp: Let_def split: prod.splits if_splits)
  note IH = Cons.IH [OF _ rest(1)]
  have "well_placed ?names (cv\<lparr>cv_index := ?at\<rparr>)"
    using containsAt_spec [of "cv_label cv" names] by (auto simp: well_placed_def)
  then have "well_placed (?names @ filter (\<lambda>l. l \<notin> set ?names) (map cv_label cvs)) (cv\<lparr>cv_index := ?at\<rparr>)"
    by (rule well_placed_append)
  moreover have "filter (\<lambda>l. l \<notin> set ?names) (map cv_label cvs) = filter (\<lambda>l. l \<notin> set names) (map cv_label cvs)"
  proof (rule filter_cong [OF refl])
    fix x assume "x \<in> set (map cv_label cvs)"
    moreover have "cv_label cv \<notin> set (map cv_label cvs)" using Cons.prems(1) by simp
    ultimately have "x \<noteq> cv_label cv" by metis
    then show "(x \<notin> set ?names) = (x \<notin> set names)" by simp
  qed
  ultimately show ?case
    using IH Cons.prems(1) rest(2) by (cases ?found) auto
qed simp

lemma put_custom_spec:
  assumes "distinct names" and "distinct (map cv_label ps)" and "\<forall>p \<in> set ps. well_placed names p"
    and "length values = length names"
  shows "\<exists>vs. put_custom c err ps values = Some vs \<and> length vs = length names \<and>
    (\<forall>i < length names. vs ! i =
       (case map_of (map (\<lambda>p. (cv_label p, cv_valueFunc p)) ps) (names ! i) of Some f \<Rightarrow> f c err | None \<Rightarrow> values ! i))"
  using assms
proof (induction ps arbitrary: "values")
  case (Cons p ps)
  let ?i = "nat (cv_index p)"
  have p: "0 \<le> cv_index p" "?i < length names" "names ! ?i = cv_label p"
    using Cons.prems(3) by (simp_all add: well_placed_def)
  from Cons.IH [of "values[?i := cv_valueFunc p c err]"] Cons.prems obtain vs where
    vs: "put_custom c err ps (values[?i := cv_valueFunc p c err]) = Some vs" "length vs = length names"
    "\<And>i. i < length names \<Longrightarrow> vs ! i = (case map_of (map (\<lambda>p. (cv_label p, cv_valueFunc p)) ps) (names ! i) of
        Some f \<Rightarrow> f c err | None \<Rightarrow> values[?i := cv_valueFunc p c err] ! i)" by auto
  have "map_of (map (\<lambda>p. (cv_label p, cv_valueFunc p)) ps) (cv_label p) = None"
    using Cons.prems(2) by (force simp: map_of_eq_None_iff)
  moreover have "names ! i = cv_label p \<longleftrightarrow> i = ?i" if "i < length names" for i
    using p that Cons.prems(1) by (metis nth_eq_iff_index_eq)
  ultimately have "vs ! i = (case map_of (map (\<lambda>p. (cv_label p, cv_valueFunc p)) (p # ps)) (names ! i) of
        Some f \<Rightarrow> f c err | None \<Rightarrow> values ! i)" if "i < length names" for i
    using vs(3) [OF that] that p(2,3) Cons.prems(4) by (cases "i = ?i") (auto split: option.split)
  with vs(1,2) p(1,2) Cons.prems(4) show ?case by auto
qed simp

lemma map_sort_key: "map f (sort_key f xs) = sort (map f xs)"
  by (rule properties_for_sort [symmetric]) (simp_all add: sorted_sort_key)

lemma range_order_sort: "range_order ord \<Longrightarrow> sort (ord ks) = sort ks"
  by (rule properties_for_sort) (simp_all add: range_order_def)

lemma createLabels_spec:
  assumes "range_order ord" and "distinct (keys funcs)" and "createLabels ord names0 funcs = (ns, ps)"
  shows "ns = names0 @ sort (filter (\<lambda>l. l \<notin> set names0) (keys funcs)) \<and> distinct (map cv_label ps) \<and>
    (\<forall>l. map_of (map (\<lambda>p. (cv_label p, cv_valueFunc p)) ps) l = map_of funcs l) \<and> (\<forall>p \<in> set ps. well_placed ns p)"
proof (cases "length funcs = 0")
  case True
  with assms(3) show ?thesis by (auto simp: createLabels_def)
next
  case False
  let ?g = "\<lambda>label. \<lparr>cv_index = 0, cv_label = label, cv_valueFunc = the (map_of funcs label)\<rparr>"
  let ?cvs = "sort_key cv_label (map ?g (ord (keys funcs)))"
  have labels: "map cv_label ?cvs = sort (keys funcs)"
    using range_order_sort [OF assms(1), of "keys funcs"] by (simp add: map_sort_key comp_def)
  then have d: "distinct (map cv_label ?cvs)" using assms(2) by simp
  from assms(3) False have "place_labels ?cvs names0 = (ns, ps)" by (simp add: createLabels_def Let_def)
  note pl = place_labels_spec [OF d this]
  have "\<forall>l. map_of (map (\<lambda>p. (cv_label p, cv_valueFunc p)) ?cvs) l = map_of funcs l"
  proof
    fix l show "map_of (map (\<lambda>p. (cv_label p, cv_valueFunc p)) ?cvs) l = map_of funcs l"
    proof (cases "map_of funcs l")
      case None
      then have "l \<notin> set (map cv_label ?cvs)" unfolding labels by (simp add: map_of_eq_None_iff)
      then have "map_of (map (\<lambda>p. (cv_label p, cv_valueFunc p)) ?cvs) l = None" by (force simp: map_of_eq_None_iff)
      with None show ?thesis by simp
    next
      case (Some f)
      then have "l \<in> set (keys funcs)" by (metis map_of_eq_None_iff option.distinct(1) set_map)
      then have mem: "(l, f) \<in> set (map (\<lambda>p. (cv_label p, cv_valueFunc p)) ?cvs)"
        using Some assms(1) by (force simp: image_iff)
      have "distinct (map fst (map (\<lambda>p. (cv_label p, cv_valueFunc p)) ?cvs))" using d by (simp add: comp_def)
      from map_of_is_SomeI [OF this mem] Some show ?thesis by (simp only:)
    qed
  qed
  then have "\<forall>l. map_of (map (\<lambda>p. (cv_label p, cv_valueFunc p)) ps) l = map_of funcs l"
    by (simp only: pl [THEN conjunct2, THEN conjunct1] simp_thms)
  moreover have "map cv_label ps = map cv_label ?cvs"
    using arg_cong [OF pl [THEN conjunct2, THEN conjunct1], of "map fst"] by (simp add: comp_def)
  moreover have "ns = names0 @ sort (filter (\<lambda>l. l \<notin> set names0) (keys funcs))"
    using pl [THEN conjunct1] by (simp only: labels filter_sort)
  moreover from calculation(2) d have "distinct (map cv_label ps)" by (simp only:)
  ultimately show ?thesis using pl [THEN conjunct2, THEN conjunct2] by (intro conjI)
qed

text \<open>
  C37: every label gets its value. The labels of the metrics are the built-in ones followed by the
  custom ones that are not built in, sorted, so they do not depend on the iteration order of the
  configured map; no label occurs twice. For every request a value is computed for each label,
  without an index out of range: the custom function's where one is configured, also for a
  built-in label it overrides, and the built-in value otherwise.
\<close>

theorem middleware_label_values:
  assumes "range_order ord" and "distinct (keys (LabelFuncs conf))"
    and "ToMiddleware ord Register r conf = (Inr mw, r')"
  shows "mw_labelNames mw = baseLabels conf @ sort (filter (\<lambda>l. l \<notin> set (baseLabels conf)) (keys (LabelFuncs conf))) \<and>
    distinct (mw_labelNames mw) \<and>
    (\<exists>values. label_values mw c err = Some values \<and> length values = length (mw_labelNames mw) \<and>
       (\<forall>i < length (mw_labelNames mw). values ! i =
          (case map_of (LabelFuncs conf) (mw_labelNames mw ! i) of
             Some f \<Rightarrow> f c err
           | None \<Rightarrow> base_value c (mw_resolver mw c err) (mw_labelNames mw ! i))))"
proof -
  from assms(3) have "createLabels ord (baseLabels conf) (LabelFuncs conf) = (mw_labelNames mw, mw_valuers mw)"
    by (auto simp: ToMiddleware_def Let_def split: prod.splits sum.splits)
  from createLabels_spec [OF assms(1,2) this]
  have ns: "mw_labelNames mw = baseLabels conf @ sort (filter (\<lambda>l. l \<notin> set (baseLabels conf)) (keys (LabelFuncs conf)))"
    and ps: "distinct (map cv_label (mw_valuers mw))" "\<forall>p \<in> set (mw_valuers mw). well_placed (mw_labelNames mw) p"
    and f: "\<And>l. map_of (map (\<lambda>p. (cv_label p, cv_valueFunc p)) (mw_valuers mw)) l = map_of (LabelFuncs conf) l"
    by blast+
  have "distinct (baseLabels conf)" by (simp add: baseLabels_def)
  then have d: "distinct (mw_labelNames mw)" using assms(2) by (auto simp: ns)
  obtain vs where vs: "label_values mw c err = Some vs" "length vs = length (mw_labelNames mw)"
    "\<And>i. i < length (mw_labelNames mw) \<Longrightarrow> vs ! i = (case map_of (LabelFuncs conf) (mw_labelNames mw ! i) of
       Some f \<Rightarrow> f c err | None \<Rightarrow> map (base_value c (mw_resolver mw c err)) (mw_labelNames mw) ! i)"
    using put_custom_spec [OF d ps, of "map (base_value c (mw_resolver mw c err)) (mw_labelNames mw)" c err]
    unfolding f label_values_def by auto
  then have "\<forall>i < length (mw_labelNames mw). vs ! i = (case map_of (LabelFuncs conf) (mw_labelNames mw ! i) of
       Some f \<Rightarrow> f c err | None \<Rightarrow> base_value c (mw_resolver mw c err) (mw_labelNames mw ! i))"
    by (auto split: option.split)
  with ns d vs(1,2) show ?thesis by blast
qed

definition demo_conf :: MiddlewareConfig where
  "demo_conf = \<lparr>Namespace = '''', Subsystem = '''', IncludeHost = False,
     LabelFuncs = [(''zone'', \<lambda>c err. ''eu''), (''method'', \<lambda>c err. ''M''), (''app'', \<lambda>c err. ''web'')],
     HistogramOptsFunc = None, CounterOptsFunc = None, StatusCodeResolver = None\<rparr>"

theorem middleware_label_values_witness:
  "\<exists>mw values. ToMiddleware rev (\<lambda>r opts ls. (Inr Inr, r)) () demo_conf = (Inr mw, ()) \<and>
     mw_labelNames mw = [''code'', ''method'', ''url'', ''app'', ''zone''] \<and>
     label_values mw \<lparr>FullPath = '''', Request_Method = ''GET'', Request_Host = ''h'', Writer_Status = 0\<rparr> None = Some values \<and>
     values ! 1 = ''M''"
proof -
  let ?c = "\<lparr>FullPath = '''', Request_Method = ''GET'', Request_Host = ''h'', Writer_Status = 0\<rparr>"
  let ?R = "\<lambda>r opts ls. (Inr Inr, r) :: (go_error + (string list \<Rightarrow> string + string list)) \<times> unit"
  obtain mw where mw: "ToMiddleware rev ?R () demo_conf = (Inr mw, ())"
    by (cases "createLabels rev (baseLabels demo_conf) (LabelFuncs demo_conf)") (auto simp: ToMiddleware_def Let_def)
  have k: "distinct (keys (LabelFuncs demo_conf))" by (simp add: demo_conf_def)
  have b: "baseLabels demo_conf = [''code'', ''method'', ''url'']" by (simp add: baseLabels_def demo_conf_def)
  have custom: "sort (filter (\<lambda>l. l \<notin> set (baseLabels demo_conf)) (keys (LabelFuncs demo_conf))) = [''app'', ''zone'']"
    unfolding b by (simp add: demo_conf_def insort_key_def)
  note all = middleware_label_values [OF range_order_rev k mw, of ?c None]
  from all [THEN conjunct1, unfolded custom, unfolded b]
  have names: "mw_labelNames mw = [''code'', ''method'', ''url'', ''app'', ''zone'']" by simp
  from all [THEN conjunct2, THEN conjunct2] obtain vs where v: "label_values mw ?c None = Some vs" "\<forall>i < length (mw_labelNames mw). vs ! i =
          (case map_of (LabelFuncs demo_conf) (mw_labelNames mw ! i) of
             Some f \<Rightarrow> f ?c None
           | None \<Rightarrow> base_value ?c (mw_resolver mw ?c None) (mw_labelNames mw ! i))" by (elim exE conjE) (rule that)
  from v(2) names have "vs ! 1 = ''M''" by (simp add: demo_conf_def)
  with mw names v(1) show ?thesis by (intro exI [of _ mw] exI [of _ vs] conjI) simp_all
qed

text \<open>
  An error on the context is recorded a second time by the adapter: the first error of the chain
  is returned by the middleware and added to the list it came from.
\<close>

theorem GinMiddleware_repeats_error:
  assumes "GinMiddleware mw start stop c (e # es) = Some ([Observed a n, Counted b], errors)"
  shows "errors = (e # es) @ [e]"
  using assms by (auto simp: GinMiddleware_def handle_def split: option.splits sum.splits)

text \<open>
  The plain middleware: three labels, in an order that does not depend on the runtime, and the
  default subsystem when none is named.
\<close>

lemma NewMiddleware_plain:
  assumes "NewMiddleware ord Register r subsystem = (Inr mw, r')"
  shows "mw_labelNames mw = [''code'', ''method'', ''url''] \<and> mw_valuers mw = [] \<and>
    NewMiddleware ord Register r '''' = NewMiddleware ord Register r ''gin''"
proof -
  have labels: "createLabels ord [''code'', ''method'', ''url''] [] = ([''code'', ''method'', ''url''], [])"
    by (simp add: createLabels_def)
  have "mw_labelNames mw = [''code'', ''method'', ''url'']" "mw_valuers mw = []"
    using assms
    by (auto simp: NewMiddleware_def NewMiddlewareWithConfig_def ToMiddleware_def baseLabels_def labels Let_def
        split: sum.splits prod.splits)
  then show ?thesis
    by (simp add: NewMiddleware_def NewMiddlewareWithConfig_def ToMiddleware_def defaultSubsystem_def baseLabels_def
        labels Let_def split: prod.split sum.split)
qed

end
