(* ===== verification/Spec2Isabelle.thy ===== *)
theory Spec2Isabelle
  imports Stream_Ends Interleaving Grpc_Server Http_Metrics
begin

text \<open>
  \<^bold>\<open>The Talos discovery service\<close>

  The program keeps, per cluster, the affiliates (nodes) that announce themselves, each with
  encrypted data and endpoints and an expiry, and tells watchers of every change. A gRPC server
  offers the calls \<^verbatim>\<open>Hello\<close>, \<^verbatim>\<open>AffiliateUpdate\<close>, \<^verbatim>\<open>AffiliateDelete\<close>, \<^verbatim>\<open>List\<close> and the stream \<^verbatim>\<open>Watch\<close>; a
  web server, embedded or in a process of its own, is a client of these calls and passes changes on
  to browsers as server-sent events; actors clean up expired entries and save snapshots.

  \<^bold>\<open>The theories and the code they model\<close>

  Each theory models the files named with it, under \<^verbatim>\<open>src/\<close>; an operation has the name of its Go
  function, and the fields of a record those of the struct, with a prefix where names clash.

  \<^item> \<open>Prelude\<close>: times, durations and counters as 64-bit words; Go maps as association lists with an
    order of iteration as an argument; buffered channels; transition systems. Its interfaces are the
    locales \<open>go_map\<close>, \<open>bounded_channel\<close>, \<open>invariant_system\<close>, \<open>total_machine\<close> and \<open>event_source\<close>.
  \<^item> \<open>Affiliate\<close> (\<^verbatim>\<open>internal/state/affiliate.go\<close>, \<^verbatim>\<open>limits.go\<close>), \<open>Cluster\<close> (\<^verbatim>\<open>cluster.go\<close>,
    \<^verbatim>\<open>cluster_subscribe.go\<close>): the data and every operation of a cluster. A subscription is a cell of a
    store that the cluster holds, so that closing one through either reference has one effect.
    \<open>Subscriptions\<close> and \<open>Cluster_Inv\<close> hold the invariant and what the operations do.
  \<^item> \<open>Watch_Replay\<close>: sequences of operations on a cluster. No sequence panics; a subscription
    receives the announced events without gap; replaying them on the snapshot gives the state.
  \<^item> \<open>Interleaving\<close>: the statements of \<^verbatim>\<open>notify\<close>, \<^verbatim>\<open>Close\<close> and \<^verbatim>\<open>closeFn\<close> as steps of goroutines.
  \<^item> \<open>State\<close> (\<^verbatim>\<open>state.go\<close>): clusters by name over the concurrent map, whose contract is the locale
    \<open>xsync_map\<close>; clusters are reached through pointers into a heap, so that a request can hold one
    that has been removed. \<open>Snapshot\<close> (\<^verbatim>\<open>snapshot.go\<close>, \<^verbatim>\<open>snapshot.pb.go\<close>): saving and loading, with
    files as a map and one outcome per system call; the protobuf runtime is the locale
    \<open>protobuf_runtime\<close>.
  \<^item> \<open>Validation\<close>, \<open>Netip\<close>, \<open>Messages\<close>, \<open>ClusterServer\<close> (\<^verbatim>\<open>internal/server/validation.go\<close>,
    \<^verbatim>\<open>cluster_server.go\<close>, \<^verbatim>\<open>cluster.pb.go\<close>): the handlers on the bytes of their arguments, with the
    parsing of addresses of the standard library. \<^verbatim>\<open>Watch\<close> is a state machine with one step per
    completed send or selected case. \<open>Server_Spec\<close> states what the service promises, a map from
    clusters and names to entries, and shows that the handlers implement it.
  \<^item> \<open>Server_Runs\<close> and \<open>Watch_Stream\<close>: executions of the whole server, as interleavings of requests,
    steps of streams, ends of contexts and cleanups (locale \<open>server_setup\<close>). \<open>Stream_Copies\<close> puts
    the clients of the streams beside the server, each with the copy it makes of the responses;
    \<open>Stream_Ends\<close> counts the steps that a stream has left once its subscription is closed.
  \<^item> \<open>Text_Encoding\<close>, \<open>Payload\<close>, \<open>Hub\<close>, \<open>Watch_Manager\<close>, \<open>Web_Endpoints\<close> (\<^verbatim>\<open>internal/web/\<close>:
    \<^verbatim>\<open>discovery_payload.go\<close>, \<^verbatim>\<open>discovery_hub.go\<close>, \<^verbatim>\<open>discovery_metrics.go\<close>,
    \<^verbatim>\<open>discovery_watch_manager.go\<close>, \<^verbatim>\<open>discovery_endpoints.go\<close>): the JSON sent to browsers, the fan-out
    to them, the shared upstream watches with their reconnect loop, and the HTTP handlers.
    \<open>Web_Runs\<close> has the executions of the web front end and their invariant.
  \<^item> \<open>Server_Setup\<close> (\<^verbatim>\<open>server.go\<close>, \<^verbatim>\<open>runutil/server_actors.go\<close>, \<^verbatim>\<open>config.go\<close>, \<^verbatim>\<open>web_server.go\<close>), \<open>Flags\<close>
    (\<^verbatim>\<open>cmd/discovery-service/main.go\<close>, \<^verbatim>\<open>viper.go\<close>), \<open>Grpc_Server\<close> (\<^verbatim>\<open>discovery_server.go\<close>,
    \<^verbatim>\<open>discovery_client.go\<close>, \<^verbatim>\<open>registry.go\<close>), \<open>Http_Metrics\<close> (\<^verbatim>\<open>internal/metrics/prometheus.go\<close>): how the
    process is configured, put together, started, stopped and measured.
  \<^item> This theory: properties that span the state, the handlers, the interceptors and the web server.

  \<^bold>\<open>What is shown\<close>

  \<^item> A watcher's copy: snapshot and events give exactly the cluster's affiliates, for one cluster and
    for every stream of every execution of the server, and an open stream catches up; a slow watcher
    is closed and told; responses reach exactly the browsers that stream their cluster.
  \<^item> Invariants of every execution: limits on what is stored, no leaked subscription or upstream
    watch, agreement of reference counts, gauges and open streams; nothing panics when the
    operations of a subscription do not overlap.
  \<^item> Overlapping operations: channels are closed once and there is no deadlock, but a sender can be
    overtaken by a close and panic, and notifications can overtake each other.
  \<^item> Refinement of the service's specification by the handlers; the merge loop equals a closed form;
    round trips of snapshots, of the payload, and of addresses; files are replaced atomically and a
    restarted service serves what was saved.
  \<^item> Errors on every branch of the handlers and through the interceptors, set-up errors, the
    precedence of settings, bounds of delays and times, termination of a cancelled watcher and of a stream
    whose subscription is closed.

  \<^bold>\<open>Conventions and bounds\<close>

  Every operation is a total function, and every loop is structural recursion over the list it goes
  through; a panic is the result \<open>None\<close>, and an error a value. Only the reference reader of JSON
  arrays takes fuel, the length of its text, and each element it reads takes at least one character.
  A loop that waits is a step function, and a property of it speaks of the sequences of its steps.
  Subscriptions are numbered by a 64-bit counter; properties of long executions assume fewer than
  \<open>2 ^ 64\<close> of them. Times are 64-bit nanoseconds; where a sum with a lifetime could wrap, the
  statement bounds the clock.

  \<^bold>\<open>Parameters\<close>

  Code of other packages is an argument: the concurrent map, the protobuf runtime with its duration
  conversion, the results of gRPC calls and dials, the interceptors for logging, metrics and
  recovery, the Prometheus registry, the calls of the HTTP framework, flag parsing, the reading of
  configuration files, system calls on files. What is relied on stands as a named hypothesis or as the
  assumptions of a locale, each with an instance that satisfies it. The clock, the random jitter, the
  order in which a map is iterated and the case a \<^verbatim>\<open>select\<close> takes are arguments too, and the
  properties hold for all of them.

  \<^bold>\<open>Not modelled\<close>

  \<^item> \<^verbatim>\<open>cluster_grpc.pb.go\<close> and the reflection, descriptor and registration parts of the generated
    message files: they belong to the gRPC and protobuf runtimes.
  \<^item> \<^verbatim>\<open>web/assets/embed.go\<close>: an embed directive, whose file system is an argument.
  \<^item> Log messages and help texts, which have no effect on the state; the level of a finished call is
    modelled.
  \<^item> Goroutines of different subscriptions and of the heap are interleaved at the operations, each
    between taking and releasing its locks; only the code of one subscription, which works
    without a lock, is interleaved by statements.
\<close>

section \<open>From the state to the browser\<close>

text \<open>
  The call \<^verbatim>\<open>List\<close> of the embedded web server: the in-memory transport calls the handler behind the
  interceptors.
\<close>

definition in_memory_List ::
  "'m xsync \<Rightarrow> env \<Rightarrow> 'm State \<Rightarrow> pb_ListRequest option \<Rightarrow> go_error + pb_ListResponse" where
  "in_memory_List X e s req =
     (case List X e req s of
        Inl err \<Rightarrow> (case normalizeContextErr (Some err) of Some err' \<Rightarrow> Inl err' | None \<Rightarrow> Inr \<lparr>f_ListResponse_Affiliates = []\<rparr>)
      | Inr resp \<Rightarrow> Inr resp)"

lemma in_memory_List_chain:
  assumes "documented none P" and "NewDiscoveryServer Register P kind cfg registry = Some (srv, registry')"
  shows "chain (unary_interceptors srv) m (\<lambda>req. unary_outcome none (List X e req s)) req =
    unary_outcome none (in_memory_List X e s req)"
proof -
  have *: "normalizeContextErr (Some err) = None \<longleftrightarrow> False" for err by (cases err) simp_all
  show ?thesis
    unfolding call_through_interceptors [OF assms, THEN conjunct1]
    by (auto simp: unary_outcome_def in_memory_List_def * split: sum.splits option.splits)
qed

text \<open>What a browser makes of a listed entry: the bytes behind the base64 texts.\<close>

definition entry_read :: "affiliateJSON \<Rightarrow> bytes option \<times> bytes option list option" where
  "entry_read j = (b64_read (aj_Data j), map_option (map b64_read) (aj_Endpoints j))"

definition info_read :: "AffiliateInfo \<Rightarrow> bytes option \<times> bytes option list option" where
  "info_read info = (Some (info_Data info), Some (map Some (info_Endpoints info)))"

lemma entry_read_list_entry: "entry_read (list_entry a) = info_read (info_of a)"
  by (simp add: entry_read_def list_entry_def info_read_def info_of_def go_defs base64_round_trip comp_def)

lemma listed_entries:
  "map_of (map (\<lambda>a. (f_Affiliate_Id a, entry_read (list_entry a))) as) k =
     map_option info_read (view_of_list (map info_of as) k)"
  by (induction as) (auto simp: view_of_list_def entry_read_list_entry info_of_def)

lemma cluster_error_status:
  "validateClusterID i = Some err \<Longrightarrow> grpcErrorToHTTPStatus (Some err) = 400 \<and> normalizeContextErr (Some err) = Some err"
  by (auto simp: validateClusterID_def ErrClusterIDEmpty_def ErrClusterIDTooLong_def grpcErrorToHTTPStatus_def split: if_splits)



lemma watch_clients:
  assumes "web_inv w" and "i < length (watchers (mgr w))" and "\<not> wt_cancelled (watchers (mgr w) ! i)"
  shows "set (keys (clients (hubs (mgr w) ! wt_hub (watchers (mgr w) ! i)))) =
    streams_of (handlers w) (wt_cluster (watchers (mgr w) ! i))"
proof -
  let ?k = "wt_cluster (watchers (mgr w) ! i)"
  from assms have "\<exists>e. map_of (entries (mgr w)) ?k = Some e \<and> entry_hub e = i"
    and hub: "wt_hub (watchers (mgr w) ! i) = i"
    unfolding web_inv_def mgr_ok_def by blast+
  then obtain e where e: "map_of (entries (mgr w)) ?k = Some e" "entry_hub e = i" by blast
  with assms(1) have "entry_ok (mgr w) (streams_of (handlers w) ?k) ?k e" by (simp add: web_inv_def streams_ok_def)
  with e(2) hub show ?thesis by (simp add: entry_ok_def)
qed

lemma next_update_written:
  assumes "web_inv w" and "j < length (handlers w)" and "sse_open (handlers w ! j)"
    and "ch_buf (chans (mgr w) ! j) = [\<lparr>evt_Data = body\<rparr>]"
  shows "sse_out (handlers (sse_step j Event_ready w) ! j) = sse_out (handlers w ! j) @ [(''update'', body)]"
proof -
  have "sse_chan (handlers w ! j) = j" using assms(1,2) by (simp add: web_inv_def streams_ok_def)
  with assms(2-4) show ?thesis
    by (simp add: sse_step_def Let_def recv_chan_def put_handler_def sse_write_def)
qed

text \<open>
  C31: an update reaches the browsers. In every reachable state of the web front end, a response that
  a running watch receives is broadcast as a text that reads back as the response's affiliates and
  deletion mark. Exactly the open streams of that cluster whose queue is not full get it, at the
  end of their queue; a stream with nothing else queued writes it as its next update event.
\<close>

theorem response_reaches_browsers:
  assumes "\<forall>x \<in> set xs. web_op_ok x" and "run web_exec fresh_web xs = Some w"
    and "i < length (watchers (mgr w))" and "wt_pc (watchers (mgr w) ! i) = Receiving"
    and "\<not> wt_cancelled (watchers (mgr w) ! i)" and "sound_action (ord, rnd, Recv_response resp)"
  shows "\<exists>w' body. web_exec w (Watcher i (ord, rnd, Recv_response resp)) = Some w' \<and>
    read_envelope body =
      Some ((map (\<lambda>a. (decoded (f_Affiliate_Id a), f_Affiliate_Data a, f_Affiliate_Endpoints a, ())) (f_WatchResponse_Affiliates resp),
             f_WatchResponse_Deleted resp, ()), []) \<and>
    (\<forall>j < length (handlers w).
       let queue = ch_buf (chans (mgr w) ! sse_chan (handlers w ! j));
           queue' = ch_buf (chans (mgr w') ! sse_chan (handlers w ! j));
           subscribed = (sse_open (handlers w ! j) \<and> sse_cluster (handlers w ! j) = wt_cluster (watchers (mgr w) ! i))
       in queue' = (if subscribed \<and> length queue < 64 then queue @ [\<lparr>evt_Data = body\<rparr>] else queue) \<and>
          (subscribed \<and> queue = [] \<longrightarrow>
             sse_out (handlers (sse_step j Event_ready w') ! j) = sse_out (handlers w ! j) @ [(''update'', body)]))"
proof -
  from web_machine.run_total [where s = fresh_web and xs = xs] fresh_web_inv assms(1,2) have inv: "web_inv w" by auto
  let ?m = "mgr w" and ?k = "wt_cluster (watchers (mgr w) ! i)"
  have ok: "store_wf ?m" "range_order ord" "length (chans ?m) = length (handlers w)"
    "\<forall>j < length (handlers w). sse_chan (handlers w ! j) = j \<and> ch_cap (chans ?m ! j) = 64"
    using inv assms(6)
    by (auto simp: web_inv_def mgr_ok_def streams_ok_def sound_action_def subscriberChannelSize_def)
  obtain body where body: "affiliatesToJSON (f_WatchResponse_Affiliates resp) (f_WatchResponse_Deleted resp) = Inr body"
    "read_envelope body = Some ((map (\<lambda>a. (decoded (f_Affiliate_Id a), f_Affiliate_Data a, f_Affiliate_Endpoints a, ()))
       (f_WatchResponse_Affiliates resp), f_WatchResponse_Deleted resp, ()), [])"
    using payload_read by blast
  from watch_response_delivers [OF ok(1,2) assms(3), of resp rnd] body(1) watch_clients [OF inv assms(3,5)]
  obtain n where "watch_response ord rnd i resp ?m =
      Some (?m\<lparr>chans := deliver \<lparr>evt_Data = body\<rparr> (streams_of (handlers w) ?k) (chans ?m),
               calls := (calls ?m @ [Inc watchEvents]) @ replicate n (Inc broadcastDroppedEvents)\<rparr>)" by auto
  then obtain w' where w': "web_exec w (Watcher i (ord, rnd, Recv_response resp)) = Some w'" "handlers w' = handlers w"
    "chans (mgr w') = deliver \<lparr>evt_Data = body\<rparr> (streams_of (handlers w) ?k) (chans ?m)"
    using assms(3,4) by (auto simp: watcher_step_def watchDiscovery_def)
  have inv': "web_inv w'"
    using Watcher_inv [OF inv assms(6,3)] w'(1) assms(3) by auto
  have member: "j \<in> streams_of (handlers w) ?k \<longleftrightarrow> sse_open (handlers w ! j) \<and> sse_cluster (handlers w ! j) = ?k"
    if "j < length (handlers w)" for j
    using that by (auto simp: streams_of_def open_streams_def)
  have queue: "ch_buf (chans (mgr w') ! j) =
      (if j \<in> streams_of (handlers w) ?k \<and> length (ch_buf (chans ?m ! j)) < 64
       then ch_buf (chans ?m ! j) @ [\<lparr>evt_Data = body\<rparr>] else ch_buf (chans ?m ! j))" if "j < length (handlers w)" for j
    using that ok(3,4) by (simp add: w'(3) has_room_def)
  have out: "sse_out (handlers (sse_step j Event_ready w') ! j) = sse_out (handlers w ! j) @ [(''update'', body)]"
    if "j < length (handlers w)" "j \<in> streams_of (handlers w) ?k" "ch_buf (chans ?m ! j) = []" for j
    using next_update_written [OF inv', of j body] queue [of j] that member [of j] w'(2) by simp
  show ?thesis
    using w'(1) body(2) queue out member ok(4) by (intro exI [of _ w'] exI [of _ body]) (simp add: Let_def)
qed

definition demo_stream_ops :: "web_op list" where
  "demo_stream_ops = [Open ''c'', Watcher 0 (\<lambda>ks. ks, \<lambda>n. 0, Proceed), Watcher 0 (\<lambda>ks. ks, \<lambda>n. 0, Opened)]"

theorem response_reaches_browsers_witness:
  "\<exists>w w' body. run web_exec fresh_web demo_stream_ops = Some w \<and>
     web_exec w (Watcher 0 (\<lambda>ks. ks, \<lambda>n. 0, Recv_response \<lparr>f_WatchResponse_Affiliates = [], f_WatchResponse_Deleted = False\<rparr>)) = Some w' \<and>
     read_envelope body = Some (([], False, ()), []) \<and>
     sse_out (handlers (sse_step 0 Event_ready w') ! 0) = [(''update'', body)]"
proof -
  let ?resp = "\<lparr>f_WatchResponse_Affiliates = [], f_WatchResponse_Deleted = False\<rparr>"
  have ok: "\<forall>x \<in> set demo_stream_ops. web_op_ok x" "sound_action (\<lambda>ks. ks, \<lambda>n. 0, Recv_response ?resp)"
    by (simp_all add: demo_stream_ops_def sound_action_def random_source_def)
  have sum: "map_option (\<lambda>w. (map (\<lambda>a. (wt_pc a, wt_cancelled a, wt_cluster a)) (watchers (mgr w)),
        map (\<lambda>h. (sse_open h, sse_cluster h, sse_chan h, sse_out h)) (handlers w), map ch_buf (chans (mgr w))))
      (run web_exec fresh_web demo_stream_ops) = Some ([(Receiving, False, ''c'')], [(True, ''c'', 0, [])], [[]])"
    by code_simp
  then obtain w where w: "run web_exec fresh_web demo_stream_ops = Some w" by auto
  with sum have f: "length (watchers (mgr w)) = 1" "wt_pc (watchers (mgr w) ! 0) = Receiving" "\<not> wt_cancelled (watchers (mgr w) ! 0)"
    "wt_cluster (watchers (mgr w) ! 0) = ''c''" "length (handlers w) = 1" "sse_open (handlers w ! 0)" "sse_cluster (handlers w ! 0) = ''c''"
    "sse_chan (handlers w ! 0) = 0" "sse_out (handlers w ! 0) = []" "ch_buf (chans (mgr w) ! 0) = []"
    by auto
  from response_reaches_browsers [OF ok(1) w _ _ _ ok(2)] f
  have "\<exists>w' body. web_exec w (Watcher 0 (\<lambda>ks. ks, \<lambda>n. 0, Recv_response ?resp)) = Some w' \<and>
     read_envelope body = Some (([], False, ()), []) \<and>
     sse_out (handlers (sse_step 0 Event_ready w') ! 0) = [(''update'', body)]"
    by (fastforce simp del: web_exec.simps)
  with w show ?thesis by blast
qed

end
